(* ===== verification/Spl_Prelude.thy ===== *)
theory Spl_Prelude
  imports Main "HOL-Library.Word"
begin

text \<open>
  Shared vocabulary of the development: the machine-integer types of the Rust sources, the
  way a panic is represented, the big-endian conversions that the wire formats use, checked
  arithmetic on \<open>usize\<close>, the byte strings written as literals in the sources, and the
  list lemmas and fact collections that the component theories share.

  A \<open>usize\<close> (a length, an offset, a byte count) is a \<^typ>\<open>nat\<close>; where the source uses a
  checked operation on it, the 64-bit limit is written out (\<open>usize_checked_add\<close>). A byte
  is an \<^typ>\<open>8 word\<close>, a stream identifier a \<^typ>\<open>32 word\<close>. \<open>Vec<u8>\<close>, \<open>&[u8]\<close> and
  \<open>&str\<close> are byte lists: a Rust string is its UTF-8 encoding.
\<close>

unbundle bit_operations_syntax

subsection \<open>Types\<close>

type_synonym u8 = "8 word"
type_synonym u16 = "16 word"
type_synonym u32 = "32 word"
type_synonym bytes = "u8 list"
type_synonym str = "u8 list"

text \<open>
  A Rust call that does not return normally either returns \<open>Err(e)\<close> or panics. Where a panic
  is written in the source (\<open>assert!\<close>, \<open>expect\<close>), it is the value \<open>Panic msg\<close>, so that its
  unreachability is a theorem and not an assumption of the model.
\<close>

datatype 'e fault = Err 'e | Panic string

text \<open>Fact collections: definitions that unfold a state access, and rules for invariants.\<close>

named_theorems wire_simps \<open>evaluation of wire-format accessors\<close>
named_theorems inv_intros \<open>operations preserve the invariants of their component\<close>

subsection \<open>Results\<close>

text \<open>Rust's \<open>?\<close>: an error value is returned as it is, a success is passed on.\<close>

definition bind_res :: "'e + 'a \<Rightarrow> ('a \<Rightarrow> 'e + 'b) \<Rightarrow> 'e + 'b" where
  "bind_res r k = (case r of Inl e \<Rightarrow> Inl e | Inr x \<Rightarrow> k x)"

lemma bind_res_simps [simp]:
  "bind_res (Inl e) k = Inl e"
  "bind_res (Inr x) k = k x"
  by (simp_all add: bind_res_def)

lemma bind_res_Inr_iff: "bind_res r k = Inr y \<longleftrightarrow> (\<exists>x. r = Inr x \<and> k x = Inr y)"
  by (cases r) simp_all

lemma bind_res_Inl_iff:
  "bind_res r k = Inl e \<longleftrightarrow> r = Inl e \<or> (\<exists>x. r = Inr x \<and> k x = Inl e)"
  by (cases r) auto

lemma bind_res_cong [fundef_cong]:
  assumes "r = r'" and "\<And>x. r' = Inr x \<Longrightarrow> k x = k' x"
  shows "bind_res r k = bind_res r' k'"
  using assms by (cases r') auto

definition ok_or :: "'a option \<Rightarrow> 'e \<Rightarrow> 'e + 'a" where
  "ok_or m e = (case m of None \<Rightarrow> Inl e | Some x \<Rightarrow> Inr x)"

lemma ok_or_simps [simp]:
  "ok_or None e = Inl e"
  "ok_or (Some x) e = Inr x"
  by (simp_all add: ok_or_def)

lemma ok_or_Inr_iff [simp]: "ok_or m e = Inr x \<longleftrightarrow> m = Some x"
  by (cases m) simp_all

lemma ok_or_Inl_iff [simp]: "ok_or m e = Inl e' \<longleftrightarrow> m = None \<and> e' = e"
  by (cases m) auto

lemma map_sum_Inl_iff: "map_sum f g r = Inl e \<longleftrightarrow> (\<exists>d. r = Inl d \<and> e = f d)"
  by (cases r) auto

lemma map_sum_Inr_iff: "map_sum f g r = Inr y \<longleftrightarrow> (\<exists>x. r = Inr x \<and> y = g x)"
  by (cases r) auto

subsection \<open>Checked arithmetic\<close>

definition usize_checked_add :: "nat \<Rightarrow> nat \<Rightarrow> nat option" where
  "usize_checked_add a b = (if a + b < 2 ^ 64 then Some (a + b) else None)"

definition usize_checked_mul :: "nat \<Rightarrow> nat \<Rightarrow> nat option" where
  "usize_checked_mul a b = (if a * b < 2 ^ 64 then Some (a * b) else None)"

definition usize_checked_sub :: "nat \<Rightarrow> nat \<Rightarrow> nat option" where
  "usize_checked_sub a b = (if b \<le> a then Some (a - b) else None)"

lemma usize_checked_add_eq_Some [simp]:
  "usize_checked_add a b = Some c \<longleftrightarrow> c = a + b \<and> a + b < 2 ^ 64"
  by (auto simp: usize_checked_add_def)

lemma usize_checked_add_eq_None [simp]: "usize_checked_add a b = None \<longleftrightarrow> 2 ^ 64 \<le> a + b"
  by (auto simp: usize_checked_add_def)

lemma usize_checked_mul_eq_Some [simp]:
  "usize_checked_mul a b = Some c \<longleftrightarrow> c = a * b \<and> a * b < 2 ^ 64"
  by (auto simp: usize_checked_mul_def)

lemma usize_checked_sub_eq_Some [simp]:
  "usize_checked_sub a b = Some c \<longleftrightarrow> b \<le> a \<and> c = a - b"
  by (auto simp: usize_checked_sub_def)

lemma usize_checked_sub_eq_None [simp]: "usize_checked_sub a b = None \<longleftrightarrow> a < b"
  by (auto simp: usize_checked_sub_def)

subsection \<open>Big-endian integers\<close>

text \<open>\<open>u32::to_be_bytes\<close>, \<open>u32::from_be_bytes\<close> and \<open>u16::from_be_bytes\<close>.\<close>

definition u32_to_be_bytes :: "u32 \<Rightarrow> bytes" where
  "u32_to_be_bytes w =
     [ucast (drop_bit 24 w), ucast (drop_bit 16 w), ucast (drop_bit 8 w), ucast w]"

definition u32_from_be_bytes :: "u8 \<Rightarrow> u8 \<Rightarrow> u8 \<Rightarrow> u8 \<Rightarrow> u32" where
  "u32_from_be_bytes a b c d =
     push_bit 24 (ucast a) OR push_bit 16 (ucast b) OR push_bit 8 (ucast c) OR ucast d"

definition u16_from_be_bytes :: "u8 \<Rightarrow> u8 \<Rightarrow> u16" where
  "u16_from_be_bytes a b = push_bit 8 (ucast a) OR ucast b"

lemma bit_u8_beyond [simp]: "8 \<le> k \<Longrightarrow> \<not> bit (b :: u8) k"
  by (auto dest: bit_imp_le_length)

lemma length_u32_to_be_bytes [simp]: "length (u32_to_be_bytes w) = 4"
  by (simp add: u32_to_be_bytes_def)

lemma u32_from_to_be_bytes [simp]:
  "u32_from_be_bytes (ucast (drop_bit 24 w)) (ucast (drop_bit 16 w)) (ucast (drop_bit 8 w)) (ucast w) = w"
proof (rule bit_word_eqI)
  fix n assume "n < LENGTH(32)"
  then consider "n < 8" | "8 \<le> n" "n < 16" | "16 \<le> n" "n < 24" | "24 \<le> n" "n < 32" by fastforce
  then show "bit (u32_from_be_bytes (ucast (drop_bit 24 w)) (ucast (drop_bit 16 w))
                    (ucast (drop_bit 8 w)) (ucast w)) n = bit w n"
    by cases (auto simp: u32_from_be_bytes_def bit_simps)
qed

lemma u32_to_from_be_bytes [simp]: "u32_to_be_bytes (u32_from_be_bytes a b c d) = [a, b, c, d]"
  by (auto intro!: bit_word_eqI
      simp: u32_from_be_bytes_def u32_to_be_bytes_def bit_simps)

text \<open>
  Three bytes read as a big-endian \<open>usize\<close>, \<open>(b0 as usize) << 16 | (b1 as usize) << 8 | b2\<close>:
  the length fields of mux frames and of TLS handshake messages.
\<close>

definition u24_value :: "u8 \<Rightarrow> u8 \<Rightarrow> u8 \<Rightarrow> nat" where
  "u24_value a b c = push_bit 16 (unat a) OR push_bit 8 (unat b) OR unat c"

definition u24_to_bytes :: "u32 \<Rightarrow> bytes" where
  "u24_to_bytes len = [ucast (drop_bit 16 len), ucast (drop_bit 8 len), ucast len]"

lemma length_u24_to_bytes [simp]: "length (u24_to_bytes len) = 3"
  by (simp add: u24_to_bytes_def)

lemma u24_value_of_nat [simp]:
  assumes "n < 2 ^ 24"
  shows "u24_value (ucast (drop_bit 16 (of_nat n :: u32))) (ucast (drop_bit 8 (of_nat n :: u32)))
           (ucast (of_nat n :: u32)) = n"
proof (rule bit_eqI)
  fix i
  have big: "\<not> bit n i" if "24 \<le> i"
    using assms that bit_take_bit_iff [of 24 n i] by (simp add: take_bit_nat_eq_self)
  consider "i < 8" | "8 \<le> i" "i < 16" | "16 \<le> i" "i < 24" | "24 \<le> i" by fastforce
  then show "bit (u24_value (ucast (drop_bit 16 (of_nat n :: u32)))
               (ucast (drop_bit 8 (of_nat n :: u32))) (ucast (of_nat n :: u32))) i = bit n i"
    by cases (auto simp: u24_value_def bit_simps big)
qed

lemma u24_value_less: "u24_value a b c < 2 ^ 24"
proof -
  have "take_bit 24 (u24_value a b c) = u24_value a b c"
    by (rule bit_eqI) (auto simp: u24_value_def bit_simps dest: bit_imp_le_length)
  then show ?thesis by (simp add: take_bit_nat_eq_self_iff)
qed

subsection \<open>Byte-string literals\<close>

text \<open>\<open>b"..."\<close> and \<open>"..."\<close> in the source, for ASCII text.\<close>

definition ascii :: "string \<Rightarrow> bytes" where
  "ascii s = map of_char s"

lemma ascii_simps [simp]:
  "ascii [] = []"
  "ascii (c # s) = of_char c # ascii s"
  by (simp_all add: ascii_def)

definition CRLF :: bytes where
  "CRLF = [13, 10]"

subsection \<open>Lists\<close>

text \<open>
  A list of at least \<open>n\<close> elements, taken apart; used where the source indexes a slice whose
  length it has just checked.
\<close>

lemma take_append_exact [simp]: "length xs = n \<Longrightarrow> take n (xs @ ys) = xs"
  by simp

lemma drop_append_exact [simp]: "length xs = n \<Longrightarrow> drop n (xs @ ys) = ys"
  by simp

text \<open>\<open>xs[i..j]\<close>, for \<open>i\<close> and \<open>j\<close> within the slice.\<close>

definition byte_slice :: "nat \<Rightarrow> nat \<Rightarrow> 'a list \<Rightarrow> 'a list" where
  "byte_slice i j xs = take (j - i) (drop i xs)"

lemma length_byte_slice [simp]: "j \<le> length xs \<Longrightarrow> length (byte_slice i j xs) = j - i"
  by (simp add: byte_slice_def)

lemma byte_slice_append:
  "length xs = i \<Longrightarrow> length ys = j - i \<Longrightarrow> i \<le> j \<Longrightarrow> byte_slice i j (xs @ ys @ zs) = ys"
  by (simp add: byte_slice_def)

text \<open>\<open>starts_with\<close> looks only at a prefix, so it is stable under later input.\<close>

lemma starts_with_append:
  assumes "take n xs = p" and "length p = n"
  shows "take n (xs @ ys) = p"
proof -
  from assms have "n \<le> length xs" by auto
  with assms(1) show ?thesis by simp
qed

lemma length_8_cases:
  assumes "8 \<le> length xs"
  obtains a b c d e f g h ys where "xs = a # b # c # d # e # f # g # h # ys"
  using assms
  by (auto simp: Suc_le_length_iff numeral_eq_Suc)

end
