(* ===== verification/Spl_Std.thy ===== *)
theory Spl_Std
  imports Spl_Prelude
begin

text \<open>
  What the sources use of Rust's standard library on byte strings: substring search and
  splitting, UTF-8 validation and lossy decoding, whitespace trimming, ASCII case folding,
  and the parsing and printing of unsigned integers. A \<open>&str\<close> is the list of its UTF-8
  bytes. The crate's own \<open>find_subsequence\<close> (\<open>crates/spl-core/src/http.rs\<close>) is here too,
  since searching for a non-empty pattern is the same function in both.
\<close>

subsection \<open>Searching and splitting\<close>

fun find_subsequence :: "bytes \<Rightarrow> bytes \<Rightarrow> nat option" where
  "find_subsequence [] needle = None"
| "find_subsequence (b # haystack) needle =
     (if needle = [] \<or> length (b # haystack) < length needle then None
      else if take (length needle) (b # haystack) = needle then Some 0
      else map_option Suc (find_subsequence haystack needle))"

lemma find_subsequence_length: "find_subsequence h n = Some i \<Longrightarrow> n \<noteq> [] \<and> i + length n \<le> length h"
  by (induction h arbitrary: i) (fastforce split: if_splits)+

text \<open>\<open>str::split(pat)\<close>: the pieces between the matches, at least one.\<close>

function str_split :: "bytes \<Rightarrow> bytes \<Rightarrow> bytes list" where
  "str_split pat s =
     (case find_subsequence s pat of
        None \<Rightarrow> [s]
      | Some i \<Rightarrow> take i s # str_split pat (drop (i + length pat) s))"
  by pat_completeness auto
termination
proof (relation "measure (\<lambda>(pat, s). length s)")
  fix pat s i
  assume "find_subsequence s pat = Some i"
  from find_subsequence_length [OF this]
  show "((pat, drop (i + length pat) s), pat, s) \<in> measure (\<lambda>(pat, s). length s)"
    by (cases pat) auto
qed simp

declare str_split.simps [simp del]

text \<open>\<open>str::splitn(n, pat)\<close>: at most \<open>n\<close> pieces, the last with the rest of the string.\<close>

fun str_splitn :: "nat \<Rightarrow> bytes \<Rightarrow> bytes \<Rightarrow> bytes list" where
  "str_splitn 0 pat s = []"
| "str_splitn (Suc 0) pat s = [s]"
| "str_splitn (Suc (Suc n)) pat s =
     (case find_subsequence s pat of
        None \<Rightarrow> [s]
      | Some i \<Rightarrow> take i s # str_splitn (Suc n) pat (drop (i + length pat) s))"

text \<open>\<open>str::split_once(pat)\<close>.\<close>

definition split_once :: "bytes \<Rightarrow> bytes \<Rightarrow> (bytes \<times> bytes) option" where
  "split_once pat s =
     map_option (\<lambda>i. (take i s, drop (i + length pat) s)) (find_subsequence s pat)"

subsection \<open>UTF-8\<close>

text \<open>
  One decoding unit at the head of a non-empty byte string: whether it is a well-formed
  scalar, and how many bytes it takes. An ill-formed unit takes its longest prefix that could
  have begun a well-formed one, as \<open>str::from_utf8\<close> and \<open>String::from_utf8_lossy\<close> do; a
  byte read beyond the end counts as 0, which continues nothing.
\<close>

definition utf8_cont :: "u8 \<Rightarrow> bool" where
  "utf8_cont b \<longleftrightarrow> b AND 0xC0 = 0x80"

definition byte_at :: "bytes \<Rightarrow> nat \<Rightarrow> u8" where
  "byte_at s i = (if i < length s then s ! i else 0)"

definition utf8_second3 :: "u8 \<Rightarrow> u8 \<Rightarrow> bool" where
  "utf8_second3 b0 b1 \<longleftrightarrow>
     (if b0 = 0xE0 then 0xA0 \<le> b1 \<and> b1 \<le> 0xBF
      else if b0 = 0xED then 0x80 \<le> b1 \<and> b1 \<le> 0x9F
      else 0x80 \<le> b1 \<and> b1 \<le> 0xBF)"

definition utf8_second4 :: "u8 \<Rightarrow> u8 \<Rightarrow> bool" where
  "utf8_second4 b0 b1 \<longleftrightarrow>
     (if b0 = 0xF0 then 0x90 \<le> b1 \<and> b1 \<le> 0xBF
      else if b0 = 0xF4 then 0x80 \<le> b1 \<and> b1 \<le> 0x8F
      else 0x80 \<le> b1 \<and> b1 \<le> 0xBF)"

definition utf8_unit :: "bytes \<Rightarrow> bool \<times> nat" where
  "utf8_unit s =
     (let b0 = byte_at s 0; b1 = byte_at s 1; b2 = byte_at s 2; b3 = byte_at s 3 in
      if b0 < 0x80 then (True, 1)
      else if 0xC2 \<le> b0 \<and> b0 \<le> 0xDF then (if utf8_cont b1 then (True, 2) else (False, 1))
      else if 0xE0 \<le> b0 \<and> b0 \<le> 0xEF then
        (if \<not> utf8_second3 b0 b1 then (False, 1)
         else if \<not> utf8_cont b2 then (False, 2) else (True, 3))
      else if 0xF0 \<le> b0 \<and> b0 \<le> 0xF4 then
        (if \<not> utf8_second4 b0 b1 then (False, 1)
         else if \<not> utf8_cont b2 then (False, 2)
         else if \<not> utf8_cont b3 then (False, 3) else (True, 4))
      else (False, 1))"

lemma utf8_unit_pos [simp]: "0 < snd (utf8_unit s)"
  by (auto simp: utf8_unit_def Let_def)

function utf8_valid :: "bytes \<Rightarrow> bool" where
  "utf8_valid s =
     (if s = [] then True else fst (utf8_unit s) \<and> utf8_valid (drop (snd (utf8_unit s)) s))"
  by pat_completeness auto
termination
  by (relation "measure length") (auto simp: utf8_unit_pos)

function from_utf8_lossy :: "bytes \<Rightarrow> str" where
  "from_utf8_lossy s =
     (if s = [] then []
      else (if fst (utf8_unit s) then take (snd (utf8_unit s)) s else [0xEF, 0xBF, 0xBD])
             @ from_utf8_lossy (drop (snd (utf8_unit s)) s))"
  by pat_completeness auto
termination
  by (relation "measure length") (auto simp: utf8_unit_pos)

declare utf8_valid.simps [simp del] from_utf8_lossy.simps [simp del]

text \<open>\<open>str::chars\<close>: the characters of a string, each as its UTF-8 encoding.\<close>

function chars :: "str \<Rightarrow> str list" where
  "chars s = (if s = [] then [] else take (snd (utf8_unit s)) s # chars (drop (snd (utf8_unit s)) s))"
  by pat_completeness auto
termination
  by (relation "measure length") (auto simp: utf8_unit_pos)

declare chars.simps [simp del]

text \<open>\<open>str::from_utf8\<close>: the string itself, or nothing.\<close>

definition from_utf8 :: "bytes \<Rightarrow> str option" where
  "from_utf8 s = (if utf8_valid s then Some s else None)"

subsection \<open>Whitespace\<close>

text \<open>The UTF-8 encodings of the characters with the property \<open>White_Space\<close>.\<close>

definition ws_chars :: "bytes list" where
  "ws_chars =
     [[0x09], [0x0A], [0x0B], [0x0C], [0x0D], [0x20], [0xC2, 0x85], [0xC2, 0xA0],
      [0xE1, 0x9A, 0x80],
      [0xE2, 0x80, 0x80], [0xE2, 0x80, 0x81], [0xE2, 0x80, 0x82], [0xE2, 0x80, 0x83],
      [0xE2, 0x80, 0x84], [0xE2, 0x80, 0x85], [0xE2, 0x80, 0x86], [0xE2, 0x80, 0x87],
      [0xE2, 0x80, 0x88], [0xE2, 0x80, 0x89], [0xE2, 0x80, 0x8A], [0xE2, 0x80, 0xA8],
      [0xE2, 0x80, 0xA9], [0xE2, 0x80, 0xAF], [0xE2, 0x81, 0x9F], [0xE3, 0x80, 0x80]]"

definition ws_prefix :: "bytes \<Rightarrow> nat" where
  "ws_prefix s = (case find (\<lambda>w. take (length w) s = w) ws_chars of None \<Rightarrow> 0 | Some w \<Rightarrow> length w)"

definition ws_suffix :: "bytes \<Rightarrow> nat" where
  "ws_suffix s =
     (case find (\<lambda>w. take (length w) (rev s) = rev w) ws_chars of None \<Rightarrow> 0 | Some w \<Rightarrow> length w)"

function trim_start :: "str \<Rightarrow> str" where
  "trim_start s = (if s = [] \<or> ws_prefix s = 0 then s else trim_start (drop (ws_prefix s) s))"
  by pat_completeness auto
termination
  by (relation "measure length") auto

function trim_end :: "str \<Rightarrow> str" where
  "trim_end s =
     (if s = [] \<or> ws_suffix s = 0 then s else trim_end (take (length s - ws_suffix s) s))"
  by pat_completeness auto
termination
  by (relation "measure length") auto

declare trim_start.simps [simp del] trim_end.simps [simp del]

definition trim :: "str \<Rightarrow> str" where
  "trim s = trim_end (trim_start s)"

subsection \<open>ASCII case\<close>

definition ascii_lower_byte :: "u8 \<Rightarrow> u8" where
  "ascii_lower_byte b = (if 65 \<le> b \<and> b \<le> 90 then b + 32 else b)"

definition to_ascii_lowercase :: "str \<Rightarrow> str" where
  "to_ascii_lowercase s = map ascii_lower_byte s"

definition ascii_upper_byte :: "u8 \<Rightarrow> u8" where
  "ascii_upper_byte b = (if 97 \<le> b \<and> b \<le> 122 then b - 32 else b)"

definition eq_ignore_ascii_case :: "str \<Rightarrow> str \<Rightarrow> bool" where
  "eq_ignore_ascii_case a b \<longleftrightarrow> to_ascii_lowercase a = to_ascii_lowercase b"

subsection \<open>Unsigned integers\<close>

definition digit_value :: "nat \<Rightarrow> u8 \<Rightarrow> nat option" where
  "digit_value radix b =
     (let v = (if 48 \<le> b \<and> b \<le> 57 then unat b - 48
               else if 97 \<le> b \<and> b \<le> 122 then unat b - 87
               else if 65 \<le> b \<and> b \<le> 90 then unat b - 55
               else radix)
      in if v < radix then Some v else None)"

fun parse_digits :: "nat \<Rightarrow> nat \<Rightarrow> nat \<Rightarrow> str \<Rightarrow> nat option" where
  "parse_digits radix limit acc [] = Some acc"
| "parse_digits radix limit acc (b # bs) =
     (case digit_value radix b of
        None \<Rightarrow> None
      | Some v \<Rightarrow>
          (if acc * radix + v \<le> limit then parse_digits radix limit (acc * radix + v) bs else None))"

text \<open>
  \<open>uN::from_str_radix\<close> for a type whose largest value is \<open>limit\<close>: the empty string and a bare
  sign are errors, one leading \<open>+\<close> is accepted, a \<open>-\<close> is not a digit.
\<close>

definition from_str_radix :: "nat \<Rightarrow> nat \<Rightarrow> str \<Rightarrow> nat option" where
  "from_str_radix radix limit s =
     (if s = [] \<or> s = [43] \<or> s = [45] then None
      else if hd s = 43 then parse_digits radix limit 0 (tl s)
      else parse_digits radix limit 0 s)"

definition U16_MAX :: nat where "U16_MAX = 2 ^ 16 - 1"
definition USIZE_MAX :: nat where "USIZE_MAX = 2 ^ 64 - 1"

text \<open>\<open>to_string\<close> on an unsigned integer.\<close>

function dec_string :: "nat \<Rightarrow> str" where
  "dec_string n =
     (if n < 10 then [of_nat (48 + n)] else dec_string (n div 10) @ [of_nat (48 + n mod 10)])"
  by pat_completeness auto
termination
  by (relation "measure id") auto

declare dec_string.simps [simp del]

subsection \<open>Facts about searching\<close>

text \<open>\<open>find_subsequence\<close> returns the least offset at which the needle stands.\<close>

lemma find_subsequence_SomeD:
  "find_subsequence h n = Some i \<Longrightarrow> take (length n) (drop i h) = n"
  by (induction h arbitrary: i) (fastforce split: if_splits)+

lemma find_subsequence_least:
  "find_subsequence h n = Some i \<Longrightarrow> j < i \<Longrightarrow> take (length n) (drop j h) \<noteq> n"
proof (induction h arbitrary: i j)
  case (Cons b h)
  then show ?case by (cases j) (auto split: if_splits)
qed simp

lemma find_subsequence_NoneD:
  "find_subsequence h n = None \<Longrightarrow> n \<noteq> [] \<Longrightarrow> take (length n) (drop j h) \<noteq> n"
proof (induction h arbitrary: j)
  case (Cons b h)
  then show ?case by (cases j) (auto split: if_splits dest: arg_cong [where f = length])
qed simp

lemma find_subsequence_eq_Some_iff:
  "find_subsequence h n = Some i \<longleftrightarrow>
     n \<noteq> [] \<and> take (length n) (drop i h) = n \<and> (\<forall>j<i. take (length n) (drop j h) \<noteq> n)"
proof
  assume r: "n \<noteq> [] \<and> take (length n) (drop i h) = n \<and> (\<forall>j<i. take (length n) (drop j h) \<noteq> n)"
  then have "find_subsequence h n \<noteq> None" using find_subsequence_NoneD by blast
  then obtain k where k: "find_subsequence h n = Some k" by blast
  then have "\<not> k < i" "\<not> i < k"
    using r find_subsequence_SomeD [OF k] find_subsequence_least [OF k] by blast+
  with k show "find_subsequence h n = Some i" by simp
qed (use find_subsequence_length find_subsequence_SomeD find_subsequence_least in blast)

lemma find_subsequence_append:
  assumes "find_subsequence h n = Some i"
  shows "find_subsequence (h @ more) n = Some i"
proof -
  have "take (length n) (drop j (h @ more)) = take (length n) (drop j h)" if "j \<le> i" for j
    using find_subsequence_length [OF assms] that by simp
  with assms show ?thesis unfolding find_subsequence_eq_Some_iff by (metis order.refl less_imp_le)
qed

lemma find_subsequence_split:
  assumes "find_subsequence h n = Some i"
  shows "h = take i h @ n @ drop (i + length n) h"
  using find_subsequence_SomeD [OF assms]
  by (metis append_take_drop_id drop_drop add.commute)

text \<open>A match in an extended buffer that was not there before ends in the new part.\<close>

lemma find_subsequence_new:
  assumes "find_subsequence h n = None" and "find_subsequence (h @ new) n = Some i"
  shows "length h < i + length n"
proof (rule ccontr)
  assume "\<not> length h < i + length n"
  then have "take (length n) (drop i h) = take (length n) (drop i (h @ new))" by simp
  also have "\<dots> = n" using assms(2) by (rule find_subsequence_SomeD)
  finally show False
    using assms find_subsequence_length [OF assms(2)] find_subsequence_NoneD by blast
qed

subsection \<open>Facts about UTF-8\<close>

lemma utf8_unit_length: "fst (utf8_unit s) \<Longrightarrow> s \<noteq> [] \<Longrightarrow> snd (utf8_unit s) \<le> length s"
  by (cases "length s"; cases "length s - 1"; cases "length s - 2"; cases "length s - 3")
    (auto simp: utf8_unit_def Let_def byte_at_def utf8_cont_def utf8_second3_def utf8_second4_def
      split: if_splits)

lemma from_utf8_lossy_valid: "utf8_valid s \<Longrightarrow> from_utf8_lossy s = s"
proof (induction s rule: utf8_valid.induct)
  case (1 s)
  show ?case
  proof (cases "s = []")
    case True
    then show ?thesis by (simp add: from_utf8_lossy.simps)
  next
    case False
    with "1.prems" have "fst (utf8_unit s)" "utf8_valid (drop (snd (utf8_unit s)) s)"
      by (simp_all add: utf8_valid.simps [of s])
    with "1.IH" False show ?thesis by (simp add: from_utf8_lossy.simps [of s])
  qed
qed

lemma utf8_unit_ascii: "b < 0x80 \<Longrightarrow> utf8_unit (b # s) = (True, 1)"
  by (simp add: utf8_unit_def byte_at_def Let_def)

lemma utf8_valid_ascii: "(\<forall>b\<in>set s. b < 0x80) \<Longrightarrow> utf8_valid s"
  by (induction s) (auto simp: utf8_valid.simps utf8_unit_ascii)

lemma from_utf8_lossy_ascii: "(\<forall>b\<in>set s. b < 0x80) \<Longrightarrow> from_utf8_lossy s = s"
  by (rule from_utf8_lossy_valid) (rule utf8_valid_ascii)

lemma chars_Nil [simp]: "chars [] = []"
  by (simp add: chars.simps)

lemma chars_ascii: "(\<forall>b\<in>set s. b < 0x80) \<Longrightarrow> chars s = map (\<lambda>b. [b]) s"
  by (induction s) (simp_all add: chars.simps utf8_unit_ascii)

subsection \<open>Facts about integers\<close>

lemma parse_digits_append:
  "parse_digits radix limit acc (xs @ ys) =
     Option.bind (parse_digits radix limit acc xs) (\<lambda>v. parse_digits radix limit v ys)"
  by (induction xs arbitrary: acc) (auto split: option.splits)

lemma digit_value_decimal: "d < 10 \<Longrightarrow> digit_value 10 (of_nat (48 + d)) = Some d"
proof -
  assume "d < 10"
  then have u: "unat (of_nat (48 + d) :: u8) = 48 + d" by (simp add: unat_of_nat del: of_nat_add)
  with \<open>d < 10\<close> show ?thesis
    by (simp add: digit_value_def word_le_nat_alt Let_def del: of_nat_add)
qed

lemma parse_dec_string: "n \<le> limit \<Longrightarrow> parse_digits 10 limit 0 (dec_string n) = Some n"
proof (induction n rule: dec_string.induct)
  case (1 n)
  show ?case
  proof (cases "n < 10")
    case True
    with "1.prems" show ?thesis
      by (simp add: dec_string.simps [of n] digit_value_decimal del: of_nat_add)
  next
    case False
    have "n div 10 \<le> limit" using "1.prems" by linarith
    with "1.IH" False have "parse_digits 10 limit 0 (dec_string (n div 10)) = Some (n div 10)" by blast
    with False "1.prems" show ?thesis
      by (simp add: dec_string.simps [of n] digit_value_decimal parse_digits_append del: of_nat_add)
  qed
qed

lemma dec_string_digits: "b \<in> set (dec_string n) \<Longrightarrow> 48 \<le> b \<and> b \<le> 57"
proof (induction n rule: dec_string.induct)
  case (1 n)
  have "48 \<le> (of_nat (48 + d) :: u8) \<and> (of_nat (48 + d) :: u8) \<le> 57" if "d < 10" for d
    using that by (simp add: word_le_nat_alt unat_of_nat del: of_nat_add)
  from this [of n] this [of "n mod 10"] "1" show ?case
    by (auto simp: dec_string.simps [of n] simp del: of_nat_add split: if_splits)
qed

lemma dec_string_not_Nil [simp]: "dec_string n \<noteq> []"
  by (simp add: dec_string.simps [of n])

text \<open>Printing a number and parsing it back gives the number.\<close>

lemma from_str_radix_dec_string:
  assumes "n \<le> limit"
  shows "from_str_radix 10 limit (dec_string n) = Some n"
proof -
  have "hd (dec_string n) \<in> set (dec_string n)" by simp
  then have "48 \<le> hd (dec_string n)" using dec_string_digits by blast
  then have "hd (dec_string n) \<noteq> 43" "dec_string n \<noteq> [43]" "dec_string n \<noteq> [45]" by auto
  with parse_dec_string [OF assms] show ?thesis by (simp add: from_str_radix_def)
qed

text \<open>Evaluation of the string functions on literals.\<close>

lemmas std_eval =
  from_utf8_lossy_ascii str_split.simps from_str_radix_def digit_value_def trim_def
  trim_start.simps trim_end.simps ws_chars_def ws_prefix_def ws_suffix_def U16_MAX_def USIZE_MAX_def

end
