(* ===== verification/Spl_Decoder.thy ===== *)
theory Spl_Decoder
  imports Spl_Prelude
begin

text \<open>
  The interface of an incremental decoder: bytes are fed into a buffer in whatever pieces the
  transport delivers, and complete items are pulled out until none is left. Two components of
  \<open>spl-core\<close> have this shape, the frame decoder (\<open>frame.rs\<close>, \<open>FrameDecoder\<close>) and the
  chunked-body decoder (\<open>http.rs\<close>, \<open>ChunkedDecoder\<close>). What a client relies on is that the
  result does not depend on where the reads happened to fall; it is proved here once, from
  the laws of a single pull.
\<close>

text \<open>
  A connection's input: feed each read in turn, draining after each, until the input ends or
  a read fails.
\<close>

fun read_all ::
  "('s \<Rightarrow> 'b list \<Rightarrow> 's) \<Rightarrow> ('s \<Rightarrow> ('e + 'o list) \<times> 's) \<Rightarrow> 's \<Rightarrow> 'b list list \<Rightarrow> ('e + 'o list) \<times> 's"
where
  "read_all feed drain s [] = (Inr [], s)"
| "read_all feed drain s (r # rs) =
     (case drain (feed s r) of
        (Inl e, s') \<Rightarrow> (Inl e, s')
      | (Inr xs, s') \<Rightarrow>
          (case read_all feed drain s' rs of
             (Inl e, s'') \<Rightarrow> (Inl e, s'')
           | (Inr ys, s'') \<Rightarrow> (Inr (xs @ ys), s'')))"

locale incremental_decoder =
  fixes pull :: "'s \<Rightarrow> ('e + 'o option) \<times> 's"
    and feed :: "'s \<Rightarrow> 'b list \<Rightarrow> 's"
    and drain :: "'s \<Rightarrow> ('e + 'o list) \<times> 's"
    and room :: "'s \<Rightarrow> nat"
  assumes pull_decreases: "pull s = (Inr (Some x), s') \<Longrightarrow> room s' < room s"
    and pull_stable: "pull s = (Inr (Some x), s') \<Longrightarrow> pull (feed s bs) = (Inr (Some x), feed s' bs)"
    and pull_err_stable: "pull s = (Inl e, s') \<Longrightarrow> pull (feed s bs) = (Inl e, feed s' bs)"
    and pull_none: "pull s = (Inr None, s') \<Longrightarrow> s' = s"
    and feed_feed: "feed (feed s xs) ys = feed s (xs @ ys)"
    and feed_Nil: "feed s [] = s"
    and drain_unfold: "drain s =
      (case pull s of
         (Inl e, s') \<Rightarrow> (Inl e, s')
       | (Inr None, s') \<Rightarrow> (Inr [], s')
       | (Inr (Some x), s') \<Rightarrow>
           (case drain s' of
              (Inl e, s'') \<Rightarrow> (Inl e, s'')
            | (Inr xs, s'') \<Rightarrow> (Inr (x # xs), s'')))"
begin

text \<open>Induction over the items that a state holds.\<close>

lemma pull_cases:
  obtains (error) e s' where "pull s = (Inl e, s')"
    | (stuck) "pull s = (Inr None, s)"
    | (item) x s' where "pull s = (Inr (Some x), s')"
proof (cases "pull s")
  case (Pair r s')
  then show thesis
  proof (cases r)
    case (Inl e)
    with Pair error show thesis by blast
  next
    case (Inr m)
    with Pair stuck item pull_none show thesis by (cases m) auto
  qed
qed

lemma drain_error: "pull s = (Inl e, s') \<Longrightarrow> drain s = (Inl e, s')"
  by (simp add: drain_unfold [of s])

lemma drain_stuck: "pull s = (Inr None, s) \<Longrightarrow> drain s = (Inr [], s)"
  by (simp add: drain_unfold [of s])

lemma drain_item:
  "pull s = (Inr (Some x), s') \<Longrightarrow>
     drain s = (case drain s' of (Inl e, s'') \<Rightarrow> (Inl e, s'') | (Inr xs, s'') \<Rightarrow> (Inr (x # xs), s''))"
  by (simp add: drain_unfold [of s])

text \<open>After a successful drain nothing more can be pulled.\<close>

lemma drain_exhausts: "drain s = (Inr xs, s') \<Longrightarrow> pull s' = (Inr None, s')"
proof (induction "room s" arbitrary: s xs rule: less_induct)
  case less
  show ?case
  proof (cases s rule: pull_cases)
    case (item x t)
    with less.prems obtain ys where "drain t = (Inr ys, s')"
      by (auto simp: drain_item split: prod.splits sum.splits)
    with item show ?thesis by (auto intro: less.hyps pull_decreases)
  qed (use less.prems in \<open>auto simp: drain_error drain_stuck\<close>)
qed

text \<open>Draining early and feeding the rest later gives what draining everything at once gives.\<close>

lemma drain_feed:
  "drain s = (Inr xs, s1) \<Longrightarrow>
     drain (feed s bs) =
       (case drain (feed s1 bs) of
          (Inl e, s2) \<Rightarrow> (Inl e, s2)
        | (Inr ys, s2) \<Rightarrow> (Inr (xs @ ys), s2))"
proof (induction "room s" arbitrary: s xs rule: less_induct)
  case less
  show ?case
  proof (cases s rule: pull_cases)
    case (item x t)
    with less.prems obtain ys where ys: "drain t = (Inr ys, s1)" "xs = x # ys"
      by (auto simp: drain_item split: prod.splits sum.splits)
    have "room t < room s" using item by (rule pull_decreases)
    from less.hyps [OF this ys(1)] pull_stable [OF item] ys(2) show ?thesis
      by (auto simp: drain_item split: prod.splits sum.splits)
  qed (use less.prems in \<open>auto simp: drain_error drain_stuck split: prod.splits sum.splits\<close>)
qed

lemma drain_error_feed: "drain s = (Inl e, s1) \<Longrightarrow> drain (feed s bs) = (Inl e, feed s1 bs)"
proof (induction "room s" arbitrary: s rule: less_induct)
  case less
  show ?case
  proof (cases s rule: pull_cases)
    case (error e' t)
    with less.prems have "e' = e" and "t = s1" by (auto simp: drain_error)
    with error show ?thesis by (auto intro: drain_error pull_err_stable)
  next
    case stuck
    with less.prems show ?thesis by (simp add: drain_stuck)
  next
    case (item x t)
    with less.prems have "drain t = (Inl e, s1)"
      by (auto simp: drain_item split: prod.splits sum.splits)
    with item show ?thesis
      using less.hyps [of t] pull_decreases [OF item] drain_item [OF pull_stable [OF item]]
      by simp
  qed
qed

text \<open>
  The reads' boundaries are irrelevant: reading piece by piece succeeds exactly when reading
  everything at once does, with the same items and the same decoder, and fails with the same
  error otherwise.
\<close>

lemma read_all_concat:
  assumes "drain s = (Inr [], s)"
  shows "(\<forall>xs s'. read_all feed drain s rs = (Inr xs, s') \<longleftrightarrow> drain (feed s (concat rs)) = (Inr xs, s'))
       \<and> (\<forall>e. fst (read_all feed drain s rs) = Inl e \<longleftrightarrow> fst (drain (feed s (concat rs))) = Inl e)"
  using assms
proof (induction rs arbitrary: s)
  case Nil
  then show ?case by (auto simp: feed_Nil)
next
  case (Cons r rs)
  obtain x t where rt: "drain (feed s r) = (x, t)" by fastforce
  have cat: "feed s (concat (r # rs)) = feed (feed s r) (concat rs)"
    by (simp add: feed_feed)
  show ?case
  proof (cases x)
    case (Inl e)
    with rt have "drain (feed s (concat (r # rs))) = (Inl e, feed t (concat rs))"
      unfolding cat by (simp add: drain_error_feed)
    with Inl rt show ?thesis by auto
  next
    case (Inr xs)
    with rt have t: "drain (feed s r) = (Inr xs, t)" by simp
    then have "drain t = (Inr [], t)" by (intro drain_stuck drain_exhausts)
    from Cons.IH [OF this] t drain_feed [OF t, of "concat rs"] show ?thesis
      unfolding cat by (auto split: prod.splits sum.splits)
  qed
qed

lemma read_all_ok:
  assumes "drain s = (Inr [], s)"
  shows "read_all feed drain s rs = (Inr xs, s') \<longleftrightarrow> drain (feed s (concat rs)) = (Inr xs, s')"
  using read_all_concat [OF assms] by blast

lemma read_all_error:
  assumes "drain s = (Inr [], s)"
  shows "fst (read_all feed drain s rs) = Inl e \<longleftrightarrow> fst (drain (feed s (concat rs))) = Inl e"
  using read_all_concat [OF assms] by blast

end

end
