(* ===== verification/Spl_Frame.thy ===== *)
theory Spl_Frame
  imports Spl_Decoder
begin

text \<open>
  The mux frame codec, \<open>crates/spl-core/src/frame.rs\<close>: frames, their encoding, the
  streaming decoder and the dialer's stream-identifier allocator.
\<close>

subsection \<open>Constants\<close>

definition FLAG_OPEN :: u8 where "FLAG_OPEN = 0x01"
definition FLAG_DATA :: u8 where "FLAG_DATA = 0x02"
definition FLAG_CLOSE :: u8 where "FLAG_CLOSE = 0x04"
definition FLAG_RESET :: u8 where "FLAG_RESET = 0x08"
definition FLAG_WINDOW :: u8 where "FLAG_WINDOW = 0x10"
definition FLAG_PING :: u8 where "FLAG_PING = 0x20"
definition FLAG_PONG :: u8 where "FLAG_PONG = 0x40"
definition FLAG_RESERVED_MASK :: u8 where "FLAG_RESERVED_MASK = 0x80"

lemmas flag_defs = FLAG_OPEN_def FLAG_DATA_def FLAG_CLOSE_def FLAG_RESET_def FLAG_WINDOW_def
  FLAG_PING_def FLAG_PONG_def FLAG_RESERVED_MASK_def

definition RESET_PROTOCOL_ERROR :: u8 where "RESET_PROTOCOL_ERROR = 0x01"
definition RESET_FLOW_CONTROL_ERROR :: u8 where "RESET_FLOW_CONTROL_ERROR = 0x02"
definition RESET_STREAM_LIMIT_EXCEEDED :: u8 where "RESET_STREAM_LIMIT_EXCEEDED = 0x03"
definition RESET_INTERNAL_ERROR :: u8 where "RESET_INTERNAL_ERROR = 0x04"
definition RESET_CANCEL :: u8 where "RESET_CANCEL = 0x05"
definition RESET_UNSPECIFIED :: u8 where "RESET_UNSPECIFIED = 0xff"

lemmas reset_code_defs = RESET_PROTOCOL_ERROR_def RESET_FLOW_CONTROL_ERROR_def
  RESET_STREAM_LIMIT_EXCEEDED_def RESET_INTERNAL_ERROR_def RESET_CANCEL_def RESET_UNSPECIFIED_def

definition HEADER_LEN :: nat where "HEADER_LEN = 8"
definition MAX_PAYLOAD :: nat where "MAX_PAYLOAD = 2 ^ 24 - 1"
definition RECOMMENDED_CHUNK :: nat where "RECOMMENDED_CHUNK = 64 * 1024"
definition CONTROL_NONCE_LEN :: nat where "CONTROL_NONCE_LEN = 8"

definition flags_valid :: "u8 \<Rightarrow> bool" where
  "flags_valid fl \<longleftrightarrow> fl \<in> set [0x01, 0x02, 0x03, 0x04, 0x05, 0x06, 0x07, 0x08, 0x10, 0x20, 0x40]"

subsection \<open>Frames\<close>

record frame_violation =
  fv_stream_id :: u32
  fv_flags :: u8
  fv_length :: nat

record frame =
  stream_id :: u32
  flags :: u8
  payload :: bytes

datatype frame_error = PayloadTooLarge nat | ReservedFlag u8

definition frame_new :: "u32 \<Rightarrow> u8 \<Rightarrow> bytes \<Rightarrow> frame" where
  "frame_new sid fl p = \<lparr>stream_id = sid, flags = fl, payload = p\<rparr>"

lemma frame_new_simps [simp]:
  "stream_id (frame_new sid fl p) = sid"
  "flags (frame_new sid fl p) = fl"
  "payload (frame_new sid fl p) = p"
  by (simp_all add: frame_new_def)

lemma frame_new_eq_iff [simp]:
  "frame_new a b c = frame_new a' b' c' \<longleftrightarrow> a = a' \<and> b = b' \<and> c = c'"
  by (simp add: frame_new_def)

lemma frame_eta [simp]: "frame_new (stream_id f) (flags f) (payload f) = f"
  by (simp add: frame_new_def)

definition encode :: "frame \<Rightarrow> frame_error + bytes" where
  "encode f =
     (if length (payload f) > MAX_PAYLOAD then Inl (PayloadTooLarge (length (payload f)))
      else if flags f AND FLAG_RESERVED_MASK \<noteq> 0 then Inl (ReservedFlag (flags f))
      else
        (let len = (of_nat (length (payload f)) :: u32) in
         Inr (u32_to_be_bytes (stream_id f) @ [flags f] @ u24_to_bytes len @ payload f)))"

definition control_ping :: "bytes \<Rightarrow> frame" where
  "control_ping nonce = frame_new 0 FLAG_PING nonce"

definition window_frame :: "u32 \<Rightarrow> u32 \<Rightarrow> frame" where
  "window_frame sid credit = frame_new sid FLAG_WINDOW (u32_to_be_bytes credit)"

definition reset_frame :: "u32 \<Rightarrow> u8 \<Rightarrow> frame" where
  "reset_frame sid reason = frame_new sid FLAG_RESET [reason]"

definition control_pong :: "frame \<Rightarrow> frame option" where
  "control_pong f =
     (if stream_id f = 0 \<and> flags f = FLAG_PING \<and> length (payload f) = CONTROL_NONCE_LEN
      then Some (frame_new 0 FLAG_PONG (payload f)) else None)"

definition control_pong_nonce :: "frame \<Rightarrow> bytes option" where
  "control_pong_nonce f =
     (if stream_id f = 0 \<and> flags f = FLAG_PONG \<and> length (payload f) = CONTROL_NONCE_LEN
      then Some (payload f) else None)"

definition window_credit :: "frame \<Rightarrow> u32 option" where
  "window_credit f =
     (if flags f AND FLAG_WINDOW \<noteq> 0 \<and> length (payload f) = 4
      then Some (u32_from_be_bytes (payload f ! 0) (payload f ! 1) (payload f ! 2) (payload f ! 3))
      else None)"

subsection \<open>The streaming decoder\<close>

record frame_decoder =
  buf :: bytes

definition decoder_new :: frame_decoder where
  "decoder_new = \<lparr>buf = []\<rparr>"

definition decoder_feed :: "frame_decoder \<Rightarrow> bytes \<Rightarrow> frame_decoder" where
  "decoder_feed d data = d\<lparr>buf := buf d @ data\<rparr>"

definition next_frame :: "frame_decoder \<Rightarrow> (frame_error + frame option) \<times> frame_decoder" where
  "next_frame d =
     (if length (buf d) < HEADER_LEN then (Inr None, d)
      else
        let sid = u32_from_be_bytes (buf d ! 0) (buf d ! 1) (buf d ! 2) (buf d ! 3);
            fl = buf d ! 4
        in if fl AND FLAG_RESERVED_MASK \<noteq> 0 then (Inl (ReservedFlag fl), d)
           else
             let len = u24_value (buf d ! 5) (buf d ! 6) (buf d ! 7);
                 end' = HEADER_LEN + len
             in if length (buf d) < end' then (Inr None, d)
                else (Inr (Some (frame_new sid fl (take len (drop HEADER_LEN (buf d))))),
                      d\<lparr>buf := drop end' (buf d)\<rparr>))"

lemma next_frame_decreases:
  "next_frame d = (Inr (Some f), d') \<Longrightarrow> length (buf d') < length (buf d)"
  by (auto simp: next_frame_def Let_def HEADER_LEN_def split: if_splits)

function drain :: "frame_decoder \<Rightarrow> (frame_error + frame list) \<times> frame_decoder" where
  "drain d =
     (case next_frame d of
        (Inl e, d') \<Rightarrow> (Inl e, d')
      | (Inr None, d') \<Rightarrow> (Inr [], d')
      | (Inr (Some f), d') \<Rightarrow>
          (case drain d' of
             (Inl e, d'') \<Rightarrow> (Inl e, d'')
           | (Inr fs, d'') \<Rightarrow> (Inr (f # fs), d'')))"
  by pat_completeness auto
termination
  by (relation "measure (\<lambda>d. length (buf d))") (auto dest!: next_frame_decreases [OF sym])

declare drain.simps [simp del]

subsection \<open>The dialer's stream identifiers\<close>

record frame_dialer =
  next_id :: u32

definition dialer_default :: frame_dialer where
  "dialer_default = \<lparr>next_id = 1\<rparr>"

definition allocate :: "frame_dialer \<Rightarrow> u32 \<times> frame_dialer" where
  "allocate d = (next_id d, d\<lparr>next_id := next_id d + 2\<rparr>)"

subsection \<open>Encoding and decoding\<close>

lemma encode_Inr_iff:
  "encode f = Inr bs \<longleftrightarrow>
     length (payload f) \<le> MAX_PAYLOAD \<and> flags f AND FLAG_RESERVED_MASK = 0 \<and>
     bs = u32_to_be_bytes (stream_id f) @ [flags f]
            @ u24_to_bytes (of_nat (length (payload f))) @ payload f"
  by (auto simp: encode_def Let_def)

text \<open>The wire form of a frame within the limits, which is what \<open>encode\<close> returns for it.\<close>

definition encodable :: "frame \<Rightarrow> bool" where
  "encodable f \<longleftrightarrow> length (payload f) \<le> MAX_PAYLOAD \<and> flags f AND FLAG_RESERVED_MASK = 0"

definition wire :: "frame \<Rightarrow> bytes" where
  "wire f = u32_to_be_bytes (stream_id f) @ [flags f]
     @ u24_to_bytes (of_nat (length (payload f))) @ payload f"

lemma encode_wire: "encodable f \<Longrightarrow> encode f = Inr (wire f)"
  by (simp add: encode_Inr_iff encodable_def wire_def)

lemma encodable_frame_new [simp]:
  "encodable (frame_new sid fl p) \<longleftrightarrow> length p \<le> MAX_PAYLOAD \<and> fl AND FLAG_RESERVED_MASK = 0"
  by (simp add: encodable_def)

lemma flags_not_reserved [simp]:
  "FLAG_OPEN AND FLAG_RESERVED_MASK = 0" "FLAG_DATA AND FLAG_RESERVED_MASK = 0"
  "FLAG_CLOSE AND FLAG_RESERVED_MASK = 0" "FLAG_RESET AND FLAG_RESERVED_MASK = 0"
  "FLAG_WINDOW AND FLAG_RESERVED_MASK = 0" "FLAG_PING AND FLAG_RESERVED_MASK = 0"
  "FLAG_PONG AND FLAG_RESERVED_MASK = 0" "(FLAG_OPEN OR FLAG_DATA) AND FLAG_RESERVED_MASK = 0"
  by (simp_all add: flag_defs)

lemma encode_control [simp]:
  "encode (window_frame sid k) = Inr (wire (window_frame sid k))"
  "encode (reset_frame sid r) = Inr (wire (reset_frame sid r))"
  "encode (frame_new sid FLAG_CLOSE []) = Inr (wire (frame_new sid FLAG_CLOSE []))"
  by (rule encode_wire; simp add: window_frame_def reset_frame_def MAX_PAYLOAD_def)+

lemma encode_pong [simp]: "control_pong f = Some g \<Longrightarrow> encode g = Inr (wire g)"
  by (rule encode_wire)
    (auto simp: control_pong_def MAX_PAYLOAD_def CONTROL_NONCE_LEN_def split: if_splits)

lemma length_encode: "encode f = Inr bs \<Longrightarrow> length bs = HEADER_LEN + length (payload f)"
  by (simp add: encode_Inr_iff HEADER_LEN_def)

text \<open>A complete header, taken apart: what \<open>next_frame\<close> does on it.\<close>

lemma next_frame_short: "length (buf d) < HEADER_LEN \<Longrightarrow> next_frame d = (Inr None, d)"
  by (simp add: next_frame_def)

lemma next_frame_header:
  "next_frame \<lparr>buf = a # b # c # e # fl # x # y # z # rest\<rparr> =
     (if fl AND FLAG_RESERVED_MASK \<noteq> 0
      then (Inl (ReservedFlag fl), \<lparr>buf = a # b # c # e # fl # x # y # z # rest\<rparr>)
      else if length rest < u24_value x y z
      then (Inr None, \<lparr>buf = a # b # c # e # fl # x # y # z # rest\<rparr>)
      else (Inr (Some (frame_new (u32_from_be_bytes a b c e) fl (take (u24_value x y z) rest))),
            \<lparr>buf = drop (u24_value x y z) rest\<rparr>))"
  by (simp add: next_frame_def Let_def HEADER_LEN_def numeral_eq_Suc)

lemma decoder_cases:
  obtains (short) "length (buf d) < HEADER_LEN"
    | (header) a b c e fl x y z rest where "d = \<lparr>buf = a # b # c # e # fl # x # y # z # rest\<rparr>"
proof (cases "length (buf d) < HEADER_LEN")
  case False
  then have "8 \<le> length (buf d)" by (simp add: HEADER_LEN_def)
  then obtain a b c e fl x y z rest where "buf d = a # b # c # e # fl # x # y # z # rest"
    by (rule length_8_cases)
  then show thesis by (intro header) (cases d, simp)
qed (rule short)

lemma next_frame_encode:
  assumes "encode f = Inr bs"
  shows "next_frame \<lparr>buf = bs @ rest\<rparr> = (Inr (Some f), \<lparr>buf = rest\<rparr>)"
proof -
  let ?n = "length (payload f)"
  have n: "?n < 2 ^ 24" using assms by (simp add: encode_Inr_iff MAX_PAYLOAD_def)
  from assms have "bs @ rest = u32_to_be_bytes (stream_id f) @ flags f
      # u24_to_bytes (of_nat ?n) @ payload f @ rest"
    by (simp add: encode_Inr_iff)
  with n assms show ?thesis
    by (simp add: u32_to_be_bytes_def u24_to_bytes_def next_frame_header encode_Inr_iff)
qed

text \<open>Conversely, a decoded frame is one that \<open>encode\<close> turns back into the bytes consumed.\<close>

lemma encode_next_frame:
  assumes "next_frame d = (Inr (Some f), d')"
  obtains bs where "encode f = Inr bs" and "buf d = bs @ buf d'"
proof (cases d rule: decoder_cases)
  case short
  with assms show thesis by (simp add: next_frame_short)
next
  case (header a b c e fl x y z rest)
  let ?n = "u24_value x y z"
  from assms header have "fl AND FLAG_RESERVED_MASK = 0" "?n \<le> length rest"
    and f: "f = frame_new (u32_from_be_bytes a b c e) fl (take ?n rest)" "buf d' = drop ?n rest"
    by (auto simp: next_frame_header split: if_splits)
  moreover have "u24_to_bytes (of_nat ?n) = [x, y, z]"
    by (auto intro!: bit_word_eqI simp: u24_to_bytes_def u24_value_def bit_simps)
  ultimately have "encode f = Inr (a # b # c # e # fl # x # y # z # take ?n rest)"
    using u24_value_less [of x y z]
    by (simp add: encode_Inr_iff MAX_PAYLOAD_def)
  then show thesis by (rule that) (simp add: header f)
qed

subsection \<open>The decoder as an incremental decoder\<close>

lemma next_frame_feed:
  "next_frame d = (Inr (Some f), d') \<Longrightarrow>
     next_frame (decoder_feed d bs) = (Inr (Some f), decoder_feed d' bs)"
  by (cases d rule: decoder_cases)
    (auto simp: decoder_feed_def next_frame_short next_frame_header split: if_splits)

lemma next_frame_error_feed:
  "next_frame d = (Inl e, d') \<Longrightarrow>
     next_frame (decoder_feed d bs) = (Inl e, decoder_feed d' bs)"
  by (cases d rule: decoder_cases)
    (auto simp: decoder_feed_def next_frame_short next_frame_header split: if_splits)

lemma next_frame_none: "next_frame d = (Inr None, d') \<Longrightarrow> d' = d"
  by (cases d rule: decoder_cases) (auto simp: next_frame_short next_frame_header split: if_splits)

lemma next_frame_error: "next_frame d = (Inl e, d') \<Longrightarrow> d' = d"
  by (cases d rule: decoder_cases) (auto simp: next_frame_short next_frame_header split: if_splits)

lemma decoder_feed_feed [simp]: "decoder_feed (decoder_feed d xs) ys = decoder_feed d (xs @ ys)"
  by (simp add: decoder_feed_def)

lemma decoder_feed_Nil [simp]: "decoder_feed d [] = d"
  by (simp add: decoder_feed_def)

interpretation fd: incremental_decoder next_frame decoder_feed drain "\<lambda>d. length (buf d)"
proof unfold_locales
  fix s :: frame_decoder
  show "drain s =
      (case next_frame s of
         (Inl e, s') \<Rightarrow> (Inl e, s')
       | (Inr None, s') \<Rightarrow> (Inr [], s')
       | (Inr (Some x), s') \<Rightarrow>
           (case drain s' of
              (Inl e, s'') \<Rightarrow> (Inl e, s'')
            | (Inr xs, s'') \<Rightarrow> (Inr (x # xs), s'')))"
    by (rule drain.simps)
qed (auto simp: next_frame_decreases next_frame_feed next_frame_error_feed dest: next_frame_none)

lemma drain_new [simp]: "drain decoder_new = (Inr [], decoder_new)"
  by (rule fd.drain_stuck) (simp add: decoder_new_def next_frame_def HEADER_LEN_def)

lemma drain_encode:
  assumes "encode f = Inr bs"
  shows "drain \<lparr>buf = bs @ rest\<rparr> =
           (case drain \<lparr>buf = rest\<rparr> of
              (Inl e, d) \<Rightarrow> (Inl e, d)
            | (Inr fs, d) \<Rightarrow> (Inr (f # fs), d))"
  using fd.drain_item [OF next_frame_encode [OF assms]] by simp

lemma drain_encode_all:
  assumes "list_all2 (\<lambda>f bs. encode f = Inr bs) fs bss"
  shows "drain \<lparr>buf = concat bss @ rest\<rparr> =
           (case drain \<lparr>buf = rest\<rparr> of
              (Inl e, d) \<Rightarrow> (Inl e, d)
            | (Inr gs, d) \<Rightarrow> (Inr (fs @ gs), d))"
  using assms
  by (induction rule: list_all2_induct) (auto simp: drain_encode split: prod.splits sum.splits)

lemma drain_sound:
  "drain d = (Inr fs, d') \<Longrightarrow>
     \<exists>bss. list_all2 (\<lambda>f bs. encode f = Inr bs) fs bss \<and> buf d = concat bss @ buf d'"
proof (induction "length (buf d)" arbitrary: d fs rule: less_induct)
  case less
  show ?case
  proof (cases d rule: fd.pull_cases)
    case (item f t)
    with less.prems obtain gs where gs: "drain t = (Inr gs, d')" "fs = f # gs"
      by (auto simp: fd.drain_item split: prod.splits sum.splits)
    from less.hyps [OF next_frame_decreases [OF item] gs(1)] obtain bss
      where bss: "list_all2 (\<lambda>f bs. encode f = Inr bs) gs bss" "buf t = concat bss @ buf d'"
      by blast
    from item obtain bs where "encode f = Inr bs" "buf d = bs @ buf t"
      by (rule encode_next_frame)
    with bss gs(2) show ?thesis by (intro exI [of _ "bs # bss"]) simp
  qed (use less.prems in \<open>auto simp: fd.drain_error fd.drain_stuck\<close>)
qed

lemma read_encoded:
  assumes "list_all2 (\<lambda>f bs. encode f = Inr bs) fs bss" and "concat rs = concat bss"
  shows "read_all decoder_feed drain decoder_new rs = (Inr fs, decoder_new)"
proof -
  have "drain (decoder_feed decoder_new (concat rs)) = (Inr fs, decoder_new)"
    using drain_encode_all [OF assms(1), of "[]"] drain_new
    by (simp add: assms(2) decoder_feed_def decoder_new_def)
  then show ?thesis by (simp add: fd.read_all_ok)
qed

subsection \<open>Properties of the codec\<close>

text \<open>
  C9. Frames encoded on one side and read on the other, in reads of any size that need not
  respect frame boundaries, come out as exactly the frames that were sent, in order, and
  leave nothing behind in the decoder.
\<close>

theorem frames_round_trip:
  assumes "list_all2 (\<lambda>f bs. encode f = Inr bs) fs bss" and "concat rs = concat bss"
  shows "read_all decoder_feed drain decoder_new rs = (Inr fs, decoder_new)"
  using assms by (rule read_encoded)

theorem frames_round_trip_witness:
  "read_all decoder_feed drain decoder_new [[0, 0, 0, 7, 3, 0, 0], [2, 104], [105, 0, 0, 0, 7, 4, 0, 0, 0]]
     = (Inr [frame_new 7 (FLAG_OPEN OR FLAG_DATA) [104, 105], frame_new 7 FLAG_CLOSE []], decoder_new)"
proof (rule frames_round_trip)
  show "list_all2 (\<lambda>f bs. encode f = Inr bs)
     [frame_new 7 (FLAG_OPEN OR FLAG_DATA) [104, 105], frame_new 7 FLAG_CLOSE []]
     [[0, 0, 0, 7, 3, 0, 0, 2, 104, 105], [0, 0, 0, 7, 4, 0, 0, 0]]"
    by (simp add: encode_def Let_def flag_defs MAX_PAYLOAD_def u32_to_be_bytes_def u24_to_bytes_def)
qed simp

text \<open>
  Decoding loses nothing and invents nothing: whatever bytes a decoder was given, if it
  drains without error then those bytes are the encodings of the frames it returned, in
  order, followed by what it still buffers. In particular every decoded frame can be encoded.
\<close>

theorem drain_decodes_encodings:
  assumes "drain (decoder_feed decoder_new data) = (Inr fs, d')"
  shows "\<exists>bss. list_all2 (\<lambda>f bs. encode f = Inr bs) fs bss \<and> data = concat bss @ buf d'
           \<and> next_frame d' = (Inr None, d')"
  using drain_sound [OF assms] fd.drain_exhausts [OF assms]
  by (simp add: decoder_feed_def decoder_new_def)

theorem drain_decodes_encodings_witness:
  "\<exists>bss. list_all2 (\<lambda>f bs. encode f = Inr bs) [frame_new 0 FLAG_PING [9]] bss
      \<and> [0, 0, 0, 0, 32, 0, 0, 1, 9, 5, 5] = concat bss @ buf \<lparr>buf = [5, 5]\<rparr>
      \<and> next_frame \<lparr>buf = [5, 5]\<rparr> = (Inr None, \<lparr>buf = [5, 5]\<rparr>)"
proof (rule drain_decodes_encodings)
  have "next_frame \<lparr>buf = [0, 0, 0, 0, 32, 0, 0, 1, 9, 5, 5]\<rparr>
      = (Inr (Some (frame_new 0 FLAG_PING [9])), \<lparr>buf = [5, 5]\<rparr>)"
    by (simp add: next_frame_header u24_value_def flag_defs u32_from_be_bytes_def)
  moreover have "next_frame \<lparr>buf = [5, 5]\<rparr> = (Inr None, \<lparr>buf = [5, 5]\<rparr>)"
    by (simp add: next_frame_short HEADER_LEN_def)
  ultimately show "drain (decoder_feed decoder_new [0, 0, 0, 0, 32, 0, 0, 1, 9, 5, 5])
      = (Inr [frame_new 0 FLAG_PING [9]], \<lparr>buf = [5, 5]\<rparr>)"
    by (simp add: decoder_feed_def decoder_new_def fd.drain_item fd.drain_stuck)
qed

text \<open>
  C27. A header with the reserved flag bit fails the drain, and with it the complete frames
  that stand before it in the same read: they are consumed and never returned. The decoder
  keeps the bad header, so every later drain fails the same way, whatever is fed to it.
\<close>

theorem drain_reserved_flag:
  assumes "list_all2 (\<lambda>f bs. encode f = Inr bs) fs bss"
    and "fl AND FLAG_RESERVED_MASK \<noteq> 0"
    and "bad = a # b # c # e # fl # x # y # z # rest"
  shows "drain \<lparr>buf = concat bss @ bad @ later\<rparr> = (Inl (ReservedFlag fl), \<lparr>buf = bad @ later\<rparr>)"
proof -
  have "drain \<lparr>buf = bad @ later\<rparr> = (Inl (ReservedFlag fl), \<lparr>buf = bad @ later\<rparr>)"
    using assms(2) by (intro fd.drain_error) (simp add: next_frame_header assms(3))
  then show ?thesis using drain_encode_all [OF assms(1), of "bad @ later"] by simp
qed

theorem drain_reserved_flag_witness:
  "drain \<lparr>buf = concat [[0, 0, 0, 1, 4, 0, 0, 0]] @ [0, 0, 0, 1, 0x80, 0, 0, 0] @ [7]\<rparr>
     = (Inl (ReservedFlag 0x80), \<lparr>buf = [0, 0, 0, 1, 0x80, 0, 0, 0] @ [7]\<rparr>)"
  by (rule drain_reserved_flag [where fs = "[frame_new 1 FLAG_CLOSE []]" and rest = "[]"])
    (simp_all add: encode_def Let_def flag_defs MAX_PAYLOAD_def u32_to_be_bytes_def u24_to_bytes_def)

subsection \<open>Stream identifiers\<close>

lemma mod_double_plus_one:
  assumes "0 < (m :: nat)"
  shows "(2 * k + 1) mod (2 * m) = 2 * (k mod m) + 1"
proof -
  have "2 * k + 1 = 2 * (k mod m + m * (k div m)) + 1" by simp
  also have "\<dots> = (2 * (k mod m) + 1) + 2 * m * (k div m)" by (simp only: algebra_simps)
  finally have "(2 * k + 1) mod (2 * m) = (2 * (k mod m) + 1) mod (2 * m)"
    by (metis mod_mult_self2)
  also have "\<dots> = 2 * (k mod m) + 1"
    using assms mod_less_divisor [of m k] by (intro mod_less) linarith
  finally show ?thesis .
qed

text \<open>The identifier that the \<open>n\<close>-th call (from 0) of \<open>allocate\<close> on a fresh dialer returns.\<close>

definition nth_id :: "nat \<Rightarrow> u32" where
  "nth_id n = fst (allocate (((\<lambda>d. snd (allocate d)) ^^ n) dialer_default))"

lemma allocate_iterate: "((\<lambda>d. snd (allocate d)) ^^ n) dialer_default = \<lparr>next_id = of_nat (2 * n + 1)\<rparr>"
  by (induction n) (simp_all add: dialer_default_def allocate_def algebra_simps)

text \<open>
  The dialer hands out the odd identifiers 1, 3, 5, \<open>\<dots>\<close>, never the control stream 0; an
  identifier comes round again only after all \<open>2 ^ 31\<close> odd ones have been used.
\<close>

theorem allocate_ids:
  "odd (unat (nth_id n)) \<and> nth_id n \<noteq> 0 \<and> (nth_id m = nth_id n \<longleftrightarrow> m mod 2 ^ 31 = n mod 2 ^ 31)"
proof -
  have id: "nth_id k = of_nat (2 * k + 1)" for k
    by (simp only: nth_id_def allocate_iterate) (simp add: allocate_def)
  have u: "unat (nth_id k) = 2 * (k mod 2 ^ 31) + 1" for k
  proof -
    have "unat (nth_id k) = (2 * k + 1) mod 2 ^ 32"
      by (simp only: id unat_of_nat) simp
    also have "\<dots> = 2 * (k mod 2 ^ 31) + 1"
      using mod_double_plus_one [of "2 ^ 31" k] by simp
    finally show ?thesis .
  qed
  have "nth_id m = nth_id n \<longleftrightarrow> unat (nth_id m) = unat (nth_id n)" by (simp add: word_unat_eq_iff)
  moreover have "odd (unat (nth_id n))" by (simp add: u)
  moreover have "nth_id n \<noteq> 0" using u [of n] by auto
  ultimately show ?thesis by (simp add: u)
qed

end
