(* ===== verification/Spl_Http.thy ===== *)
theory Spl_Http
  imports Spl_Std Spl_Frame
begin

text \<open>
  HTTP/1.1 over the mux, \<open>crates/spl-core/src/http.rs\<close>: building request heads, parsing
  responses, and the two decoders of chunked bodies, the one-shot \<open>dechunk\<close> and the
  incremental \<open>ChunkedDecoder\<close>. The text of an error message is represented by a constructor
  with the values that the message is formatted from.
\<close>

subsection \<open>Responses and errors\<close>

record http_response =
  resp_status :: u16
  resp_headers :: "(str \<times> str) list"
  resp_body :: bytes

datatype chunk_problem =
    BadChunkSize str
  | ChunkTooLarge nat
  | PreviouslyFailed
  | MissingChunkTerminator
  | MissingSizeLine
  | TruncatedChunk
  | MissingTerminalChunk

datatype http_error =
    MissingTerminator
  | MissingStatusLine
  | BadStatusLine str
  | TruncatedBody
  | BadChunkedBody chunk_problem

definition header_lookup :: "(str \<times> str) list \<Rightarrow> str \<Rightarrow> str option" where
  "header_lookup hs name = map_option snd (find (\<lambda>(k, _). k = name) hs)"

definition response_header :: "http_response \<Rightarrow> str \<Rightarrow> str option" where
  "response_header r name = header_lookup (resp_headers r) (to_ascii_lowercase name)"

definition body_text :: "http_response \<Rightarrow> str" where
  "body_text r = from_utf8_lossy (resp_body r)"

definition is_success :: "http_response \<Rightarrow> bool" where
  "is_success r \<longleftrightarrow> 200 \<le> resp_status r \<and> resp_status r < 300"

subsection \<open>Chunked bodies, incrementally\<close>

definition parse_chunk_size :: "str \<Rightarrow> http_error + nat" where
  "parse_chunk_size line =
     (let size_field = trim (hd (str_split [59] line)) in
      case from_str_radix 16 USIZE_MAX size_field of
        None \<Rightarrow> Inl (BadChunkedBody (BadChunkSize size_field))
      | Some sz \<Rightarrow>
          (if sz > MAX_PAYLOAD then Inl (BadChunkedBody (ChunkTooLarge sz)) else Inr sz))"

datatype chunk_state = CSize | CData nat | CDataCrlf | CTrailer | CDone | CFailed

record chunked_decoder =
  cd_buf :: bytes
  cd_state :: chunk_state

definition chunked_new :: chunked_decoder where
  "chunked_new = \<lparr>cd_buf = [], cd_state = CSize\<rparr>"

definition is_complete :: "chunked_decoder \<Rightarrow> bool" where
  "is_complete d \<longleftrightarrow> cd_state d = CDone"

definition chunk_fail :: "chunked_decoder \<Rightarrow> chunked_decoder" where
  "chunk_fail d = d\<lparr>cd_buf := [], cd_state := CFailed\<rparr>"

text \<open>
  One iteration of the loop in \<open>push\<close>: \<open>None\<close> is its \<open>break\<close>, \<open>Some out\<close> an iteration that
  appends \<open>out\<close> to the result.
\<close>

definition chunk_step :: "chunked_decoder \<Rightarrow> (http_error + bytes option) \<times> chunked_decoder" where
  "chunk_step d =
     (case cd_state d of
        CSize \<Rightarrow>
          (case find_subsequence (cd_buf d) CRLF of
             None \<Rightarrow> (Inr None, d)
           | Some line_end \<Rightarrow>
               (case parse_chunk_size (from_utf8_lossy (take line_end (cd_buf d))) of
                  Inl err \<Rightarrow> (Inl err, chunk_fail d)
                | Inr sz \<Rightarrow>
                    (Inr (Some []),
                     \<lparr>cd_buf = drop (line_end + 2) (cd_buf d),
                      cd_state = (if sz = 0 then CTrailer else CData sz)\<rparr>)))
      | CData sz \<Rightarrow>
          (if length (cd_buf d) < sz then (Inr None, d)
           else (Inr (Some (take sz (cd_buf d))),
                 \<lparr>cd_buf = drop sz (cd_buf d), cd_state = CDataCrlf\<rparr>))
      | CDataCrlf \<Rightarrow>
          (if length (cd_buf d) < 2 then (Inr None, d)
           else if take 2 (cd_buf d) \<noteq> CRLF
           then (Inl (BadChunkedBody MissingChunkTerminator), chunk_fail d)
           else (Inr (Some []), \<lparr>cd_buf = drop 2 (cd_buf d), cd_state = CSize\<rparr>))
      | CTrailer \<Rightarrow>
          (if take 2 (cd_buf d) = CRLF then (Inr (Some []), \<lparr>cd_buf = [], cd_state = CDone\<rparr>)
           else
             (case find_subsequence (cd_buf d) (CRLF @ CRLF) of
                None \<Rightarrow> (Inr None, d)
              | Some trailer_end \<Rightarrow> (Inr (Some []), \<lparr>cd_buf = [], cd_state = CDone\<rparr>)))
      | CDone \<Rightarrow> (Inr None, d)
      | CFailed \<Rightarrow> (Inr None, d))"

fun chunk_rank :: "chunk_state \<Rightarrow> nat" where
  "chunk_rank (CData n) = 1"
| "chunk_rank CTrailer = 1"
| "chunk_rank s = 0"

definition chunk_measure :: "chunked_decoder \<Rightarrow> nat" where
  "chunk_measure d = 2 * length (cd_buf d) + chunk_rank (cd_state d)"

lemma chunk_step_decreases:
  "chunk_step d = (Inr (Some out), d') \<Longrightarrow> chunk_measure d' < chunk_measure d"
  by (auto simp: chunk_step_def chunk_measure_def CRLF_def
      split: chunk_state.splits option.splits sum.splits if_splits dest!: find_subsequence_length)

function chunk_loop :: "chunked_decoder \<Rightarrow> (http_error + bytes list) \<times> chunked_decoder" where
  "chunk_loop d =
     (case chunk_step d of
        (Inl e, d') \<Rightarrow> (Inl e, d')
      | (Inr None, d') \<Rightarrow> (Inr [], d')
      | (Inr (Some out), d') \<Rightarrow>
          (case chunk_loop d' of
             (Inl e, d'') \<Rightarrow> (Inl e, d'')
           | (Inr outs, d'') \<Rightarrow> (Inr (out # outs), d'')))"
  by pat_completeness auto
termination
  by (relation "measure chunk_measure") (auto dest!: chunk_step_decreases [OF sym])

declare chunk_loop.simps [simp del]

definition push :: "chunked_decoder \<Rightarrow> bytes \<Rightarrow> (http_error + bytes) \<times> chunked_decoder" where
  "push d bs =
     (if cd_state d = CDone then (Inr [], d)
      else if cd_state d = CFailed then (Inl (BadChunkedBody PreviouslyFailed), d)
      else
        (case chunk_loop (d\<lparr>cd_buf := cd_buf d @ bs\<rparr>) of
           (Inl e, d') \<Rightarrow> (Inl e, d')
         | (Inr outs, d') \<Rightarrow> (Inr (concat outs), d')))"

subsection \<open>Building requests\<close>

definition DEFAULT_HTTP_HOST :: str where
  "DEFAULT_HTTP_HOST = ascii ''spl.local''"

definition is_framing_owned :: "str \<Rightarrow> bool" where
  "is_framing_owned name \<longleftrightarrow>
     eq_ignore_ascii_case name (ascii ''host'')
     \<or> eq_ignore_ascii_case name (ascii ''content-length'')
     \<or> eq_ignore_ascii_case name (ascii ''accept'')"

definition header_line :: "str \<Rightarrow> str \<Rightarrow> bytes" where
  "header_line name value = name @ ascii '': '' @ value @ CRLF"

definition build_request_head_with_host ::
  "str \<Rightarrow> str \<Rightarrow> str \<Rightarrow> (str \<times> str) list \<Rightarrow> nat \<Rightarrow> bytes" where
  "build_request_head_with_host method path host headers content_length =
     method @ ascii '' '' @ path @ ascii '' HTTP/1.1'' @ CRLF
     @ header_line (ascii ''host'') host
     @ (case find (\<lambda>(k, _). eq_ignore_ascii_case k (ascii ''accept'')) headers of
          Some (k, v) \<Rightarrow> header_line k v
        | None \<Rightarrow> header_line (ascii ''accept'') (ascii ''application/json''))
     @ concat (map (\<lambda>(name, value). header_line name value)
                 (filter (\<lambda>(name, _). \<not> is_framing_owned name) headers))
     @ header_line (ascii ''content-length'') (dec_string content_length)
     @ CRLF"

definition build_request_head :: "str \<Rightarrow> str \<Rightarrow> (str \<times> str) list \<Rightarrow> nat \<Rightarrow> bytes" where
  "build_request_head method path headers content_length =
     build_request_head_with_host method path DEFAULT_HTTP_HOST headers content_length"

definition build_request_with_host ::
  "str \<Rightarrow> str \<Rightarrow> str \<Rightarrow> (str \<times> str) list \<Rightarrow> bytes \<Rightarrow> bytes" where
  "build_request_with_host method path host headers body =
     build_request_head_with_host method path host headers (length body) @ body"

definition build_request :: "str \<Rightarrow> str \<Rightarrow> (str \<times> str) list \<Rightarrow> bytes \<Rightarrow> bytes" where
  "build_request method path headers body =
     build_request_with_host method path DEFAULT_HTTP_HOST headers body"

subsection \<open>Parsing responses\<close>

definition parse_header_line :: "str \<Rightarrow> (str \<times> str) option" where
  "parse_header_line line =
     map_option (\<lambda>colon. (to_ascii_lowercase (trim (take colon line)), trim (drop (colon + 1) line)))
       (find_subsequence line [58])"

definition parse_head :: "bytes \<Rightarrow> http_error + (u16 \<times> (str \<times> str) list)" where
  "parse_head head_bytes =
     (let head = from_utf8_lossy head_bytes in
      case str_split CRLF head of
        [] \<Rightarrow> Inl MissingStatusLine
      | status_line # lines \<Rightarrow>
          (let parts = str_splitn 3 [32] status_line in
           case (case tl parts of
                   [] \<Rightarrow> None
                 | s # _ \<Rightarrow> from_str_radix 10 U16_MAX s) of
             None \<Rightarrow> Inl (BadStatusLine status_line)
           | Some status \<Rightarrow> Inr (of_nat status, List.map_filter parse_header_line lines)))"

function dechunk_from :: "bytes \<Rightarrow> nat \<Rightarrow> bytes \<Rightarrow> http_error + bytes" where
  "dechunk_from raw index out =
     (if index < length raw then
        (case find_subsequence (drop index raw) CRLF of
           None \<Rightarrow> Inl (BadChunkedBody MissingSizeLine)
         | Some p \<Rightarrow>
             (case parse_chunk_size (from_utf8_lossy (take p (drop index raw))) of
                Inl e \<Rightarrow> Inl e
              | Inr sz \<Rightarrow>
                  (if sz = 0 then Inr out
                   else
                     (case usize_checked_add (index + p + 2) sz of
                        None \<Rightarrow> Inl (BadChunkedBody TruncatedChunk)
                      | Some data_end \<Rightarrow>
                          (if data_end > length raw then Inl (BadChunkedBody TruncatedChunk)
                           else if length raw - data_end < 2 \<or> take 2 (drop data_end raw) \<noteq> CRLF
                           then Inl (BadChunkedBody MissingChunkTerminator)
                           else dechunk_from raw (data_end + 2)
                                  (out @ take sz (drop (index + p + 2) raw)))))))
      else Inl (BadChunkedBody MissingTerminalChunk))"
  by pat_completeness auto
termination
  by (relation "measure (\<lambda>(raw, index, out). length raw - index)") auto

declare dechunk_from.simps [simp del]

definition dechunk :: "bytes \<Rightarrow> http_error + bytes" where
  "dechunk raw = dechunk_from raw 0 []"

definition parse_response :: "bytes \<Rightarrow> http_error + http_response" where
  "parse_response raw =
     bind_res (ok_or (find_subsequence raw (CRLF @ CRLF)) MissingTerminator) (\<lambda>split.
     bind_res (parse_head (take split raw)) (\<lambda>(status, headers).
       let body = drop (split + 4) raw;
           chunked = (case header_lookup headers (ascii ''transfer-encoding'') of
                        None \<Rightarrow> False
                      | Some v \<Rightarrow> eq_ignore_ascii_case v (ascii ''chunked''))
       in bind_res
            (if chunked then dechunk body
             else
               (case Option.bind (header_lookup headers (ascii ''content-length''))
                       (from_str_radix 10 USIZE_MAX) of
                  None \<Rightarrow> Inr body
                | Some len \<Rightarrow>
                    (if len < length body then Inr (take len body)
                     else if len > length body then Inl TruncatedBody
                     else Inr body)))
            (\<lambda>body. Inr \<lparr>resp_status = status, resp_headers = headers, resp_body = body\<rparr>)))"

subsection \<open>The chunked decoder as an incremental decoder\<close>

text \<open>Appending to the buffer, as \<open>push\<close> does it: a finished or failed decoder ignores input.\<close>

definition chunk_feed :: "chunked_decoder \<Rightarrow> bytes \<Rightarrow> chunked_decoder" where
  "chunk_feed d bs = (if cd_state d = CDone \<or> cd_state d = CFailed then d else d\<lparr>cd_buf := cd_buf d @ bs\<rparr>)"

lemma chunk_fail_simps [simp]:
  "cd_buf (chunk_fail d) = []" "cd_state (chunk_fail d) = CFailed"
  "chunk_feed (chunk_fail d) bs = chunk_fail d"
  "chunk_fail (d\<lparr>cd_buf := bs'\<rparr>) = chunk_fail d"
  by (simp_all add: chunk_fail_def chunk_feed_def)

lemma length_CRLF [simp]: "length CRLF = 2"
  by (simp add: CRLF_def)

text \<open>The loop body, state by state.\<close>

lemma chunk_step_simps [simp]:
  "chunk_step \<lparr>cd_buf = b, cd_state = CSize\<rparr> =
     (case find_subsequence b CRLF of
        None \<Rightarrow> (Inr None, \<lparr>cd_buf = b, cd_state = CSize\<rparr>)
      | Some n \<Rightarrow>
          (case parse_chunk_size (from_utf8_lossy (take n b)) of
             Inl err \<Rightarrow> (Inl err, \<lparr>cd_buf = [], cd_state = CFailed\<rparr>)
           | Inr sz \<Rightarrow> (Inr (Some []), \<lparr>cd_buf = drop (n + 2) b,
                         cd_state = (if sz = 0 then CTrailer else CData sz)\<rparr>)))"
  "chunk_step \<lparr>cd_buf = b, cd_state = CData k\<rparr> =
     (if length b < k then (Inr None, \<lparr>cd_buf = b, cd_state = CData k\<rparr>)
      else (Inr (Some (take k b)), \<lparr>cd_buf = drop k b, cd_state = CDataCrlf\<rparr>))"
  "chunk_step \<lparr>cd_buf = b, cd_state = CDataCrlf\<rparr> =
     (if length b < 2 then (Inr None, \<lparr>cd_buf = b, cd_state = CDataCrlf\<rparr>)
      else if take 2 b \<noteq> CRLF
      then (Inl (BadChunkedBody MissingChunkTerminator), \<lparr>cd_buf = [], cd_state = CFailed\<rparr>)
      else (Inr (Some []), \<lparr>cd_buf = drop 2 b, cd_state = CSize\<rparr>))"
  "chunk_step \<lparr>cd_buf = b, cd_state = CTrailer\<rparr> =
     (if take 2 b = CRLF \<or> find_subsequence b (CRLF @ CRLF) \<noteq> None
      then (Inr (Some []), \<lparr>cd_buf = [], cd_state = CDone\<rparr>)
      else (Inr None, \<lparr>cd_buf = b, cd_state = CTrailer\<rparr>))"
  "chunk_step \<lparr>cd_buf = b, cd_state = CDone\<rparr> = (Inr None, \<lparr>cd_buf = b, cd_state = CDone\<rparr>)"
  "chunk_step \<lparr>cd_buf = b, cd_state = CFailed\<rparr> = (Inr None, \<lparr>cd_buf = b, cd_state = CFailed\<rparr>)"
  by (auto simp: chunk_step_def chunk_fail_def split: option.splits sum.splits)

lemma chunk_feed_simps [simp]:
  "chunk_feed \<lparr>cd_buf = b, cd_state = CSize\<rparr> bs = \<lparr>cd_buf = b @ bs, cd_state = CSize\<rparr>"
  "chunk_feed \<lparr>cd_buf = b, cd_state = CData k\<rparr> bs = \<lparr>cd_buf = b @ bs, cd_state = CData k\<rparr>"
  "chunk_feed \<lparr>cd_buf = b, cd_state = CDataCrlf\<rparr> bs = \<lparr>cd_buf = b @ bs, cd_state = CDataCrlf\<rparr>"
  "chunk_feed \<lparr>cd_buf = b, cd_state = CTrailer\<rparr> bs = \<lparr>cd_buf = b @ bs, cd_state = CTrailer\<rparr>"
  "chunk_feed \<lparr>cd_buf = b, cd_state = CDone\<rparr> bs = \<lparr>cd_buf = b, cd_state = CDone\<rparr>"
  "chunk_feed \<lparr>cd_buf = b, cd_state = CFailed\<rparr> bs = \<lparr>cd_buf = b, cd_state = CFailed\<rparr>"
  by (simp_all add: chunk_feed_def)

lemma chunked_decoder_cases:
  obtains b where "d = \<lparr>cd_buf = b, cd_state = CSize\<rparr>"
    | b k where "d = \<lparr>cd_buf = b, cd_state = CData k\<rparr>"
    | b where "d = \<lparr>cd_buf = b, cd_state = CDataCrlf\<rparr>"
    | b where "d = \<lparr>cd_buf = b, cd_state = CTrailer\<rparr>"
    | b where "d = \<lparr>cd_buf = b, cd_state = CDone\<rparr>"
    | b where "d = \<lparr>cd_buf = b, cd_state = CFailed\<rparr>"
  by (cases d; cases "cd_state d") auto

lemma chunk_step_size:
  assumes "find_subsequence b CRLF = Some n"
  shows "chunk_step \<lparr>cd_buf = b @ bs, cd_state = CSize\<rparr> =
          (case parse_chunk_size (from_utf8_lossy (take n b)) of
             Inl err \<Rightarrow> (Inl err, \<lparr>cd_buf = [], cd_state = CFailed\<rparr>)
           | Inr sz \<Rightarrow> (Inr (Some []), \<lparr>cd_buf = drop (n + 2) b @ bs,
                         cd_state = (if sz = 0 then CTrailer else CData sz)\<rparr>))"
  using find_subsequence_length [OF assms] find_subsequence_append [OF assms, of bs]
  by (simp split: sum.split)

lemma chunk_step_trailer:
  assumes "take 2 b = CRLF \<or> find_subsequence b (CRLF @ CRLF) \<noteq> None"
  shows "chunk_step \<lparr>cd_buf = b @ bs, cd_state = CTrailer\<rparr> =
           (Inr (Some []), \<lparr>cd_buf = [], cd_state = CDone\<rparr>)"
proof -
  from assms have "take 2 (b @ bs) = CRLF \<or> find_subsequence (b @ bs) (CRLF @ CRLF) \<noteq> None"
    using starts_with_append [of 2 b CRLF bs] find_subsequence_append [of b "CRLF @ CRLF" _ bs]
    by fastforce
  then show ?thesis by (simp only: chunk_step_simps if_True)
qed

lemma chunk_step_stable:
  assumes "chunk_step d = (r, d')" and "r \<noteq> Inr None"
  shows "chunk_step (chunk_feed d bs) = (r, chunk_feed d' bs)"
proof (cases d rule: chunked_decoder_cases)
  case (1 b)
  with assms obtain n where "find_subsequence b CRLF = Some n" by (auto split: option.splits)
  with 1 assms show ?thesis
    by (auto simp: chunk_step_size simp del: chunk_step_simps(1) split: sum.splits)
      (auto split: sum.splits)
next
  case (4 b)
  with assms have "take 2 b = CRLF \<or> find_subsequence b (CRLF @ CRLF) \<noteq> None"
    and "(r, d') = (Inr (Some []), \<lparr>cd_buf = [], cd_state = CDone\<rparr>)"
    by (auto split: if_splits)
  with 4 chunk_step_trailer show ?thesis by (auto simp del: chunk_step_simps)
qed (use assms in \<open>auto split: if_splits\<close>)

lemma chunk_step_none: "chunk_step d = (Inr None, d') \<Longrightarrow> d' = d"
  by (cases d rule: chunked_decoder_cases) (auto split: option.splits sum.splits if_splits)

lemma chunk_feed_feed: "chunk_feed (chunk_feed d xs) ys = chunk_feed d (xs @ ys)"
  by (cases d rule: chunked_decoder_cases) simp_all

lemma chunk_feed_Nil: "chunk_feed d [] = d"
  by (cases d rule: chunked_decoder_cases) simp_all

interpretation cd: incremental_decoder chunk_step chunk_feed chunk_loop chunk_measure
proof unfold_locales
  fix s :: chunked_decoder
  show "chunk_loop s =
      (case chunk_step s of
         (Inl e, s') \<Rightarrow> (Inl e, s')
       | (Inr None, s') \<Rightarrow> (Inr [], s')
       | (Inr (Some x), s') \<Rightarrow>
           (case chunk_loop s' of
              (Inl e, s'') \<Rightarrow> (Inl e, s'')
            | (Inr xs, s'') \<Rightarrow> (Inr (x # xs), s'')))"
    by (rule chunk_loop.simps)
qed (auto simp: chunk_step_decreases chunk_step_stable chunk_feed_feed chunk_feed_Nil
    dest: chunk_step_none)


lemma chunk_step_error: "chunk_step d = (Inl e, d') \<Longrightarrow> d' = \<lparr>cd_buf = [], cd_state = CFailed\<rparr>"
  by (cases d rule: chunked_decoder_cases) (auto split: option.splits sum.splits if_splits)

lemma chunk_step_live: "chunk_step d = (Inr (Some out), d') \<Longrightarrow> cd_state d' \<noteq> CFailed"
  by (cases d rule: chunked_decoder_cases) (auto split: option.splits sum.splits if_splits)

lemma chunk_loop_error:
  "chunk_loop d = (Inl e, d') \<Longrightarrow> d' = \<lparr>cd_buf = [], cd_state = CFailed\<rparr>"
proof (induction "chunk_measure d" arbitrary: d rule: less_induct)
  case less
  show ?case
  proof (cases d rule: cd.pull_cases)
    case (item out t)
    with less.prems have "chunk_loop t = (Inl e, d')"
      by (simp add: cd.drain_item split: prod.splits sum.splits)
    with item show ?thesis by (auto intro: less.hyps chunk_step_decreases)
  qed (use less.prems in \<open>simp_all add: cd.drain_error cd.drain_stuck chunk_step_error\<close>)
qed

lemma chunk_loop_not_failed:
  "chunk_loop d = (Inr outs, d') \<Longrightarrow> cd_state d \<noteq> CFailed \<Longrightarrow> cd_state d' \<noteq> CFailed"
proof (induction "chunk_measure d" arbitrary: d outs rule: less_induct)
  case less
  show ?case
  proof (cases d rule: cd.pull_cases)
    case (item out t)
    with less.prems obtain outs' where "chunk_loop t = (Inr outs', d')"
      by (auto simp: cd.drain_item split: prod.splits sum.splits)
    with item show ?thesis by (metis less.hyps chunk_step_decreases chunk_step_live)
  qed (use less.prems in \<open>simp_all add: cd.drain_error cd.drain_stuck\<close>)
qed

lemma push_chunk_loop:
  "push d bs =
     (if cd_state d = CFailed then (Inl (BadChunkedBody PreviouslyFailed), d)
      else map_prod (map_sum id concat) id (chunk_loop (chunk_feed d bs)))"
  by (cases d rule: chunked_decoder_cases)
    (auto simp: push_def cd.drain_stuck split: prod.split sum.split)

text \<open>A body received in pieces: one \<open>push\<close> per piece until one fails.\<close>

fun push_all :: "chunked_decoder \<Rightarrow> bytes list \<Rightarrow> (http_error + bytes) \<times> chunked_decoder" where
  "push_all d [] = (Inr [], d)"
| "push_all d (r # rs) =
     (case push d r of
        (Inl e, d') \<Rightarrow> (Inl e, d')
      | (Inr out, d') \<Rightarrow>
          (case push_all d' rs of
             (Inl e, d'') \<Rightarrow> (Inl e, d'')
           | (Inr out', d'') \<Rightarrow> (Inr (out @ out'), d'')))"

lemma push_all_read_all:
  "cd_state d \<noteq> CFailed \<Longrightarrow>
     push_all d rs = map_prod (map_sum id concat) id (read_all chunk_feed chunk_loop d rs)"
proof (induction rs arbitrary: d)
  case (Cons r rs)
  have "cd_state (chunk_feed d r) \<noteq> CFailed" using Cons.prems by (simp add: chunk_feed_def)
  then have "cd_state d' \<noteq> CFailed" if "chunk_loop (chunk_feed d r) = (Inr outs, d')" for outs d'
    using chunk_loop_not_failed that by blast
  with Cons show ?case by (auto simp: push_chunk_loop split: prod.splits sum.splits)
qed simp

lemma read_all_chunk_error:
  "read_all chunk_feed chunk_loop d rs = (Inl e, d') \<Longrightarrow> d' = \<lparr>cd_buf = [], cd_state = CFailed\<rparr>"
  by (induction rs arbitrary: d)
    (auto split: prod.splits sum.splits dest: chunk_loop_error)

lemma chunk_loop_new: "chunk_loop chunked_new = (Inr [], chunked_new)"
  by (rule cd.drain_stuck) (simp add: chunked_new_def)

lemma push_all_concat: "push_all chunked_new rs = push chunked_new (concat rs)"
proof -
  let ?read = "read_all chunk_feed chunk_loop chunked_new rs"
  let ?once = "chunk_loop (chunk_feed chunked_new (concat rs))"
  have "?read = ?once"
  proof (cases "fst ?read")
    case (Inr xs)
    then have "?read = (Inr xs, snd ?read)" by (simp add: prod_eq_iff)
    then show ?thesis using cd.read_all_ok [OF chunk_loop_new] by metis
  next
    case (Inl e)
    then have "fst ?once = Inl e" using cd.read_all_error [OF chunk_loop_new] by blast
    with Inl show ?thesis
      by (metis prod.collapse read_all_chunk_error chunk_loop_error)
  qed
  then show ?thesis
    by (simp add: push_all_read_all push_chunk_loop) (simp add: chunked_new_def)
qed

lemma push_push:
  assumes "push chunked_new xs = (Inr out, d)" and "push d ys = (Inr out', d')"
  shows "push chunked_new (xs @ ys) = (Inr (out @ out'), d')"
  using push_all_concat [of "[xs, ys]"] assms by simp

text \<open>
  C19. Reading a chunked body with \<open>ChunkedDecoder::push\<close> does not depend on how the
  transport cut it into pieces: pushing the pieces one by one gives the decoded bytes, the
  error and the final decoder that one \<open>push\<close> of the whole body gives.
\<close>

theorem push_pieces: "push_all chunked_new rs = push chunked_new (concat rs)"
  by (rule push_all_concat)

subsection \<open>Chunked bodies as a grammar\<close>

text \<open>
  What both decoders accept, written as a grammar: size lines that hold no CRLF of their own,
  each followed by as many bytes as it declares and a CRLF, up to a size line that declares
  zero; what follows that line is the trailer.
\<close>

definition size_line :: "bytes \<Rightarrow> bool" where
  "size_line line \<longleftrightarrow> find_subsequence (line @ CRLF) CRLF = Some (length line)"

inductive chunked_body :: "bytes \<Rightarrow> bytes \<Rightarrow> bytes \<Rightarrow> bool" where
  last_chunk:
    "\<lbrakk>size_line line; parse_chunk_size (from_utf8_lossy line) = Inr 0\<rbrakk>
      \<Longrightarrow> chunked_body (line @ CRLF @ trailer) [] trailer"
| data_chunk:
    "\<lbrakk>size_line line; parse_chunk_size (from_utf8_lossy line) = Inr (length data); data \<noteq> [];
      chunked_body rest out trailer\<rbrakk>
      \<Longrightarrow> chunked_body (line @ CRLF @ data @ CRLF @ rest) (data @ out) trailer"

lemma find_size_line [simp]:
  "size_line line \<Longrightarrow> find_subsequence (line @ CRLF @ rest) CRLF = Some (length line)"
  unfolding size_line_def using find_subsequence_append by force

lemma size_line_split:
  assumes "find_subsequence raw CRLF = Some n"
  obtains line rest where "raw = line @ CRLF @ rest" "size_line line" "length line = n"
proof -
  let ?line = "take n raw"
  have raw: "raw = ?line @ CRLF @ drop (n + 2) raw" and n: "n + 2 \<le> length raw"
    using find_subsequence_split [OF assms] find_subsequence_length [OF assms] by simp_all
  have "take 2 (drop j (?line @ CRLF)) = take 2 (drop j raw)" if "j \<le> n" for j
    using n that by (subst raw) (simp only: append_assoc [symmetric], simp)
  then have "size_line ?line"
    using assms n unfolding size_line_def find_subsequence_eq_Some_iff by simp
  with raw n that show thesis by simp
qed

text \<open>One turn of the loop of \<open>dechunk\<close>, on an input cut at the index and after the size line.\<close>

lemma dechunk_from_line:
  assumes "length (pre @ line @ CRLF @ rest) < 2 ^ 64" and "size_line line"
    and "parse_chunk_size (from_utf8_lossy line) = Inr sz"
  shows "dechunk_from (pre @ line @ CRLF @ rest) (length pre) out =
     (if sz = 0 then Inr out
      else if length rest < sz then Inl (BadChunkedBody TruncatedChunk)
      else if take 2 (drop sz rest) \<noteq> CRLF then Inl (BadChunkedBody MissingChunkTerminator)
      else dechunk_from (pre @ line @ CRLF @ rest) (length pre + length line + 2 + sz + 2)
             (out @ take sz rest))"
proof -
  have short: "take 2 xs \<noteq> CRLF" if "length xs < 2" for xs
    using that by (auto dest: arg_cong [where f = length])
  show ?thesis
    using assms short [of "drop sz rest"] by (subst dechunk_from.simps) (auto simp: usize_checked_add_def)
qed

lemma chunked_body_dechunk:
  assumes "chunked_body b o' t" and "length (pre @ b) < 2 ^ 64"
  shows "dechunk_from (pre @ b) (length pre) out = Inr (out @ o')"
  using assms
proof (induction arbitrary: pre out rule: chunked_body.induct)
  case (last_chunk line trailer)
  then show ?case by (simp add: dechunk_from_line del: append_assoc)
next
  case (data_chunk line data rest o' trailer)
  then have "dechunk_from (pre @ line @ CRLF @ data @ CRLF @ rest) (length pre) out =
      dechunk_from (pre @ line @ CRLF @ data @ CRLF @ rest)
        (length pre + length line + 2 + length data + 2) (out @ data)"
    by (simp add: dechunk_from_line)
  also have "\<dots> = Inr (out @ data @ o')"
    using data_chunk.IH [of "pre @ line @ CRLF @ data @ CRLF" "out @ data"] data_chunk.prems
    by (simp add: add.assoc)
  finally show ?case .
qed

lemma dechunk_chunked_body:
  assumes "dechunk_from (pre @ b) (length pre) out = Inr res" and "length (pre @ b) < 2 ^ 64"
  shows "\<exists>o' t. chunked_body b o' t \<and> res = out @ o'"
  using assms
proof (induction "length b" arbitrary: b pre out rule: less_induct)
  case less
  from less.prems obtain p where "find_subsequence b CRLF = Some p"
    by (subst (asm) dechunk_from.simps) (simp split: if_splits option.splits)
  then obtain line rest where b: "b = line @ CRLF @ rest" "size_line line"
    using size_line_split by blast
  from less.prems b obtain sz where sz: "parse_chunk_size (from_utf8_lossy line) = Inr sz"
    by (subst (asm) dechunk_from.simps) (auto split: sum.splits)
  note unfold = dechunk_from_line [OF _ b(2) sz, of pre rest out]
  show ?case
  proof (cases "sz = 0")
    case True
    with unfold less.prems b sz show ?thesis by (auto intro: last_chunk)
  next
    case False
    with unfold less.prems b have len: "sz \<le> length rest" and crlf: "take 2 (drop sz rest) = CRLF"
      and rec: "dechunk_from (pre @ line @ CRLF @ rest) (length pre + length line + 2 + sz + 2)
        (out @ take sz rest) = Inr res"
      by (auto split: if_splits)
    let ?data = "take sz rest" and ?rest = "drop (sz + 2) rest"
    have rest: "rest = ?data @ CRLF @ ?rest"
      using crlf by (metis append_take_drop_id drop_drop add.commute)
    let ?pre = "pre @ line @ CRLF @ ?data @ CRLF"
    have "dechunk_from (?pre @ ?rest) (length ?pre) (out @ ?data) = Inr res"
      using rec len rest by (simp add: add.assoc)
    moreover have "length ?rest < length b" "length (?pre @ ?rest) < 2 ^ 64"
      using less.prems(2) b rest len by simp_all
    ultimately obtain o' t where "chunked_body ?rest o' t" "res = out @ ?data @ o'"
      using less.hyps [of ?rest ?pre "out @ ?data"] by auto
    moreover have "parse_chunk_size (from_utf8_lossy line) = Inr (length ?data)" "?data \<noteq> []"
      using sz len False by auto
    ultimately show ?thesis using b rest data_chunk [of line ?data ?rest o' t] by metis
  qed
qed

text \<open>The same turn of the incremental decoder's loop.\<close>

definition chunk_out :: "chunked_decoder \<Rightarrow> (http_error + bytes) \<times> chunked_decoder" where
  "chunk_out d = map_prod (map_sum id concat) id (chunk_loop d)"

definition trailer_state :: "bytes \<Rightarrow> chunked_decoder" where
  "trailer_state b =
     (if take 2 b = CRLF \<or> find_subsequence b (CRLF @ CRLF) \<noteq> None
      then \<lparr>cd_buf = [], cd_state = CDone\<rparr> else \<lparr>cd_buf = b, cd_state = CTrailer\<rparr>)"

lemma chunk_out_step:
  "chunk_out d =
     (case chunk_step d of
        (Inl e, d') \<Rightarrow> (Inl e, d')
      | (Inr None, d') \<Rightarrow> (Inr [], d')
      | (Inr (Some out), d') \<Rightarrow> map_prod (map_sum id (append out)) id (chunk_out d'))"
  unfolding chunk_out_def
  by (subst cd.drain_unfold) (auto split: prod.splits sum.splits option.splits)

lemma map_append_Nil [simp]: "map_prod (map_sum id (append [])) id r = r"
  by (cases r; cases "fst r") auto

lemma chunk_out_line:
  assumes "size_line line" and "parse_chunk_size (from_utf8_lossy line) = Inr sz"
  shows "chunk_out \<lparr>cd_buf = line @ CRLF @ rest, cd_state = CSize\<rparr> =
    (if sz = 0 then (Inr [], trailer_state rest)
     else if length rest < sz then (Inr [], \<lparr>cd_buf = rest, cd_state = CData sz\<rparr>)
     else if length rest < sz + 2 then (Inr (take sz rest), \<lparr>cd_buf = drop sz rest, cd_state = CDataCrlf\<rparr>)
     else if take 2 (drop sz rest) \<noteq> CRLF
     then (Inl (BadChunkedBody MissingChunkTerminator), \<lparr>cd_buf = [], cd_state = CFailed\<rparr>)
     else map_prod (map_sum id (append (take sz rest))) id
            (chunk_out \<lparr>cd_buf = drop (sz + 2) rest, cd_state = CSize\<rparr>))"
proof -
  have trailer: "chunk_out \<lparr>cd_buf = rest, cd_state = CTrailer\<rparr> = (Inr [], trailer_state rest)"
    by (subst chunk_out_step)
      (simp add: trailer_state_def chunk_out_step [of "\<lparr>cd_buf = [], cd_state = CDone\<rparr>"])
  have "chunk_out \<lparr>cd_buf = line @ CRLF @ rest, cd_state = CSize\<rparr> =
      chunk_out \<lparr>cd_buf = rest, cd_state = (if sz = 0 then CTrailer else CData sz)\<rparr>"
    using assms by (subst chunk_out_step) simp
  with trailer show ?thesis
    by (auto simp: chunk_out_step [of "\<lparr>cd_buf = rest, cd_state = CData sz\<rparr>"]
        chunk_out_step [of "\<lparr>cd_buf = drop sz rest, cd_state = CDataCrlf\<rparr>"])
qed

lemma chunked_body_push:
  "chunked_body b out t \<Longrightarrow> chunk_out \<lparr>cd_buf = b, cd_state = CSize\<rparr> = (Inr out, trailer_state t)"
  by (induction rule: chunked_body.induct) (simp_all add: chunk_out_line)

lemma push_chunked_body:
  assumes "chunk_out \<lparr>cd_buf = b, cd_state = CSize\<rparr> = (Inr out, d)" and "cd_state d \<in> {CTrailer, CDone}"
  shows "\<exists>t. chunked_body b out t"
  using assms
proof (induction "length b" arbitrary: b out rule: less_induct)
  case less
  from less.prems obtain n where "find_subsequence b CRLF = Some n"
    by (subst (asm) chunk_out_step) (auto split: option.splits)
  then obtain line rest where b: "b = line @ CRLF @ rest" "size_line line"
    using size_line_split by blast
  from less.prems b obtain sz where sz: "parse_chunk_size (from_utf8_lossy line) = Inr sz"
    by (subst (asm) chunk_out_step) (auto split: sum.splits)
  note unfold = less.prems(1) [unfolded b(1) chunk_out_line [OF b(2) sz]]
  show ?case
  proof (cases "sz = 0")
    case True
    with unfold b sz show ?thesis by (auto intro: last_chunk)
  next
    case False
    let ?data = "take sz rest" and ?rest = "drop (sz + 2) rest"
    from False unfold less.prems(2) obtain o' where len: "sz + 2 \<le> length rest"
      and crlf: "take 2 (drop sz rest) = CRLF" and out: "out = ?data @ o'"
      and rec: "chunk_out \<lparr>cd_buf = ?rest, cd_state = CSize\<rparr> = (Inr o', d)"
      by (auto split: if_splits simp: map_prod_def map_sum_def split: prod.splits sum.splits)
    have rest: "rest = ?data @ CRLF @ ?rest"
      using crlf by (metis append_take_drop_id drop_drop add.commute)
    have "length ?rest < length b" using b len by simp
    with less.hyps rec less.prems(2) obtain t where "chunked_body ?rest o' t" by blast
    moreover have "parse_chunk_size (from_utf8_lossy line) = Inr (length ?data)" "?data \<noteq> []"
      using sz len False by auto
    ultimately show ?thesis using b rest out data_chunk [of line ?data ?rest o' t] by metis
  qed
qed

lemma push_new: "push chunked_new raw = chunk_out \<lparr>cd_buf = raw, cd_state = CSize\<rparr>"
  by (simp add: push_chunk_loop chunk_out_def chunked_new_def)

text \<open>
  C18. \<open>dechunk\<close> decodes exactly the chunked bodies of the grammar: it returns \<open>out\<close> if and
  only if the input is a sequence of well-formed chunks whose data is \<open>out\<close>, closed by a
  zero-size line. (A slice is shorter than 2^64 bytes.)
\<close>

theorem dechunk_grammar:
  assumes "length raw < 2 ^ 64"
  shows "dechunk raw = Inr out \<longleftrightarrow> (\<exists>trailer. chunked_body raw out trailer)"
  using dechunk_chunked_body [of "[]" raw "[]" out] chunked_body_dechunk [of raw out _ "[]" "[]"] assms
  by (auto simp: dechunk_def)

lemma dechunk_example:
  "dechunk (ascii ''4'' @ CRLF @ ascii ''Wiki'' @ CRLF @ ascii ''0'' @ CRLF @ CRLF) = Inr (ascii ''Wiki'')"
  by (simp add: dechunk_def dechunk_from.simps parse_chunk_size_def usize_checked_add_def
      CRLF_def MAX_PAYLOAD_def std_eval)

theorem dechunk_grammar_witness:
  "\<exists>trailer. chunked_body (ascii ''4'' @ CRLF @ ascii ''Wiki'' @ CRLF @ ascii ''0'' @ CRLF @ CRLF)
     (ascii ''Wiki'') trailer"
  by (rule dechunk_grammar [THEN iffD1, OF _ dechunk_example]) (simp add: CRLF_def)

text \<open>
  C17. The incremental and the one-shot decoder agree: \<open>dechunk\<close> returns \<open>out\<close> exactly when
  a fresh \<open>ChunkedDecoder\<close> pushed the same bytes returns \<open>out\<close> and has passed the zero-size
  chunk (it waits for the trailer or is complete).
\<close>

theorem push_agrees_with_dechunk:
  assumes "length raw < 2 ^ 64"
  shows "dechunk raw = Inr out \<longleftrightarrow>
    (\<exists>d. push chunked_new raw = (Inr out, d) \<and> cd_state d \<in> {CTrailer, CDone})"
proof -
  have "dechunk raw = Inr out \<longleftrightarrow> (\<exists>trailer. chunked_body raw out trailer)"
    using dechunk_chunked_body [of "[]" raw "[]" out] chunked_body_dechunk [of raw out _ "[]" "[]"] assms
    by (auto simp: dechunk_def)
  also have "\<dots> \<longleftrightarrow> (\<exists>d. push chunked_new raw = (Inr out, d) \<and> cd_state d \<in> {CTrailer, CDone})"
    using chunked_body_push push_chunked_body unfolding push_new by (fastforce simp: trailer_state_def)
  finally show ?thesis .
qed

theorem push_agrees_with_dechunk_witness:
  "\<exists>d. push chunked_new (ascii ''4'' @ CRLF @ ascii ''Wiki'' @ CRLF @ ascii ''0'' @ CRLF @ CRLF)
       = (Inr (ascii ''Wiki''), d) \<and> cd_state d \<in> {CTrailer, CDone}"
  by (rule push_agrees_with_dechunk [THEN iffD1, OF _ dechunk_example]) (simp add: CRLF_def)

subsection \<open>Responses with a declared length\<close>

lemma find_head_end:
  assumes "find_subsequence (head @ CRLF @ CRLF) (CRLF @ CRLF) = Some (length head)"
  shows "find_subsequence (head @ CRLF @ CRLF @ body) (CRLF @ CRLF) = Some (length head)"
  using find_subsequence_append [OF assms, of body] by simp

text \<open>
  A response whose head declares a decimal length \<open>n\<close> and no chunked coding is
  accepted exactly when at least \<open>n\<close> bytes follow the head, and its body is the first \<open>n\<close>
  of them: bytes beyond the length are dropped, fewer are reported as a truncated body.
\<close>

theorem parse_response_content_length:
  assumes "find_subsequence (head @ CRLF @ CRLF) (CRLF @ CRLF) = Some (length head)"
    and "parse_head head = Inr (status, headers)"
    and "header_lookup headers (ascii ''transfer-encoding'') = None"
    and "header_lookup headers (ascii ''content-length'') = Some (dec_string n)" and "n < 2 ^ 64"
  shows "parse_response (head @ CRLF @ CRLF @ body) =
    (if n \<le> length body
     then Inr \<lparr>resp_status = status, resp_headers = headers, resp_body = take n body\<rparr>
     else Inl TruncatedBody)"
proof -
  have "from_str_radix 10 USIZE_MAX (dec_string n) = Some n"
    using assms(5) by (intro from_str_radix_dec_string) (simp add: USIZE_MAX_def)
  then show ?thesis
    using assms(2-4) find_head_end [OF assms(1), of body] by (simp add: parse_response_def)
qed

lemma str_splitn_3: "str_splitn 3 pat s = str_splitn (Suc (Suc (Suc 0))) pat s"
  by (simp only: numeral_3_eq_3)

lemma example_header:
  "parse_header_line (ascii ''Content-Length: 2'') = Some (ascii ''content-length'', ascii ''2'')"
proof -
  have "find_subsequence (ascii ''Content-Length: 2'') [58] = Some 14" by simp
  then have "parse_header_line (ascii ''Content-Length: 2'') =
      Some (to_ascii_lowercase (trim (ascii ''Content-Length'')), trim (ascii '' 2''))"
    unfolding parse_header_line_def by simp
  then show ?thesis by (simp add: to_ascii_lowercase_def ascii_lower_byte_def std_eval)
qed

lemma example_lines:
  "str_split CRLF (from_utf8_lossy (ascii ''HTTP/1.1 200 OK'' @ CRLF @ ascii ''Content-Length: 2'')) =
     [ascii ''HTTP/1.1 200 OK'', ascii ''Content-Length: 2'']"
  by (simp add: from_utf8_lossy_ascii str_split.simps CRLF_def)

lemma example_status:
  "str_splitn 3 [32] (ascii ''HTTP/1.1 200 OK'') = [ascii ''HTTP/1.1'', ascii ''200'', ascii ''OK'']"
  "from_str_radix 10 U16_MAX (ascii ''200'') = Some 200"
  by (simp_all add: str_splitn_3 from_str_radix_def digit_value_def U16_MAX_def)

lemma example_head:
  "parse_head (ascii ''HTTP/1.1 200 OK'' @ CRLF @ ascii ''Content-Length: 2'') =
     Inr (200, [(ascii ''content-length'', ascii ''2'')])"
  by (simp add: parse_head_def example_lines example_status example_header del: ascii_simps)

theorem parse_response_content_length_witness:
  "parse_response (ascii ''HTTP/1.1 200 OK'' @ CRLF @ ascii ''Content-Length: 2'' @ CRLF @ CRLF @ ascii ''okay'')
     = Inr \<lparr>resp_status = 200, resp_headers = [(ascii ''content-length'', ascii ''2'')],
            resp_body = ascii ''ok''\<rparr>"
  using parse_response_content_length [OF _ example_head, of 2 "ascii ''okay''"]
  by (simp add: header_lookup_def CRLF_def dec_string.simps)

end
