(* ===== verification/Spl_Recv_Window.thy ===== *)
theory Spl_Recv_Window
  imports Spl_Http
begin

text \<open>
  Receive-side credit of one mux stream, \<open>RecvWindow\<close> of \<open>crates/spl-core/src/mux.rs\<close>, with
  the error type of that module. The counters are \<open>u64\<close>; \<open>consume\<close> checks every operation on
  them, and a failed check, which panics, is the left side of its result.
\<close>

subsection \<open>Constants and errors\<close>

definition INITIAL_WINDOW :: nat where "INITIAL_WINDOW = 2 ^ 20"

definition RECEIVE_GRANT_THRESHOLD :: nat where
  "RECEIVE_GRANT_THRESHOLD = INITIAL_WINDOW div 2"

definition MAX_ASSEMBLED_BYTES :: nat where "MAX_ASSEMBLED_BYTES = 4 * 1024 * 1024"

datatype mux_error =
    FrameFailed frame_error
  | StreamReset
  | Incomplete
  | HttpFailed http_error
  | CapExceeded
  | FlowControl
  | Protocol frame_violation

lemmas window_consts = INITIAL_WINDOW_def RECEIVE_GRANT_THRESHOLD_def

subsection \<open>The window\<close>

record recv_window =
  rw_credit :: nat
  rw_unacked :: nat

definition recv_new :: recv_window where
  "recv_new = \<lparr>rw_credit = INITIAL_WINDOW, rw_unacked = 0\<rparr>"

definition debit :: "recv_window \<Rightarrow> nat \<Rightarrow> (mux_error + unit) \<times> recv_window" where
  "debit w wire_len =
     (if wire_len > rw_credit w then (Inl FlowControl, w)
      else (Inr (), w\<lparr>rw_credit := rw_credit w - wire_len\<rparr>))"

definition consume :: "recv_window \<Rightarrow> nat \<Rightarrow> string + u32 option \<times> recv_window" where
  "consume w bs =
     bind_res
       (ok_or
         (Option.bind (usize_checked_sub INITIAL_WINDOW (rw_credit w))
            (\<lambda>v. usize_checked_sub v (rw_unacked w)))
         ''receive-window accounting invariant'')
       (\<lambda>outstanding.
         if bs > outstanding then Inl ''cannot consume more bytes than were debited''
         else
           let unacked = rw_unacked w + bs in
           if unacked < RECEIVE_GRANT_THRESHOLD
           then Inr (None, w\<lparr>rw_unacked := unacked\<rparr>)
           else if unacked \<ge> 2 ^ 32 then Inl ''receive grant fits in the initial window''
           else Inr (Some (of_nat unacked),
                     w\<lparr>rw_credit := rw_credit w + unacked, rw_unacked := 0\<rparr>))"

subsection \<open>The contract\<close>

text \<open>
  What the users of a receive window (the response assembler, the carrier demultiplexer and
  the home's stream acceptor) rely on: bytes are outstanding from their debit to their
  consumption, consuming no more than is outstanding never panics, and credit comes back
  exactly as it is granted.
\<close>

locale flow_window =
  fixes fresh :: "'w"
    and debit_op :: "'w \<Rightarrow> nat \<Rightarrow> ('e + unit) \<times> 'w"
    and consume_op :: "'w \<Rightarrow> nat \<Rightarrow> string + u32 option \<times> 'w"
    and ok :: "'w \<Rightarrow> bool"
    and credit_of :: "'w \<Rightarrow> nat"
    and outstanding_of :: "'w \<Rightarrow> nat"
    and capacity :: nat
  assumes fresh_ok: "ok fresh" "credit_of fresh = capacity" "outstanding_of fresh = 0"
    and debit_fits: "ok w \<Longrightarrow> n \<le> credit_of w \<Longrightarrow>
      \<exists>w'. debit_op w n = (Inr (), w') \<and> ok w' \<and> credit_of w' = credit_of w - n
        \<and> outstanding_of w' = outstanding_of w + n"
    and debit_overrun: "credit_of w < n \<Longrightarrow> \<exists>e. debit_op w n = (Inl e, w)"
    and consume_fits: "ok w \<Longrightarrow> n \<le> outstanding_of w \<Longrightarrow>
      \<exists>g w'. consume_op w n = Inr (g, w') \<and> ok w' \<and> outstanding_of w' = outstanding_of w - n
        \<and> credit_of w' = credit_of w + (case g of None \<Rightarrow> 0 | Some k \<Rightarrow> unat k)"
    and half_open: "ok w \<Longrightarrow> outstanding_of w = 0 \<Longrightarrow> capacity < 2 * credit_of w"
    and bounded: "ok w \<Longrightarrow> credit_of w + outstanding_of w \<le> capacity"
begin

lemma debit_okD:
  assumes "ok w" and "debit_op w n = (Inr u, w')"
  shows "ok w' \<and> n \<le> credit_of w \<and> credit_of w' = credit_of w - n
    \<and> outstanding_of w' = outstanding_of w + n"
  using assms debit_fits [of w n] debit_overrun [of w n] by (cases "n \<le> credit_of w") auto

lemma debit_errD: "ok w \<Longrightarrow> debit_op w n = (Inl e, w') \<Longrightarrow> w' = w \<and> credit_of w < n"
  using debit_fits [of w n] debit_overrun [of w n] by (cases "n \<le> credit_of w") auto

text \<open>Bytes consumed as soon as they are debited: the one-shot assembler.\<close>

lemma debit_consume:
  assumes "ok w" and "debit_op w n = (Inr u, w')"
  shows "\<exists>g w''. consume_op w' n = Inr (g, w'') \<and> ok w'' \<and> outstanding_of w'' = outstanding_of w"
  using debit_okD [OF assms] consume_fits [of w' n] by fastforce

end

subsection \<open>The window meets its contract\<close>

definition outstanding :: "recv_window \<Rightarrow> nat" where
  "outstanding w = INITIAL_WINDOW - rw_credit w - rw_unacked w"

definition recv_ok :: "recv_window \<Rightarrow> bool" where
  "recv_ok w \<longleftrightarrow>
     rw_credit w + rw_unacked w \<le> INITIAL_WINDOW \<and> rw_unacked w < RECEIVE_GRANT_THRESHOLD"

lemma recv_new_ok: "recv_ok recv_new" "rw_credit recv_new = INITIAL_WINDOW" "outstanding recv_new = 0"
  by (simp_all add: recv_ok_def recv_new_def outstanding_def window_consts)

lemma debit_fits:
  "recv_ok w \<Longrightarrow> n \<le> rw_credit w \<Longrightarrow>
     \<exists>w'. debit w n = (Inr (), w') \<and> recv_ok w' \<and> rw_credit w' = rw_credit w - n
       \<and> outstanding w' = outstanding w + n"
  by (auto simp: recv_ok_def debit_def outstanding_def)

lemma consume_panics: "recv_ok w \<Longrightarrow> (\<exists>p. consume w n = Inl p) \<longleftrightarrow> outstanding w < n"
  by (auto simp: recv_ok_def consume_def outstanding_def window_consts usize_checked_sub_def
      bind_res_Inl_iff Let_def)

lemma consume_fits:
  assumes "recv_ok w" and "n \<le> outstanding w"
  shows "\<exists>g w'. consume w n = Inr (g, w') \<and> recv_ok w' \<and> outstanding w' = outstanding w - n
    \<and> rw_credit w' = rw_credit w + (case g of None \<Rightarrow> 0 | Some k \<Rightarrow> unat k)"
proof (cases "rw_unacked w + n < RECEIVE_GRANT_THRESHOLD")
  case True
  with assms show ?thesis
    by (auto simp: recv_ok_def consume_def outstanding_def usize_checked_sub_def)
next
  case False
  have "rw_unacked w + n < 2 ^ 32"
    using assms by (auto simp: recv_ok_def outstanding_def window_consts)
  with False assms show ?thesis
    by (auto simp: recv_ok_def consume_def outstanding_def usize_checked_sub_def unat_of_nat
        window_consts Let_def simp del: of_nat_add)
qed

interpretation rw: flow_window recv_new debit consume recv_ok rw_credit outstanding INITIAL_WINDOW
proof unfold_locales
  fix w :: recv_window and n
  show "rw_credit w < n \<Longrightarrow> \<exists>e. debit w n = (Inl e, w)" by (simp add: debit_def)
  show "recv_ok w \<Longrightarrow> outstanding w = 0 \<Longrightarrow> INITIAL_WINDOW < 2 * rw_credit w"
    by (simp add: recv_ok_def outstanding_def window_consts)
  show "recv_ok w \<Longrightarrow> rw_credit w + outstanding w \<le> INITIAL_WINDOW"
    by (simp add: recv_ok_def outstanding_def)
qed (simp_all add: recv_new_ok debit_fits consume_fits)

declare rw.fresh_ok [simp]

subsection \<open>Histories of a window\<close>

text \<open>
  Any sequence of debits and consumptions, with the totals of the bytes accepted, consumed
  and granted back. A rejected debit leaves the window as it is; a panic ends the history.
\<close>

datatype win_op = Debit nat | Consume nat

record win_totals =
  accepted :: nat
  consumed :: nat
  granted :: nat

definition no_totals :: win_totals where
  "no_totals = \<lparr>accepted = 0, consumed = 0, granted = 0\<rparr>"

fun window_run :: "recv_window \<Rightarrow> win_totals \<Rightarrow> win_op list \<Rightarrow> string + recv_window \<times> win_totals" where
  "window_run w t [] = Inr (w, t)"
| "window_run w t (Debit n # ops) =
     (case debit w n of
        (Inl e, w') \<Rightarrow> window_run w' t ops
      | (Inr u, w') \<Rightarrow> window_run w' (t\<lparr>accepted := accepted t + n\<rparr>) ops)"
| "window_run w t (Consume n # ops) =
     (case consume w n of
        Inl p \<Rightarrow> Inl p
      | Inr (g, w') \<Rightarrow>
          window_run w' (t\<lparr>consumed := consumed t + n,
            granted := granted t + (case g of None \<Rightarrow> 0 | Some k \<Rightarrow> unat k)\<rparr>) ops)"

definition win_inv :: "recv_window \<Rightarrow> win_totals \<Rightarrow> bool" where
  "win_inv w t \<longleftrightarrow> recv_ok w \<and> accepted t = consumed t + outstanding w
     \<and> rw_credit w + accepted t = INITIAL_WINDOW + granted t"

lemma window_run_inv: "window_run w t ops = Inr (w', t') \<Longrightarrow> win_inv w t \<Longrightarrow> win_inv w' t'"
proof (induction w t ops rule: window_run.induct)
  case (2 w t n ops)
  then show ?case
    using rw.debit_okD [of w n] rw.debit_errD [of w n]
    by (auto simp: win_inv_def add.assoc split: prod.splits sum.splits)
next
  case (3 w t n ops)
  then obtain g w1 where c: "consume w n = Inr (g, w1)" by (auto split: sum.splits)
  with 3 have "n \<le> outstanding w" using consume_panics [of w n] by (fastforce simp: win_inv_def)
  with 3 c have "win_inv w1 (t\<lparr>consumed := consumed t + n,
      granted := granted t + (case g of None \<Rightarrow> 0 | Some k \<Rightarrow> unat k)\<rparr>)"
    using consume_fits [of w n] by (auto simp: win_inv_def)
  with 3 c show ?case by auto
qed simp

text \<open>
  C25. Credit is never lost, invented or stuck. After any history of debits and
  consumptions from a new window: the bytes accepted never exceed the initial window plus
  what was granted back (credit is the difference), a further \<open>consume(n)\<close> panics exactly
  when fewer than \<open>n\<close> accepted bytes are unconsumed, and once everything accepted has been
  consumed the peer may send more than half a window, so it is never left waiting for a
  grant.
\<close>

theorem recv_window_accounting:
  assumes "window_run recv_new no_totals ops = Inr (w, t)"
  shows "rw_credit w + accepted t = INITIAL_WINDOW + granted t
    \<and> (\<forall>n. (\<exists>p. consume w n = Inl p) \<longleftrightarrow> accepted t < consumed t + n)
    \<and> (consumed t = accepted t \<longrightarrow> INITIAL_WINDOW < 2 * rw_credit w)"
proof -
  have "win_inv recv_new no_totals" by (simp add: win_inv_def no_totals_def)
  with assms have inv: "win_inv w t" by (rule window_run_inv)
  then have "(\<exists>p. consume w n = Inl p) \<longleftrightarrow> accepted t < consumed t + n" for n
    using consume_panics [of w n] by (auto simp: win_inv_def)
  with inv rw.half_open [of w] show ?thesis by (auto simp: win_inv_def)
qed

theorem recv_window_accounting_witness:
  "\<exists>w t. window_run recv_new no_totals [Debit 600000, Consume 600000, Debit 1048577] = Inr (w, t)
     \<and> rw_credit w = INITIAL_WINDOW \<and> granted t = 600000 \<and> INITIAL_WINDOW < 2 * rw_credit w
     \<and> (\<exists>p. consume w 1 = Inl p)"
proof -
  let ?w = "\<lparr>rw_credit = 1048576, rw_unacked = 0\<rparr>"
  let ?t = "\<lparr>accepted = 600000, consumed = 600000, granted = 600000\<rparr>"
  have run: "window_run recv_new no_totals [Debit 600000, Consume 600000, Debit 1048577] = Inr (?w, ?t)"
    by (simp add: recv_new_def no_totals_def debit_def consume_def usize_checked_sub_def window_consts)
  from recv_window_accounting [OF run] run show ?thesis by (auto simp: window_consts)
qed

end
