(* ===== verification/Spl_Upload.thy ===== *)
theory Spl_Upload
  imports Spl_Recv_Window
begin

text \<open>
  Send-side flow control of one dialer stream, \<open>WindowedUpload\<close> of
  \<open>crates/spl-core/src/mux.rs\<close>: a request head and an incrementally fed body are cut into
  frames no larger than the credit that the peer has granted. The \<open>usize\<close> subtractions of
  the source are natural-number subtractions here; the invariant \<open>upload_ok\<close> shows that none
  of them underflows.
\<close>

subsection \<open>The upload\<close>

definition UPLOAD_BODY_STAGE_CAPACITY :: nat where
  "UPLOAD_BODY_STAGE_CAPACITY = 256 * 1024"

definition I32_MAX :: nat where "I32_MAX = 2 ^ 31 - 1"

datatype upload_body_error = DeclaredLengthExceeded | StageCapacityExceeded

record windowed_upload =
  up_stream_id :: u32
  up_head :: bytes
  head_offset :: nat
  up_body :: bytes
  declared_body_len :: nat
  fed_body_len :: nat
  up_emitted_body_len :: nat
  send_credit :: nat
  up_opened :: bool
  up_closed :: bool

definition upload_new :: "u32 \<Rightarrow> bytes \<Rightarrow> nat \<Rightarrow> windowed_upload" where
  "upload_new sid request_head declared =
     \<lparr>up_stream_id = sid, up_head = request_head, head_offset = 0, up_body = [],
      declared_body_len = declared, fed_body_len = 0, up_emitted_body_len = 0,
      send_credit = INITIAL_WINDOW, up_opened = False, up_closed = False\<rparr>"

definition body_capacity :: "windowed_upload \<Rightarrow> nat" where
  "body_capacity u =
     min (UPLOAD_BODY_STAGE_CAPACITY - length (up_body u)) (declared_body_len u - fed_body_len u)"

definition upload_feed_body :: "windowed_upload \<Rightarrow> bytes \<Rightarrow> (upload_body_error + unit) \<times> windowed_upload" where
  "upload_feed_body u bs =
     (if length bs > declared_body_len u - fed_body_len u then (Inl DeclaredLengthExceeded, u)
      else if length bs > UPLOAD_BODY_STAGE_CAPACITY - length (up_body u)
      then (Inl StageCapacityExceeded, u)
      else (Inr (), u\<lparr>up_body := up_body u @ bs, fed_body_len := fed_body_len u + length bs\<rparr>))"

definition emitted_body_len :: "windowed_upload \<Rightarrow> nat" where
  "emitted_body_len u = up_emitted_body_len u"

definition grant :: "windowed_upload \<Rightarrow> u32 \<Rightarrow> (frame_violation + unit) \<times> windowed_upload" where
  "grant u credit =
     (let violation = \<lparr>fv_stream_id = up_stream_id u, fv_flags = FLAG_WINDOW, fv_length = 4\<rparr> in
      case usize_checked_add (send_credit u) (unat credit) of
        None \<Rightarrow> (Inl violation, u)
      | Some next \<Rightarrow>
          (if next > I32_MAX then (Inl violation, u) else (Inr (), u\<lparr>send_credit := next\<rparr>)))"

definition poll_send :: "windowed_upload \<Rightarrow> (frame_error + bytes option) \<times> windowed_upload" where
  "poll_send u =
     (let head_remaining = length (up_head u) - head_offset u;
          available = (if head_remaining > 0 then head_remaining else length (up_body u))
      in
      if available > 0 then
        (if send_credit u = 0 then (Inr None, u)
         else
           let n = min (min (min available RECOMMENDED_CHUNK) MAX_PAYLOAD) (send_credit u);
               (chunk, u1) =
                 (if head_remaining > 0
                  then (take n (drop (head_offset u) (up_head u)),
                        u\<lparr>head_offset := head_offset u + n\<rparr>)
                  else (take n (up_body u),
                        u\<lparr>up_body := drop n (up_body u),
                          up_emitted_body_len := up_emitted_body_len u + n\<rparr>));
               fl = (if up_opened u1 then FLAG_DATA else FLAG_OPEN OR FLAG_DATA);
               u2 = u1\<lparr>up_opened := True, send_credit := send_credit u1 - n\<rparr>
           in (map_sum id Some (encode (frame_new (up_stream_id u2) fl chunk)), u2))
      else if \<not> up_closed u \<and> fed_body_len u = declared_body_len u
              \<and> up_emitted_body_len u = declared_body_len u
      then (map_sum id Some (encode (frame_new (up_stream_id u) FLAG_CLOSE [])),
            u\<lparr>up_closed := True\<rparr>)
      else (Inr None, u))"

definition is_done :: "windowed_upload \<Rightarrow> bool" where
  "is_done u \<longleftrightarrow> up_closed u"

definition is_blocked :: "windowed_upload \<Rightarrow> bool" where
  "is_blocked u \<longleftrightarrow> \<not> up_closed u \<and> send_credit u = 0
     \<and> (head_offset u < length (up_head u) \<or> up_body u \<noteq> [])"

subsection \<open>Invariant and behaviour of each operation\<close>

definition pending :: "windowed_upload \<Rightarrow> bytes" where
  "pending u = drop (head_offset u) (up_head u) @ up_body u"

definition upload_ok :: "windowed_upload \<Rightarrow> bool" where
  "upload_ok u \<longleftrightarrow>
     head_offset u \<le> length (up_head u)
     \<and> fed_body_len u = up_emitted_body_len u + length (up_body u)
     \<and> fed_body_len u \<le> declared_body_len u
     \<and> length (up_body u) \<le> UPLOAD_BODY_STAGE_CAPACITY
     \<and> send_credit u \<le> I32_MAX
     \<and> (up_closed u \<longrightarrow> pending u = [] \<and> fed_body_len u = declared_body_len u)"

lemma upload_new_ok [inv_intros]: "upload_ok (upload_new sid h n)"
  by (simp add: upload_ok_def upload_new_def I32_MAX_def INITIAL_WINDOW_def)

text \<open>A body is accepted exactly when it fits into the free capacity; an error changes nothing.\<close>

lemma feed_body_iff:
  "fst (upload_feed_body u bs) = Inr () \<longleftrightarrow> length bs \<le> body_capacity u"
  by (simp add: upload_feed_body_def body_capacity_def)

lemma feed_body_error: "upload_feed_body u bs = (Inl e, u') \<Longrightarrow> u' = u"
  by (auto simp: upload_feed_body_def split: if_splits)

lemma feed_body_ok:
  assumes "upload_ok u" and "upload_feed_body u bs = (Inr x, u')"
  shows "upload_ok u' \<and> pending u' = pending u @ bs \<and> fed_body_len u' = fed_body_len u + length bs
    \<and> send_credit u' = send_credit u \<and> up_stream_id u' = up_stream_id u \<and> up_head u' = up_head u
    \<and> declared_body_len u' = declared_body_len u
    \<and> up_opened u' = up_opened u \<and> up_closed u' = up_closed u"
  using assms by (auto simp: upload_feed_body_def upload_ok_def pending_def split: if_splits)

lemma grant_error: "grant u k = (Inl e, u') \<Longrightarrow> u' = u"
  by (auto simp: grant_def Let_def split: option.splits if_splits)

lemma grant_ok:
  assumes "upload_ok u" and "grant u k = (Inr x, u')"
  shows "upload_ok u' \<and> u' = u\<lparr>send_credit := send_credit u + unat k\<rparr>"
  using assms
  by (auto simp: grant_def upload_ok_def pending_def Let_def split: option.splits if_splits)

lemma chunk_limits: "RECOMMENDED_CHUNK \<le> MAX_PAYLOAD" "0 < RECOMMENDED_CHUNK"
  by (simp_all add: RECOMMENDED_CHUNK_def MAX_PAYLOAD_def)

lemma poll_data:
  assumes "upload_ok u" and "pending u \<noteq> []" and "0 < send_credit u"
  obtains c u' where
    "poll_send u =
       (Inr (Some (wire (frame_new (up_stream_id u) (if up_opened u then FLAG_DATA else FLAG_OPEN OR FLAG_DATA) c))), u')"
    "pending u = c @ pending u'" "c \<noteq> []" "length c \<le> RECOMMENDED_CHUNK" "length c \<le> send_credit u"
    "upload_ok u'" "send_credit u' = send_credit u - length c" "up_opened u'"
    "up_closed u' = up_closed u" "up_stream_id u' = up_stream_id u" "up_head u' = up_head u"
    "fed_body_len u' = fed_body_len u" "declared_body_len u' = declared_body_len u"
proof -
  let ?f = "\<lambda>c. frame_new (up_stream_id u) (if up_opened u then FLAG_DATA else FLAG_OPEN OR FLAG_DATA) c"
  have enc: "encode (?f c) = Inr (wire (?f c))" if "length c \<le> RECOMMENDED_CHUNK" for c
    using that chunk_limits by (intro encode_wire) simp
  have open': "\<not> up_closed u" using assms by (auto simp: upload_ok_def)
  define n where "n = (\<lambda>available. min (min (min available RECOMMENDED_CHUNK) MAX_PAYLOAD) (send_credit u))"
  have n: "n k \<le> k" "n k \<le> RECOMMENDED_CHUNK" "n k \<le> send_credit u" "0 < k \<Longrightarrow> 0 < n k" for k
    using assms(3) chunk_limits by (simp_all add: n_def)
  have n_eq: "min (min (min k RECOMMENDED_CHUNK) MAX_PAYLOAD) (send_credit u) = n k" for k
    by (simp add: n_def)
  show thesis
  proof (cases "head_offset u < length (up_head u)")
    case True
    let ?k = "length (up_head u) - head_offset u"
    let ?c = "take (n ?k) (drop (head_offset u) (up_head u))"
    let ?u = "u\<lparr>head_offset := head_offset u + n ?k, up_opened := True, send_credit := send_credit u - n ?k\<rparr>"
    have len: "length ?c = n ?k" using n(1) [of ?k] by simp
    show thesis
    proof (rule that [of ?c ?u])
      show "poll_send u = (Inr (Some (wire (?f ?c))), ?u)"
        using True assms(3) enc [of ?c] n(2) [of ?k] len by (simp add: poll_send_def Let_def n_eq)
      show "pending u = ?c @ pending ?u"
        by (simp add: pending_def) (metis append_take_drop_id drop_drop add.commute)
      show "?c \<noteq> []" using True n(4) [of ?k] by simp
      show "upload_ok ?u" using assms(1) open' True n(1) [of ?k] by (auto simp: upload_ok_def)
    qed (use n len in simp_all)
  next
    case False
    let ?k = "length (up_body u)"
    let ?c = "take (n ?k) (up_body u)"
    let ?u = "u\<lparr>up_body := drop (n ?k) (up_body u), up_emitted_body_len := up_emitted_body_len u + n ?k,
      up_opened := True, send_credit := send_credit u - n ?k\<rparr>"
    have len: "length ?c = n ?k" using n(1) [of ?k] by simp
    have body: "up_body u \<noteq> []" using False assms(1,2) by (auto simp: pending_def upload_ok_def)
    show thesis
    proof (rule that [of ?c ?u])
      show "poll_send u = (Inr (Some (wire (?f ?c))), ?u)"
        using False body assms(3) enc [of ?c] n(2) [of ?k] len by (simp add: poll_send_def Let_def n_eq)
      show "pending u = ?c @ pending ?u"
        using False by (simp add: pending_def)
      show "?c \<noteq> []" using body n(4) [of ?k] by simp
      show "upload_ok ?u" using assms(1) open' False n(1) [of ?k] by (auto simp: upload_ok_def)
    qed (use n len in simp_all)
  qed
qed

lemma poll_blocked: "pending u \<noteq> [] \<Longrightarrow> send_credit u = 0 \<Longrightarrow> poll_send u = (Inr None, u)"
  by (simp add: poll_send_def pending_def Let_def)

lemma poll_end:
  assumes "upload_ok u" and "pending u = []"
  shows "poll_send u =
    (if \<not> up_closed u \<and> fed_body_len u = declared_body_len u
     then (Inr (Some (wire (frame_new (up_stream_id u) FLAG_CLOSE []))), u\<lparr>up_closed := True\<rparr>)
     else (Inr None, u))"
  using assms by (auto simp: poll_send_def pending_def upload_ok_def Let_def)

subsection \<open>Histories of an upload\<close>

text \<open>
  Any interleaving of the three operations, with what went over the wire, the body bytes
  accepted and the credit accepted so far.
\<close>

datatype upload_op = Poll | FeedBody bytes | Grant u32

record upload_trace =
  sent :: "bytes list"
  supplied :: bytes
  credited :: nat

definition no_trace :: upload_trace where
  "no_trace = \<lparr>sent = [], supplied = [], credited = 0\<rparr>"

fun upload_step :: "upload_op \<Rightarrow> windowed_upload \<times> upload_trace \<Rightarrow> windowed_upload \<times> upload_trace" where
  "upload_step Poll (u, t) =
     (case poll_send u of
        (Inr (Some b), u') \<Rightarrow> (u', t\<lparr>sent := sent t @ [b]\<rparr>)
      | (_, u') \<Rightarrow> (u', t))"
| "upload_step (FeedBody bs) (u, t) =
     (case upload_feed_body u bs of
        (Inr x, u') \<Rightarrow> (u', t\<lparr>supplied := supplied t @ bs\<rparr>)
      | (Inl e, u') \<Rightarrow> (u', t))"
| "upload_step (Grant k) (u, t) =
     (case grant u k of
        (Inr x, u') \<Rightarrow> (u', t\<lparr>credited := credited t + unat k\<rparr>)
      | (Inl e, u') \<Rightarrow> (u', t))"

definition upload_run :: "windowed_upload \<Rightarrow> upload_op list \<Rightarrow> windowed_upload \<times> upload_trace" where
  "upload_run u ops = fold upload_step ops (u, no_trace)"

text \<open>The frames of a stream that carries the given chunks: one OPEN, then DATA, then CLOSE.\<close>

definition upload_frames :: "u32 \<Rightarrow> bytes list \<Rightarrow> bool \<Rightarrow> frame list" where
  "upload_frames sid cs fin =
     (case cs of
        [] \<Rightarrow> []
      | c # cs' \<Rightarrow> frame_new sid (FLAG_OPEN OR FLAG_DATA) c # map (frame_new sid FLAG_DATA) cs')
     @ (if fin then [frame_new sid FLAG_CLOSE []] else [])"

lemma upload_frames_snoc:
  "upload_frames sid (cs @ [c]) False =
     upload_frames sid cs False
     @ [frame_new sid (if cs = [] then FLAG_OPEN OR FLAG_DATA else FLAG_DATA) c]"
  by (simp add: upload_frames_def split: list.split)

lemma upload_frames_start [simp]:
  "upload_frames sid [] False = []"
  "upload_frames sid [c] False = [frame_new sid (FLAG_OPEN OR FLAG_DATA) c]"
  by (simp_all add: upload_frames_def)

lemma upload_frames_close:
  "upload_frames sid cs True = upload_frames sid cs False @ [frame_new sid FLAG_CLOSE []]"
  by (simp add: upload_frames_def)

definition upload_inv :: "u32 \<Rightarrow> bytes \<Rightarrow> nat \<Rightarrow> windowed_upload \<times> upload_trace \<Rightarrow> bool" where
  "upload_inv sid h n = (\<lambda>(u, t).
     upload_ok u \<and> up_stream_id u = sid \<and> up_head u = h \<and> declared_body_len u = n
     \<and> fed_body_len u = length (supplied t)
     \<and> (\<exists>cs. sent t = map wire (upload_frames sid cs (up_closed u))
          \<and> (\<forall>c\<in>set cs. c \<noteq> [] \<and> length c \<le> RECOMMENDED_CHUNK)
          \<and> concat cs @ pending u = h @ supplied t
          \<and> send_credit u + length (concat cs) = INITIAL_WINDOW + credited t
          \<and> (up_opened u \<longleftrightarrow> cs \<noteq> [])))"

lemma upload_invI:
  assumes "upload_ok u" "up_stream_id u = sid" "up_head u = h" "declared_body_len u = n"
    "fed_body_len u = length (supplied t)"
    and "sent t = map wire (upload_frames sid cs (up_closed u))"
    and "\<And>c. c \<in> set cs \<Longrightarrow> c \<noteq> [] \<and> length c \<le> RECOMMENDED_CHUNK"
    and "concat cs @ pending u = h @ supplied t"
    and "send_credit u + length (concat cs) = INITIAL_WINDOW + credited t"
    and "up_opened u \<longleftrightarrow> cs \<noteq> []"
  shows "upload_inv sid h n (u, t)"
  unfolding upload_inv_def prod.case using assms by blast

lemma upload_invE:
  assumes "upload_inv sid h n (u, t)"
  obtains cs where "upload_ok u" "up_stream_id u = sid" "up_head u = h" "declared_body_len u = n"
    "fed_body_len u = length (supplied t)"
    and "sent t = map wire (upload_frames sid cs (up_closed u))"
    and "\<And>c. c \<in> set cs \<Longrightarrow> c \<noteq> [] \<and> length c \<le> RECOMMENDED_CHUNK"
    and "concat cs @ pending u = h @ supplied t"
    and "send_credit u + length (concat cs) = INITIAL_WINDOW + credited t"
    and "up_opened u \<longleftrightarrow> cs \<noteq> []"
  using assms that unfolding upload_inv_def prod.case by blast

lemma upload_inv_new: "upload_inv sid h n (upload_new sid h n, no_trace)"
  by (rule upload_invI [where cs = "[]"], rule upload_new_ok)
    (simp_all add: upload_new_def no_trace_def pending_def)

lemma upload_inv_data:
  assumes inv: "upload_inv sid h n (u, t)" and "pending u \<noteq> []" and "0 < send_credit u"
  shows "upload_inv sid h n (upload_step Poll (u, t))"
  using inv
proof (rule upload_invE)
  fix cs
  assume ok: "upload_ok u" and u: "up_stream_id u = sid" "up_head u = h" "declared_body_len u = n"
      "fed_body_len u = length (supplied t)"
    and cs: "sent t = map wire (upload_frames sid cs (up_closed u))"
      "\<And>c. c \<in> set cs \<Longrightarrow> c \<noteq> [] \<and> length c \<le> RECOMMENDED_CHUNK"
      "concat cs @ pending u = h @ supplied t"
      "send_credit u + length (concat cs) = INITIAL_WINDOW + credited t"
      "up_opened u \<longleftrightarrow> cs \<noteq> []"
  have "\<not> up_closed u" using ok assms(2) by (auto simp: upload_ok_def)
  from ok assms(2,3) show ?thesis
  proof (rule poll_data)
    fix c u'
    let ?b = "wire (frame_new (up_stream_id u) (if up_opened u then FLAG_DATA else FLAG_OPEN OR FLAG_DATA) c)"
    assume poll: "poll_send u = (Inr (Some ?b), u')"
      and c: "pending u = c @ pending u'" "c \<noteq> []" "length c \<le> RECOMMENDED_CHUNK" "length c \<le> send_credit u"
      and u': "upload_ok u'" "send_credit u' = send_credit u - length c" "up_opened u'"
      "up_closed u' = up_closed u" "up_stream_id u' = up_stream_id u" "up_head u' = up_head u"
      "fed_body_len u' = fed_body_len u" "declared_body_len u' = declared_body_len u"
    have "upload_inv sid h n (u', t\<lparr>sent := sent t @ [?b]\<rparr>)"
    proof (rule upload_invI [where cs = "cs @ [c]"])
      show "sent (t\<lparr>sent := sent t @ [?b]\<rparr>) = map wire (upload_frames sid (cs @ [c]) (up_closed u'))"
        using cs(1,5) u' u(1) \<open>\<not> up_closed u\<close> by (simp add: upload_frames_snoc)
      show "x \<noteq> [] \<and> length x \<le> RECOMMENDED_CHUNK" if "x \<in> set (cs @ [c])" for x
        using that cs(2) c by auto
    qed (use cs(3,4) c u u' in simp_all)
    then show ?thesis by (simp add: poll)
  qed
qed

lemma upload_inv_feed:
  assumes "upload_inv sid h n (u, t)"
  shows "upload_inv sid h n (upload_step (FeedBody bs) (u, t))"
proof (cases "upload_feed_body u bs")
  case (Pair r u')
  show ?thesis
  proof (cases r)
    case (Inl e)
    with Pair have "u' = u" by (simp add: feed_body_error)
    with Inl Pair assms show ?thesis by simp
  next
    case (Inr x)
    with Pair assms feed_body_ok [of u bs x u'] show ?thesis
      by (simp add: upload_inv_def)
  qed
qed

lemma upload_inv_grant:
  assumes "upload_inv sid h n (u, t)"
  shows "upload_inv sid h n (upload_step (Grant k) (u, t))"
proof (cases "grant u k")
  case (Pair r u')
  show ?thesis
  proof (cases r)
    case (Inl e)
    with Pair have "u' = u" by (simp add: grant_error)
    with Inl Pair assms show ?thesis by simp
  next
    case (Inr x)
    with Pair assms grant_ok [of u k x u'] show ?thesis
      by (auto simp: upload_inv_def pending_def)
  qed
qed

lemma upload_inv_poll:
  assumes "upload_inv sid h n (u, t)"
  shows "upload_inv sid h n (upload_step Poll (u, t))"
proof (cases "pending u = []")
  case True
  from assms obtain cs where cs: "sent t = map wire (upload_frames sid cs (up_closed u))"
    "\<forall>c\<in>set cs. c \<noteq> [] \<and> length c \<le> RECOMMENDED_CHUNK" "concat cs @ pending u = h @ supplied t"
    "send_credit u + length (concat cs) = INITIAL_WINDOW + credited t" "up_opened u \<longleftrightarrow> cs \<noteq> []"
    and u: "upload_ok u" "up_stream_id u = sid" "up_head u = h" "declared_body_len u = n"
      "fed_body_len u = length (supplied t)"
    by (auto simp: upload_inv_def)
  show ?thesis
  proof (cases "\<not> up_closed u \<and> fed_body_len u = declared_body_len u")
    case close: True
    have "upload_ok (u\<lparr>up_closed := True\<rparr>)" using u(1) True close by (simp add: upload_ok_def pending_def)
    moreover have "pending (u\<lparr>up_closed := True\<rparr>) = pending u" by (simp add: pending_def)
    ultimately show ?thesis
      using cs u True close by (auto simp: upload_inv_def poll_end upload_frames_close)
  next
    case False
    with assms True u(1) show ?thesis by (auto simp: poll_end)
  qed
next
  case False
  with assms upload_inv_data show ?thesis
    by (cases "send_credit u = 0") (auto simp: poll_blocked)
qed

lemma upload_inv_step: "upload_inv sid h n s \<Longrightarrow> upload_inv sid h n (upload_step op s)"
  by (cases s; cases op) (auto simp del: upload_step.simps
    intro: upload_inv_poll upload_inv_feed upload_inv_grant)

lemma upload_inv_fold: "upload_inv sid h n s \<Longrightarrow> upload_inv sid h n (fold upload_step ops s)"
  by (induction ops arbitrary: s) (simp_all add: upload_inv_step)

lemma upload_inv_run: "upload_run (upload_new sid h n) ops = s \<Longrightarrow> upload_inv sid h n s"
  unfolding upload_run_def using upload_inv_fold [OF upload_inv_new] by blast

subsection \<open>Progress\<close>

lemma done_stays: "upload_ok u \<Longrightarrow> is_done u \<Longrightarrow> upload_step Poll (u, t) = (u, t)"
  by (simp add: is_done_def poll_end upload_ok_def)

lemma done_polls: "upload_ok u \<Longrightarrow> is_done u \<Longrightarrow> fold upload_step (replicate k Poll) (u, t) = (u, t)"
  by (induction k) (simp_all add: done_stays del: upload_step.simps)

lemma polls_finish:
  assumes "upload_ok u" and "fed_body_len u = declared_body_len u"
    and "length (pending u) \<le> send_credit u" and "length (pending u) < k"
  shows "is_done (fst (fold upload_step (replicate k Poll) (u, t)))"
  using assms
proof (induction "length (pending u)" arbitrary: u t k rule: less_induct)
  case less
  obtain k' where k: "k = Suc k'" using less.prems(4) by (cases k) auto
  show ?case
  proof (cases "pending u = []")
    case True
    let ?u = "u\<lparr>up_closed := True\<rparr>"
    have "upload_ok ?u" using less.prems True by (simp add: upload_ok_def pending_def)
    then have "is_done (fst (fold upload_step (replicate k' Poll) (?u, t')))" for t'
      by (subst done_polls) (simp_all add: is_done_def)
    moreover have "\<exists>t'. upload_step Poll (u, t) = (?u, t')" if "\<not> up_closed u"
      using that less.prems True by (simp add: poll_end)
    moreover have "is_done (fst (fold upload_step (replicate k Poll) (u, t)))" if "up_closed u"
      using that less.prems(1) by (subst done_polls) (simp_all add: is_done_def)
    ultimately show ?thesis unfolding k by force
  next
    case False
    with less.prems(3) have "0 < send_credit u" by (cases "pending u") auto
    with less.prems(1) False show ?thesis
    proof (rule poll_data)
      fix c u'
      assume p: "poll_send u = (Inr (Some (wire (frame_new (up_stream_id u)
          (if up_opened u then FLAG_DATA else FLAG_OPEN OR FLAG_DATA) c))), u')"
        and c: "pending u = c @ pending u'" "c \<noteq> []" "length c \<le> send_credit u"
        and u': "upload_ok u'" "send_credit u' = send_credit u - length c"
          "fed_body_len u' = fed_body_len u" "declared_body_len u' = declared_body_len u"
      have "length (pending u') < length (pending u)" "length (pending u') < k'"
        using c less.prems(4) k by (simp_all add: neq_Nil_conv) auto
      moreover have "length (pending u') \<le> send_credit u'" using less.prems(3) c u' by simp
      ultimately have "is_done (fst (fold upload_step (replicate k' Poll) (u', t')))" for t'
        using less.hyps less.prems(2) u' by simp
      with p k show ?thesis by simp
    qed
  qed
qed

subsection \<open>Properties of the upload\<close>

text \<open>
  C10. What an upload puts on the wire, in any interleaving of polls, body feeds and
  grants: one OPEN|DATA frame, DATA frames, and a CLOSE exactly when the upload is done,
  each carrying between 1 and 65536 bytes; their payloads, in order, are a prefix of the
  head followed by the accepted body, and all of it, with the declared length, once done;
  and the bytes sent plus the remaining credit are the initial window plus the accepted
  grants, so the peer's window is never overrun.
\<close>

theorem upload_sends_request:
  assumes "upload_run (upload_new sid h n) ops = (u, t)"
  shows "\<exists>cs. sent t = map wire (upload_frames sid cs (is_done u))
    \<and> (\<forall>c\<in>set cs. 0 < length c \<and> length c \<le> RECOMMENDED_CHUNK)
    \<and> concat cs = take (length (concat cs)) (h @ supplied t)
    \<and> length (concat cs) + send_credit u = INITIAL_WINDOW + credited t
    \<and> (is_done u \<longrightarrow> concat cs = h @ supplied t \<and> length (supplied t) = n)"
  using upload_inv_run [OF assms]
proof (rule upload_invE)
  fix cs
  assume u: "upload_ok u" "declared_body_len u = n" "fed_body_len u = length (supplied t)"
    and cs: "sent t = map wire (upload_frames sid cs (up_closed u))"
      "\<And>c. c \<in> set cs \<Longrightarrow> c \<noteq> [] \<and> length c \<le> RECOMMENDED_CHUNK"
      "concat cs @ pending u = h @ supplied t"
      "send_credit u + length (concat cs) = INITIAL_WINDOW + credited t"
  have "concat cs = take (length (concat cs)) (h @ supplied t)" by (simp flip: cs(3))
  moreover have "is_done u \<longrightarrow> concat cs = h @ supplied t \<and> length (supplied t) = n"
    using u cs(3) by (auto simp: is_done_def upload_ok_def)
  ultimately show ?thesis using cs by (intro exI [of _ cs]) (auto simp: is_done_def)
qed

theorem upload_sends_request_witness:
  "\<exists>u t. upload_run (upload_new 1 [1, 2] 1) [Poll, FeedBody [3], Poll, Poll] = (u, t) \<and> is_done u
     \<and> (\<exists>cs. sent t = map wire (upload_frames 1 cs True) \<and> concat cs = [1, 2, 3])"
proof -
  obtain u t where ut: "upload_run (upload_new 1 [1, 2] 1) [Poll, FeedBody [3], Poll, Poll] = (u, t)"
    by fastforce
  moreover from ut have "is_done u \<and> supplied t = [3]"
    by (simp add: upload_run_def upload_new_def no_trace_def poll_send_def Let_def upload_feed_body_def
        encode_wire is_done_def UPLOAD_BODY_STAGE_CAPACITY_def RECOMMENDED_CHUNK_def MAX_PAYLOAD_def
        INITIAL_WINDOW_def) auto
  ultimately show ?thesis using upload_sends_request [OF ut] by auto
qed

text \<open>
  C13. An upload always completes: once the whole declared body has been accepted and the
  peer has granted credit for head and body, polling drains everything and emits the CLOSE
  within as many polls as there are bytes, plus one.
\<close>

theorem upload_completes:
  assumes "upload_run (upload_new sid h n) ops = (u, t)" and "length (supplied t) = n"
    and "length h + n \<le> INITIAL_WINDOW + credited t"
  shows "is_done (fst (upload_run (upload_new sid h n) (ops @ replicate (length h + n + 1) Poll)))"
  using upload_inv_run [OF assms(1)]
proof (rule upload_invE)
  fix cs
  assume u: "upload_ok u" "declared_body_len u = n" "fed_body_len u = length (supplied t)"
    and cs: "concat cs @ pending u = h @ supplied t"
      "send_credit u + length (concat cs) = INITIAL_WINDOW + credited t"
  from cs(1) have "length (concat cs) + length (pending u) = length h + n"
    using assms(2) by (metis length_append)
  with cs(2) assms(3) have "length (pending u) \<le> send_credit u" "length (pending u) < length h + n + 1"
    by linarith+
  with u assms(2) have "is_done (fst (fold upload_step (replicate (length h + n + 1) Poll) (u, t)))"
    by (intro polls_finish) simp_all
  with assms(1) show ?thesis by (simp add: upload_run_def)
qed

theorem upload_completes_witness:
  "is_done (fst (upload_run (upload_new 1 [1, 2] 1) ([FeedBody [3]] @ replicate (length [1::u8, 2] + 1 + 1) Poll)))"
  using upload_completes [of 1 "[1, 2]" 1 "[FeedBody [3]]"]
  by (simp add: upload_run_def upload_new_def no_trace_def upload_feed_body_def
      UPLOAD_BODY_STAGE_CAPACITY_def INITIAL_WINDOW_def)

text \<open>
  Body bytes are accepted exactly when they fit into \<open>body_capacity\<close>, a refusal names
  the declared length when that is what they exceed, and a refused feed, like a refused
  grant, leaves the upload unchanged; a grant is refused exactly when it would raise the
  credit above 2^31 - 1.
\<close>

theorem upload_refusals:
  "(fst (upload_feed_body u bs) = Inr () \<longleftrightarrow> length bs \<le> body_capacity u)
   \<and> (fst (upload_feed_body u bs) = Inl DeclaredLengthExceeded
        \<longleftrightarrow> declared_body_len u - fed_body_len u < length bs)
   \<and> (fst (upload_feed_body u bs) \<noteq> Inr () \<longrightarrow> snd (upload_feed_body u bs) = u)
   \<and> (fst (grant u k) = Inr () \<longleftrightarrow> send_credit u + unat k \<le> I32_MAX)
   \<and> (fst (grant u k) \<noteq> Inr () \<longrightarrow> snd (grant u k) = u)"
  by (auto simp: upload_feed_body_def body_capacity_def grant_def Let_def I32_MAX_def
      usize_checked_add_def)

theorem upload_refusals_witness:
  "fst (upload_feed_body (upload_new 1 [1] 1) [2, 3]) = Inl DeclaredLengthExceeded
   \<and> snd (upload_feed_body (upload_new 1 [1] 1) [2, 3]) = upload_new 1 [1] 1
   \<and> snd (grant (upload_new 1 [1] 1) 0xFFFFFFFF) = upload_new 1 [1] 1"
proof -
  have "declared_body_len (upload_new 1 [1] 1) - fed_body_len (upload_new 1 [1] 1) < length [2 :: u8, 3]"
    and "\<not> send_credit (upload_new 1 [1] 1) + unat (0xFFFFFFFF :: u32) \<le> I32_MAX"
    by (simp_all add: upload_new_def I32_MAX_def)
  with upload_refusals [of "upload_new 1 [1] 1" "[2, 3]" "0xFFFFFFFF"] show ?thesis by auto
qed

end
