(* ===== verification/Spl_Response.thy ===== *)
theory Spl_Response
  imports Spl_Recv_Window
begin

text \<open>
  Reassembly of one response, \<open>ResponseAssembler\<close> of \<open>crates/spl-core/src/mux.rs\<close>: the frames
  of one dialer stream are collected into an HTTP response while the receive window, control
  pings and the peer's grants are served. The loop of \<open>feed\<close> is \<open>assembler_loop\<close>, its body
  \<open>assembler_frame\<close>; the boolean of a step says whether the loop goes on (\<open>False\<close> is \<open>break\<close>).
\<close>

subsection \<open>The assembler\<close>

record feed_output =
  fo_pongs :: "bytes list"
  fo_window_grants :: "u32 list"
  fo_emit_frames :: "bytes list"
  fo_terminal_error :: "mux_error option"

definition feed_output_default :: feed_output where
  "feed_output_default =
     \<lparr>fo_pongs = [], fo_window_grants = [], fo_emit_frames = [], fo_terminal_error = None\<rparr>"

record response_assembler =
  ra_stream_id :: u32
  ra_cap :: nat
  ra_decoder :: frame_decoder
  ra_body :: bytes
  ra_recv_window :: recv_window
  ra_closed :: bool
  ra_reset :: bool
  ra_flow_control_failed :: bool

definition with_cap :: "u32 \<Rightarrow> nat \<Rightarrow> response_assembler" where
  "with_cap sid cap =
     \<lparr>ra_stream_id = sid, ra_cap = cap, ra_decoder = decoder_new, ra_body = [],
      ra_recv_window = recv_new, ra_closed = False, ra_reset = False,
      ra_flow_control_failed = False\<rparr>"

definition assembler_new :: "u32 \<Rightarrow> response_assembler" where
  "assembler_new sid = with_cap sid MAX_ASSEMBLED_BYTES"

text \<open>The arm of the loop for a frame with DATA.\<close>

definition assembler_data ::
  "frame \<Rightarrow> response_assembler \<Rightarrow> feed_output
     \<Rightarrow> (mux_error fault + bool) \<times> response_assembler \<times> feed_output" where
  "assembler_data f a out =
     (case usize_checked_add (length (ra_body a)) (length (payload f)) of
        None \<Rightarrow> (Inl (Err CapExceeded), a, out)
      | Some assembled_len \<Rightarrow>
          (if assembled_len > ra_cap a then (Inl (Err CapExceeded), a, out)
           else
             (case debit (ra_recv_window a) (length (payload f)) of
                (Inl _, w) \<Rightarrow>
                  (let a1 = a\<lparr>ra_closed := True, ra_flow_control_failed := True\<rparr> in
                   case encode (reset_frame (ra_stream_id a1) RESET_FLOW_CONTROL_ERROR) of
                     Inl e \<Rightarrow> (Inl (Err (FrameFailed e)), a1, out)
                   | Inr b \<Rightarrow>
                       (Inr False, a1,
                        out\<lparr>fo_emit_frames := fo_emit_frames out @ [b],
                            fo_terminal_error := Some FlowControl\<rparr>))
              | (Inr _, w) \<Rightarrow>
                  (let a1 = a\<lparr>ra_recv_window := w, ra_body := ra_body a @ payload f\<rparr> in
                   case consume w (length (payload f)) of
                     Inl p \<Rightarrow> (Inl (Panic p), a1, out)
                   | Inr (None, w') \<Rightarrow> (Inr True, a1\<lparr>ra_recv_window := w'\<rparr>, out)
                   | Inr (Some k, w') \<Rightarrow>
                       (case encode (window_frame (ra_stream_id a) k) of
                          Inl e \<Rightarrow> (Inl (Err (FrameFailed e)), a1\<lparr>ra_recv_window := w'\<rparr>, out)
                        | Inr b \<Rightarrow>
                            (Inr True, a1\<lparr>ra_recv_window := w'\<rparr>,
                             out\<lparr>fo_emit_frames := fo_emit_frames out @ [b]\<rparr>))))))"

definition assembler_frame ::
  "frame \<Rightarrow> response_assembler \<Rightarrow> feed_output
     \<Rightarrow> (mux_error fault + bool) \<times> response_assembler \<times> feed_output" where
  "assembler_frame f a out =
     (case control_pong f of
        Some pong \<Rightarrow>
          (case encode pong of
             Inl e \<Rightarrow> (Inl (Err (FrameFailed e)), a, out)
           | Inr b \<Rightarrow> (Inr True, a, out\<lparr>fo_pongs := fo_pongs out @ [b]\<rparr>))
      | None \<Rightarrow>
          if stream_id f \<noteq> ra_stream_id a then (Inr True, a, out)
          else
            (case window_credit f of
               Some credit \<Rightarrow>
                 (Inr True, a, out\<lparr>fo_window_grants := fo_window_grants out @ [credit]\<rparr>)
             | None \<Rightarrow>
                 if flags f AND FLAG_RESET \<noteq> 0
                 then (Inr True, a\<lparr>ra_reset := True, ra_closed := True\<rparr>, out\<lparr>fo_emit_frames := []\<rparr>)
                 else
                   (case (if flags f AND FLAG_DATA \<noteq> 0 then assembler_data f a out
                          else (Inr True, a, out)) of
                      (Inr True, a1, out1) \<Rightarrow>
                        (if flags f AND FLAG_CLOSE \<noteq> 0
                         then (Inr True, a1\<lparr>ra_closed := True\<rparr>, out1\<lparr>fo_emit_frames := []\<rparr>)
                         else (Inr True, a1, out1))
                    | r \<Rightarrow> r)))"

fun assembler_loop ::
  "frame list \<Rightarrow> response_assembler \<Rightarrow> feed_output
     \<Rightarrow> (mux_error fault + feed_output) \<times> response_assembler" where
  "assembler_loop [] a out = (Inr out, a)"
| "assembler_loop (f # fs) a out =
     (case assembler_frame f a out of
        (Inl e, a', out') \<Rightarrow> (Inl e, a')
      | (Inr False, a', out') \<Rightarrow> (Inr out', a')
      | (Inr True, a', out') \<Rightarrow> assembler_loop fs a' out')"

definition assembler_feed ::
  "response_assembler \<Rightarrow> bytes \<Rightarrow> (mux_error fault + feed_output) \<times> response_assembler" where
  "assembler_feed a data =
     (if ra_flow_control_failed a then (Inl (Err FlowControl), a)
      else
        (case drain (decoder_feed (ra_decoder a) data) of
           (Inl e, d) \<Rightarrow> (Inl (Err (FrameFailed e)), a\<lparr>ra_decoder := d\<rparr>)
         | (Inr fs, d) \<Rightarrow> assembler_loop fs (a\<lparr>ra_decoder := d\<rparr>) feed_output_default))"

definition assembler_is_closed :: "response_assembler \<Rightarrow> bool" where
  "assembler_is_closed a \<longleftrightarrow> ra_closed a"

definition was_reset :: "response_assembler \<Rightarrow> bool" where
  "was_reset a \<longleftrightarrow> ra_reset a"

definition into_response :: "response_assembler \<Rightarrow> mux_error + http_response" where
  "into_response a =
     (if ra_reset a then Inl StreamReset
      else if ra_flow_control_failed a then Inl FlowControl
      else if \<not> ra_closed a then Inl Incomplete
      else map_sum HttpFailed id (parse_response (ra_body a)))"

subsection \<open>Invariant\<close>

text \<open>
  The body stays below the cap, and since every byte is consumed as soon as it is debited,
  nothing is ever outstanding: the window is always more than half open.
\<close>

definition assembler_ok :: "response_assembler \<Rightarrow> bool" where
  "assembler_ok a \<longleftrightarrow>
     length (ra_body a) \<le> ra_cap a \<and> recv_ok (ra_recv_window a) \<and> outstanding (ra_recv_window a) = 0"

lemma with_cap_ok [inv_intros]: "assembler_ok (with_cap sid cap)"
  by (simp add: assembler_ok_def with_cap_def)

lemma assembler_ok_update [simp]:
  "assembler_ok (a\<lparr>ra_closed := x\<rparr>) = assembler_ok a"
  "assembler_ok (a\<lparr>ra_reset := y\<rparr>) = assembler_ok a"
  "assembler_ok (a\<lparr>ra_flow_control_failed := z\<rparr>) = assembler_ok a"
  "assembler_ok (a\<lparr>ra_decoder := d\<rparr>) = assembler_ok a"
  by (simp_all add: assembler_ok_def)

text \<open>What accepting the DATA of a frame does, and when it is accepted.\<close>

lemma assembler_data_accepts:
  assumes "assembler_ok a" and "length (ra_body a) + length (payload f) \<le> ra_cap a" and "ra_cap a < 2 ^ 64"
    and "length (payload f) \<le> rw_credit (ra_recv_window a)"
  obtains w out' where
    "assembler_data f a out = (Inr True, a\<lparr>ra_body := ra_body a @ payload f, ra_recv_window := w\<rparr>, out')"
    "assembler_ok (a\<lparr>ra_body := ra_body a @ payload f, ra_recv_window := w\<rparr>)"
proof -
  from assms obtain w where w: "debit (ra_recv_window a) (length (payload f)) = (Inr (), w)"
    using debit_fits unfolding assembler_ok_def by blast
  with assms(1) obtain k w' where "consume w (length (payload f)) = Inr (k, w')" "recv_ok w'" "outstanding w' = 0"
    using rw.debit_consume [of "ra_recv_window a" "length (payload f)" "()" w] by (auto simp: assembler_ok_def)
  with w assms that [of w'] show thesis
    by (cases k) (auto simp: assembler_data_def assembler_ok_def Let_def usize_checked_add_def)
qed

lemma assembler_data_ok:
  assumes "assembler_ok a" and "assembler_data f a out = (r, a', out')"
  shows "assembler_ok a' \<and> ra_cap a' = ra_cap a \<and> r \<noteq> Inl (Panic p)"
proof (cases "length (ra_body a) + length (payload f) \<le> ra_cap a
    \<and> length (ra_body a) + length (payload f) < 2 ^ 64")
  case True
  then have fits: "usize_checked_add (length (ra_body a)) (length (payload f)) =
      Some (length (ra_body a) + length (payload f))" by simp
  show ?thesis
  proof (cases "length (payload f) \<le> rw_credit (ra_recv_window a)")
    case credit: True
    with assms(1) obtain w where w: "debit (ra_recv_window a) (length (payload f)) = (Inr (), w)"
      using debit_fits unfolding assembler_ok_def by blast
    with assms(1) obtain k w' where "consume w (length (payload f)) = Inr (k, w')" "recv_ok w'" "outstanding w' = 0"
      using rw.debit_consume [of "ra_recv_window a" "length (payload f)" "()" w] by (auto simp: assembler_ok_def)
    with w assms True fits show ?thesis
      by (cases k) (auto simp: assembler_data_def assembler_ok_def Let_def)
  next
    case False
    with assms True fits show ?thesis
      by (auto simp: assembler_data_def debit_def Let_def)
  qed
next
  case False
  with assms show ?thesis by (auto simp: assembler_data_def split: option.splits if_splits)
qed

lemma assembler_frame_ok:
  assumes "assembler_ok a" and "assembler_frame f a out = (r, a', out')"
  shows "assembler_ok a' \<and> ra_cap a' = ra_cap a \<and> r \<noteq> Inl (Panic p)"
proof (cases "assembler_data f a out")
  case (fields r1 a1 out1)
  with assms assembler_data_ok [OF assms(1) fields] show ?thesis
    by (auto simp: assembler_frame_def split: option.splits if_splits sum.splits bool.splits)
qed

lemma assembler_loop_ok:
  "assembler_ok a \<Longrightarrow> assembler_loop fs a out = (r, a') \<Longrightarrow> assembler_ok a' \<and> ra_cap a' = ra_cap a \<and> r \<noteq> Inl (Panic p)"
proof (induction fs a out rule: assembler_loop.induct)
  case (2 f fs a out)
  obtain q a1 out1 where step: "assembler_frame f a out = (q, a1, out1)" by (cases "assembler_frame f a out")
  have "assembler_ok a1" "ra_cap a1 = ra_cap a" "q \<noteq> Inl (Panic p)" for p
    using assembler_frame_ok [OF "2.prems"(1) step] by blast+
  with 2 step show ?case by (cases q) (auto split: bool.splits)
qed auto

lemma assembler_feed_ok [inv_intros]:
  "assembler_ok a \<Longrightarrow> assembler_feed a data = (r, a') \<Longrightarrow> assembler_ok a' \<and> ra_cap a' = ra_cap a \<and> r \<noteq> Inl (Panic p)"
  using assembler_loop_ok [of "a\<lparr>ra_decoder := d\<rparr>" for d]
  by (auto simp: assembler_feed_def split: if_splits prod.splits sum.splits)

text \<open>The assembler after some reads, failed ones included.\<close>

definition assembler_reads :: "response_assembler \<Rightarrow> bytes list \<Rightarrow> response_assembler" where
  "assembler_reads a rs = fold (\<lambda>r a. snd (assembler_feed a r)) rs a"

lemma assembler_reads_ok:
  "assembler_ok a \<Longrightarrow> assembler_ok (assembler_reads a rs) \<and> ra_cap (assembler_reads a rs) = ra_cap a"
  unfolding assembler_reads_def
  by (induction rs arbitrary: a) (auto simp: assembler_feed_ok [OF _ surjective_pairing])

text \<open>
  C15. Whatever bytes the peer sends, in whatever reads, and whether or not earlier reads
  failed, \<open>feed\<close> never panics (the panics of \<open>RecvWindow::consume\<close> are unreachable), the
  assembled body never grows past the cap, and at least half of the receive window is open.
\<close>

theorem assembler_safe:
  "length (ra_body (assembler_reads (with_cap sid cap) rs)) \<le> cap
   \<and> INITIAL_WINDOW < 2 * rw_credit (ra_recv_window (assembler_reads (with_cap sid cap) rs))
   \<and> fst (assembler_feed (assembler_reads (with_cap sid cap) rs) data) \<noteq> Inl (Panic p)"
proof -
  have "assembler_ok (assembler_reads (with_cap sid cap) rs)"
    and "ra_cap (assembler_reads (with_cap sid cap) rs) = cap"
    using assembler_reads_ok [OF with_cap_ok] by (simp_all add: with_cap_def)
  then show ?thesis
    using assembler_feed_ok [OF _ surjective_pairing] rw.half_open by (auto simp: assembler_ok_def)
qed

subsection \<open>Delivery\<close>

text \<open>
  What the frames of a connection mean for one stream: its DATA payloads in order, and
  whether one of them closes it. Control pings, other streams' frames and grants do not count.
\<close>

definition ours :: "u32 \<Rightarrow> frame \<Rightarrow> bool" where
  "ours sid f \<longleftrightarrow> control_pong f = None \<and> stream_id f = sid \<and> window_credit f = None"

definition data_of :: "u32 \<Rightarrow> frame list \<Rightarrow> bytes" where
  "data_of sid fs = concat (map payload (filter (\<lambda>f. ours sid f \<and> flags f AND FLAG_DATA \<noteq> 0) fs))"

definition closes :: "u32 \<Rightarrow> frame \<Rightarrow> bool" where
  "closes sid f \<longleftrightarrow> ours sid f \<and> flags f AND FLAG_CLOSE \<noteq> 0"

definition behaved :: "u32 \<Rightarrow> frame \<Rightarrow> bool" where
  "behaved sid f \<longleftrightarrow>
     (ours sid f \<longrightarrow> flags f AND FLAG_RESET = 0 \<and> 2 * length (payload f) \<le> INITIAL_WINDOW)"

lemma data_of_Nil [simp]: "data_of sid [] = []"
  by (simp add: data_of_def)

lemma data_of_append [simp]: "data_of sid (fs @ gs) = data_of sid fs @ data_of sid gs"
  by (simp add: data_of_def)

lemma data_of_Cons: "data_of sid (f # fs) = data_of sid [f] @ data_of sid fs"
  by (simp add: data_of_def)

definition same_stream :: "response_assembler \<Rightarrow> response_assembler \<Rightarrow> bool" where
  "same_stream a b \<longleftrightarrow> ra_stream_id a = ra_stream_id b \<and> ra_cap a = ra_cap b
     \<and> ra_decoder a = ra_decoder b \<and> ra_reset a = ra_reset b
     \<and> ra_flow_control_failed a = ra_flow_control_failed b"

lemma assembler_frame_step:
  assumes ok: "assembler_ok a" and sid: "ra_stream_id a = sid" and "behaved sid f"
    and fits: "length (ra_body a) + length (data_of sid [f]) \<le> ra_cap a" "ra_cap a < 2 ^ 64"
  shows "\<exists>a' out'. assembler_frame f a out = (Inr True, a', out') \<and> assembler_ok a' \<and> same_stream a' a
    \<and> ra_body a' = ra_body a @ data_of sid [f] \<and> (ra_closed a' \<longleftrightarrow> ra_closed a \<or> closes sid f)"
proof (cases "ours sid f \<and> flags f AND FLAG_DATA \<noteq> 0")
  case True
  then have data: "data_of sid [f] = payload f" by (simp add: data_of_def)
  have "length (payload f) \<le> rw_credit (ra_recv_window a)"
    using \<open>behaved sid f\<close> True ok rw.half_open [of "ra_recv_window a"]
    by (simp add: behaved_def assembler_ok_def)
  with ok fits data obtain w out' where
    "assembler_data f a out = (Inr True, a\<lparr>ra_body := ra_body a @ payload f, ra_recv_window := w\<rparr>, out')"
    "assembler_ok (a\<lparr>ra_body := ra_body a @ payload f, ra_recv_window := w\<rparr>)"
    using assembler_data_accepts by metis
  with True sid \<open>behaved sid f\<close> data show ?thesis
    by (simp add: assembler_frame_def ours_def closes_def behaved_def same_stream_def)
next
  case False
  then have "data_of sid [f] = []" by (auto simp: data_of_def)
  with False sid ok \<open>behaved sid f\<close> show ?thesis
    by (auto simp: assembler_frame_def ours_def closes_def behaved_def same_stream_def split: option.splits)
qed

lemma assembler_loop_delivers:
  assumes "assembler_ok a" and "ra_stream_id a = sid" and "list_all (behaved sid) fs"
    and "length (ra_body a) + length (data_of sid fs) \<le> ra_cap a" and "ra_cap a < 2 ^ 64"
  shows "\<exists>a' out'. assembler_loop fs a out = (Inr out', a') \<and> assembler_ok a' \<and> same_stream a' a
    \<and> ra_body a' = ra_body a @ data_of sid fs \<and> (ra_closed a' \<longleftrightarrow> ra_closed a \<or> list_ex (closes sid) fs)"
  using assms
proof (induction fs arbitrary: a out)
  case (Cons f fs)
  then obtain a1 out1 where step: "assembler_frame f a out = (Inr True, a1, out1)" "assembler_ok a1"
    "same_stream a1 a" "ra_body a1 = ra_body a @ data_of sid [f]" "ra_closed a1 \<longleftrightarrow> ra_closed a \<or> closes sid f"
    using assembler_frame_step [of a sid f out] by (auto simp: data_of_Cons [of sid f fs])
  with Cons.prems have "ra_stream_id a1 = sid" "ra_cap a1 = ra_cap a"
    "length (ra_body a1) + length (data_of sid fs) \<le> ra_cap a1"
    by (auto simp: same_stream_def data_of_Cons [of sid f fs])
  with Cons.IH [of a1 out1] Cons.prems step show ?case
    by (auto simp: same_stream_def data_of_Cons [of sid f fs])
qed (simp add: same_stream_def)

text \<open>One \<open>feed\<close> per read, until one fails.\<close>

fun assembler_feed_all ::
  "response_assembler \<Rightarrow> bytes list \<Rightarrow> (mux_error fault + feed_output list) \<times> response_assembler" where
  "assembler_feed_all a [] = (Inr [], a)"
| "assembler_feed_all a (r # rs) =
     (case assembler_feed a r of
        (Inl e, a') \<Rightarrow> (Inl e, a')
      | (Inr out, a') \<Rightarrow>
          (case assembler_feed_all a' rs of
             (Inl e, a'') \<Rightarrow> (Inl e, a'')
           | (Inr outs, a'') \<Rightarrow> (Inr (out # outs), a'')))"

lemma assembler_feed_all_delivers:
  assumes "read_all decoder_feed drain (ra_decoder a) rs = (Inr fs, d)"
    and "assembler_ok a" and "ra_stream_id a = sid" and "list_all (behaved sid) fs"
    and "length (ra_body a) + length (data_of sid fs) \<le> ra_cap a" and "ra_cap a < 2 ^ 64"
    and "\<not> ra_flow_control_failed a"
  shows "\<exists>a' outs. assembler_feed_all a rs = (Inr outs, a') \<and> ra_reset a' = ra_reset a
    \<and> \<not> ra_flow_control_failed a' \<and> ra_body a' = ra_body a @ data_of sid fs
    \<and> (ra_closed a' \<longleftrightarrow> ra_closed a \<or> list_ex (closes sid) fs)"
  using assms
proof (induction rs arbitrary: a fs)
  case (Cons r rs)
  from Cons.prems(1) obtain fs1 d1 fs2 where fs: "fs = fs1 @ fs2"
    and d1: "drain (decoder_feed (ra_decoder a) r) = (Inr fs1, d1)"
    and rest: "read_all decoder_feed drain d1 rs = (Inr fs2, d)"
    by (auto split: prod.splits sum.splits)
  from Cons.prems fs obtain a1 out1 where
    loop: "assembler_loop fs1 (a\<lparr>ra_decoder := d1\<rparr>) feed_output_default = (Inr out1, a1)" "assembler_ok a1"
    "same_stream a1 (a\<lparr>ra_decoder := d1\<rparr>)" "ra_body a1 = ra_body a @ data_of sid fs1"
    "ra_closed a1 \<longleftrightarrow> ra_closed a \<or> list_ex (closes sid) fs1"
    using assembler_loop_delivers [of "a\<lparr>ra_decoder := d1\<rparr>" sid fs1 feed_output_default] by auto
  with Cons.prems d1 have feed: "assembler_feed a r = (Inr out1, a1)" by (simp add: assembler_feed_def)
  have "\<exists>a' outs. assembler_feed_all a1 rs = (Inr outs, a') \<and> ra_reset a' = ra_reset a1
      \<and> \<not> ra_flow_control_failed a' \<and> ra_body a' = ra_body a1 @ data_of sid fs2
      \<and> (ra_closed a' \<longleftrightarrow> ra_closed a1 \<or> list_ex (closes sid) fs2)"
    using Cons.prems loop rest fs by (intro Cons.IH) (simp_all add: same_stream_def)
  with feed loop fs show ?case by (auto simp: same_stream_def)
qed simp

text \<open>
  C14. Delivery of a response. Let a peer send any frames for any number of streams,
  encoded back to back and read in arbitrary pieces, with no RESET and no payload above half a
  window on stream \<open>sid\<close>, a CLOSE on it, and no more DATA for it than the cap. Then every feed
  succeeds, and the response obtained is the parse of exactly the payloads of the DATA frames
  of that stream, in order: pings, grants and other streams' frames leave no trace.
\<close>

theorem assembler_delivers_response:
  assumes "list_all2 (\<lambda>f bs. encode f = Inr bs) fs bss" and "concat rs = concat bss"
    and "list_all (behaved sid) fs" and "list_ex (closes sid) fs"
    and "length (data_of sid fs) \<le> cap" and "cap < 2 ^ 64"
  shows "\<exists>outs a. assembler_feed_all (with_cap sid cap) rs = (Inr outs, a)
    \<and> into_response a = map_sum HttpFailed id (parse_response (data_of sid fs))"
proof -
  have "read_all decoder_feed drain (ra_decoder (with_cap sid cap)) rs = (Inr fs, decoder_new)"
    using read_encoded [OF assms(1,2)] by (simp add: with_cap_def)
  from assembler_feed_all_delivers [OF this with_cap_ok, of sid] assms(3-6) obtain a outs where
    "assembler_feed_all (with_cap sid cap) rs = (Inr outs, a)" "\<not> ra_reset a"
    "\<not> ra_flow_control_failed a" "ra_body a = data_of sid fs" "ra_closed a"
    by (auto simp: with_cap_def)
  then show ?thesis by (intro exI [of _ outs] exI [of _ a]) (simp add: into_response_def)
qed

theorem assembler_delivers_response_witness:
  "\<exists>outs a. assembler_feed_all (with_cap 1 100)
       [wire (frame_new 0 FLAG_PING [1, 2, 3, 4, 5, 6, 7, 8]) @ wire (frame_new 3 FLAG_DATA [9]),
        wire (frame_new 1 FLAG_DATA [7, 7]) @ wire (frame_new 1 (FLAG_DATA OR FLAG_CLOSE) [8])] = (Inr outs, a)
     \<and> into_response a = Inl (HttpFailed MissingTerminator)"
proof -
  let ?fs = "[frame_new 0 FLAG_PING [1, 2, 3, 4, 5, 6, 7, 8], frame_new 3 FLAG_DATA [9],
    frame_new 1 FLAG_DATA [7, 7], frame_new 1 (FLAG_DATA OR FLAG_CLOSE) [8]]"
  have "list_all2 (\<lambda>f bs. encode f = Inr bs) ?fs (map wire ?fs)"
    by (simp add: encode_wire MAX_PAYLOAD_def) (rule encode_wire; simp add: MAX_PAYLOAD_def flag_defs)
  moreover have "data_of 1 ?fs = [7, 7, 8]"
    by (simp add: data_of_def ours_def control_pong_def window_credit_def flag_defs)
  moreover have "parse_response [7, 7, 8] = Inl MissingTerminator"
    by (simp add: parse_response_def CRLF_def)
  ultimately show ?thesis
    using assembler_delivers_response [of ?fs "map wire ?fs"
        "[wire (frame_new 0 FLAG_PING [1, 2, 3, 4, 5, 6, 7, 8]) @ wire (frame_new 3 FLAG_DATA [9]),
        wire (frame_new 1 FLAG_DATA [7, 7]) @ wire (frame_new 1 (FLAG_DATA OR FLAG_CLOSE) [8])]" 1 100]
    by (simp add: behaved_def closes_def ours_def control_pong_def window_credit_def flag_defs
        INITIAL_WINDOW_def)
qed

end
