(* ===== verification/Spl_Http_Stream.thy ===== *)
theory Spl_Http_Stream
  imports Spl_Recv_Window
begin

text \<open>
  The streaming response of one carrier stream, \<open>HttpStreamAssembler\<close> of
  \<open>crates/spl-core/src/mux.rs\<close>, with the event types of that module. DATA payloads go in;
  the parsed head and decoded body come out as events, each body event with the number of
  wire bytes that its consumption gives back to the receive window.
\<close>

subsection \<open>Events\<close>

record http_head =
  hh_status :: u16
  hh_headers :: "(str \<times> str) list"

datatype reset_reason = RProtocolError | RFlowControlError | RUnspecified

definition from_payload :: "bytes \<Rightarrow> reset_reason" where
  "from_payload p =
     (case p of
        [] \<Rightarrow> RUnspecified
      | b # _ \<Rightarrow>
          (if b = RESET_PROTOCOL_ERROR then RProtocolError
           else if b = RESET_FLOW_CONTROL_ERROR then RFlowControlError
           else RUnspecified))"

datatype stream_end = EndClose | EndReset reset_reason | EndEof

datatype stream_item = Head http_head | Body bytes | End stream_end

record stream_event =
  se_item :: stream_item
  se_wire_cost :: nat

definition uncosted :: "stream_item \<Rightarrow> stream_event" where
  "uncosted item = \<lparr>se_item = item, se_wire_cost = 0\<rparr>"

subsection \<open>The assembler\<close>

record http_stream =
  hs_head_buf :: bytes
  hs_head_emitted :: bool
  hs_chunked :: bool
  hs_chunked_decoder :: chunked_decoder
  hs_pending_body_wire :: nat
  hs_closed :: bool

record assembler_output =
  ao_events :: "stream_event list"
  ao_auto_consumed :: nat

definition http_stream_new :: http_stream where
  "http_stream_new =
     \<lparr>hs_head_buf = [], hs_head_emitted = False, hs_chunked = False,
      hs_chunked_decoder = chunked_new, hs_pending_body_wire = 0, hs_closed = False\<rparr>"

definition hs_feed_body ::
  "http_stream \<Rightarrow> bytes \<Rightarrow> assembler_output \<Rightarrow> (mux_error + assembler_output) \<times> http_stream" where
  "hs_feed_body s p out =
     (if p = [] then (Inr out, s)
      else
        let s1 = s\<lparr>hs_pending_body_wire := hs_pending_body_wire s + length p\<rparr>;
            (r, s2) =
              (if hs_chunked s1
               then (case push (hs_chunked_decoder s1) p of
                       (r, d) \<Rightarrow> (map_sum HttpFailed id r, s1\<lparr>hs_chunked_decoder := d\<rparr>))
               else (Inr p, s1))
        in (case r of
              Inl e \<Rightarrow> (Inl e, s2)
            | Inr body \<Rightarrow>
                (if body = [] then (Inr out, s2)
                 else (Inr (out\<lparr>ao_events := ao_events out
                         @ [\<lparr>se_item = Body body, se_wire_cost = hs_pending_body_wire s2\<rparr>]\<rparr>),
                       s2\<lparr>hs_pending_body_wire := 0\<rparr>))))"

definition is_chunked :: "(str \<times> str) list \<Rightarrow> bool" where
  "is_chunked headers =
     (case header_lookup headers (ascii ''transfer-encoding'') of
        None \<Rightarrow> False
      | Some v \<Rightarrow> eq_ignore_ascii_case v (ascii ''chunked''))"

definition feed_data :: "http_stream \<Rightarrow> bytes \<Rightarrow> (mux_error + assembler_output) \<times> http_stream" where
  "feed_data s p =
     (let out = \<lparr>ao_events = [], ao_auto_consumed = 0\<rparr> in
      if \<not> hs_head_emitted s then
        let previous_head_len = length (hs_head_buf s);
            s1 = s\<lparr>hs_head_buf := hs_head_buf s @ p\<rparr>
        in (case find_subsequence (hs_head_buf s1) (CRLF @ CRLF) of
              None \<Rightarrow>
                (if length (hs_head_buf s1) > MAX_ASSEMBLED_BYTES then (Inl CapExceeded, s1)
                 else (Inr (out\<lparr>ao_auto_consumed := length p\<rparr>), s1))
            | Some split \<Rightarrow>
                (case parse_head (take split (hs_head_buf s1)) of
                   Inl e \<Rightarrow> (Inl (HttpFailed e), s1)
                 | Inr (status, headers) \<Rightarrow>
                     let s2 = s1\<lparr>hs_chunked := is_chunked headers, hs_head_emitted := True\<rparr>;
                         body_start = split + 4;
                         out1 = out\<lparr>
                           ao_events := [uncosted (Head \<lparr>hh_status = status, hh_headers = headers\<rparr>)],
                           ao_auto_consumed := min (body_start - previous_head_len) (length p)\<rparr>;
                         body = drop body_start (hs_head_buf s2);
                         s3 = s2\<lparr>hs_head_buf := []\<rparr>
                     in if body \<noteq> [] then hs_feed_body s3 body out1 else (Inr out1, s3)))
      else hs_feed_body s p out)"

definition hs_close :: "http_stream \<Rightarrow> stream_item \<times> http_stream" where
  "hs_close s = (End EndClose, s\<lparr>hs_closed := True, hs_pending_body_wire := 0\<rparr>)"

definition hs_reset :: "http_stream \<Rightarrow> reset_reason \<Rightarrow> stream_item \<times> http_stream" where
  "hs_reset s reason = (End (EndReset reason), s\<lparr>hs_closed := True, hs_pending_body_wire := 0\<rparr>)"

definition hs_finish_eof :: "http_stream \<Rightarrow> stream_item \<times> http_stream" where
  "hs_finish_eof s = (End EndEof, s\<lparr>hs_closed := True, hs_pending_body_wire := 0\<rparr>)"

subsection \<open>Accounting of wire bytes\<close>

text \<open>The wire bytes that the events of an output give back when they are drained.\<close>

definition wire_total :: "stream_event list \<Rightarrow> nat" where
  "wire_total es = sum_list (map se_wire_cost es)"

lemma wire_total_simps [simp]:
  "wire_total [] = 0"
  "wire_total (e # es) = se_wire_cost e + wire_total es"
  "wire_total (es @ es') = wire_total es + wire_total es'"
  by (simp_all add: wire_total_def)

lemma uncosted_simps [simp]: "se_item (uncosted i) = i" "se_wire_cost (uncosted i) = 0"
  by (simp_all add: uncosted_def)

text \<open>
  Until the head is out, its buffer holds no complete head and no body bytes are pending.
\<close>

definition stream_ok :: "http_stream \<Rightarrow> bool" where
  "stream_ok s \<longleftrightarrow>
     (\<not> hs_head_emitted s \<longrightarrow> find_subsequence (hs_head_buf s) (CRLF @ CRLF) = None
        \<and> hs_pending_body_wire s = 0 \<and> hs_chunked_decoder s = chunked_new)"

lemma stream_new_ok [inv_intros]: "stream_ok http_stream_new"
  by (simp add: stream_ok_def http_stream_new_def)

lemma hs_feed_body_accounts:
  assumes "hs_feed_body s p out = (Inr out', s')"
  shows "hs_pending_body_wire s + length p + wire_total (ao_events out)
       = hs_pending_body_wire s' + wire_total (ao_events out')"
    and "ao_auto_consumed out' = ao_auto_consumed out"
    and "hs_head_emitted s' = hs_head_emitted s"
  using assms
  by (auto simp: hs_feed_body_def Let_def split: if_splits prod.splits sum.splits)

lemma hs_feed_body_Nil: "hs_feed_body s [] out = (Inr out, s)"
  by (simp add: hs_feed_body_def)

text \<open>The two ways a payload is taken before the head is out.\<close>

lemma feed_data_no_head:
  assumes "\<not> hs_head_emitted s" and "find_subsequence (hs_head_buf s @ p) (CRLF @ CRLF) = None"
  shows "feed_data s p =
    (if length (hs_head_buf s @ p) > MAX_ASSEMBLED_BYTES
     then (Inl CapExceeded, s\<lparr>hs_head_buf := hs_head_buf s @ p\<rparr>)
     else (Inr \<lparr>ao_events = [], ao_auto_consumed = length p\<rparr>, s\<lparr>hs_head_buf := hs_head_buf s @ p\<rparr>))"
  using assms by (simp add: feed_data_def)

lemma feed_data_head:
  assumes "stream_ok s" and "\<not> hs_head_emitted s"
    and "find_subsequence (hs_head_buf s @ p) (CRLF @ CRLF) = Some n"
    and "parse_head (take n (hs_head_buf s @ p)) = Inr (status, headers)"
  shows "feed_data s p =
    hs_feed_body (s\<lparr>hs_chunked := is_chunked headers, hs_head_emitted := True, hs_head_buf := []\<rparr>)
      (drop (n + 4) (hs_head_buf s @ p))
      \<lparr>ao_events = [uncosted (Head \<lparr>hh_status = status, hh_headers = headers\<rparr>)],
       ao_auto_consumed = n + 4 - length (hs_head_buf s)\<rparr>"
    and "length (hs_head_buf s) < n + 4" "n + 4 \<le> length (hs_head_buf s) + length p"
proof -
  from assms show "length (hs_head_buf s) < n + 4"
    using find_subsequence_new [of "hs_head_buf s" "CRLF @ CRLF" p n] by (simp add: stream_ok_def)
  from find_subsequence_length [OF assms(3)] show le: "n + 4 \<le> length (hs_head_buf s) + length p"
    by simp
  then have "min (n + 4 - length (hs_head_buf s)) (length p) = n + 4 - length (hs_head_buf s)" by simp
  with assms show "feed_data s p =
    hs_feed_body (s\<lparr>hs_chunked := is_chunked headers, hs_head_emitted := True, hs_head_buf := []\<rparr>)
      (drop (n + 4) (hs_head_buf s @ p))
      \<lparr>ao_events = [uncosted (Head \<lparr>hh_status = status, hh_headers = headers\<rparr>)],
       ao_auto_consumed = n + 4 - length (hs_head_buf s)\<rparr>"
    by (simp add: feed_data_def Let_def hs_feed_body_Nil del: drop_append)
qed

lemma feed_data_body:
  "hs_head_emitted s \<Longrightarrow> feed_data s p = hs_feed_body s p \<lparr>ao_events = [], ao_auto_consumed = 0\<rparr>"
  by (simp add: feed_data_def)

lemma feed_data_cases:
  assumes "stream_ok s" and "feed_data s p = (Inr out, s')"
  obtains
    (body) "hs_head_emitted s"
      "hs_feed_body s p \<lparr>ao_events = [], ao_auto_consumed = 0\<rparr> = (Inr out, s')"
  | (waiting) "\<not> hs_head_emitted s" "find_subsequence (hs_head_buf s @ p) (CRLF @ CRLF) = None"
      "out = \<lparr>ao_events = [], ao_auto_consumed = length p\<rparr>" "s' = s\<lparr>hs_head_buf := hs_head_buf s @ p\<rparr>"
  | (head) n status headers where "\<not> hs_head_emitted s"
      "find_subsequence (hs_head_buf s @ p) (CRLF @ CRLF) = Some n"
      "parse_head (take n (hs_head_buf s @ p)) = Inr (status, headers)"
      "hs_feed_body (s\<lparr>hs_chunked := is_chunked headers, hs_head_emitted := True, hs_head_buf := []\<rparr>)
        (drop (n + 4) (hs_head_buf s @ p))
        \<lparr>ao_events = [uncosted (Head \<lparr>hh_status = status, hh_headers = headers\<rparr>)],
         ao_auto_consumed = n + 4 - length (hs_head_buf s)\<rparr> = (Inr out, s')"
      "length (hs_head_buf s) < n + 4" "n + 4 \<le> length (hs_head_buf s) + length p"
proof (cases "hs_head_emitted s")
  case True
  with assms body show thesis by (simp add: feed_data_body)
next
  case False
  show thesis
  proof (cases "find_subsequence (hs_head_buf s @ p) (CRLF @ CRLF)")
    case None
    with False assms waiting show thesis by (auto simp: feed_data_no_head split: if_splits)
  next
    case (Some n)
    with False assms(2) obtain status headers where "parse_head (take n (hs_head_buf s @ p)) = Inr (status, headers)"
      by (auto simp: feed_data_def Let_def split: sum.splits)
    with False Some assms head feed_data_head show thesis by metis
  qed
qed

lemma feed_data_accounts:
  assumes "stream_ok s" and "feed_data s p = (Inr out, s')"
  shows "stream_ok s' \<and> hs_pending_body_wire s + length p
       = ao_auto_consumed out + wire_total (ao_events out) + hs_pending_body_wire s'"
  using assms
proof (cases rule: feed_data_cases)
  case body
  with assms(1) hs_feed_body_accounts [OF body(2)] show ?thesis by (simp add: stream_ok_def)
next
  case waiting
  with assms(1) show ?thesis by (simp add: stream_ok_def)
next
  case (head n status headers)
  with assms(1) hs_feed_body_accounts [OF head(4)] show ?thesis by (simp add: stream_ok_def)
qed

subsection \<open>What a stream delivers\<close>

fun body_of :: "stream_item \<Rightarrow> bytes" where
  "body_of (Body b) = b"
| "body_of _ = []"

fun is_body :: "stream_item \<Rightarrow> bool" where
  "is_body (Body b) \<longleftrightarrow> True"
| "is_body _ \<longleftrightarrow> False"

definition body_bytes :: "stream_event list \<Rightarrow> bytes" where
  "body_bytes es = concat (map (body_of \<circ> se_item) es)"

lemma body_bytes_simps [simp]:
  "body_bytes [] = []"
  "body_bytes (es @ es') = body_bytes es @ body_bytes es'"
  by (simp_all add: body_bytes_def)

text \<open>The state and the events of a stream that has received \<open>raw\<close> without an error.\<close>

definition stream_rel :: "bytes \<Rightarrow> stream_event list \<Rightarrow> http_stream \<Rightarrow> bool" where
  "stream_rel raw es s \<longleftrightarrow>
     (if hs_head_emitted s
      then \<exists>n status headers bodies.
        find_subsequence raw (CRLF @ CRLF) = Some n
        \<and> parse_head (take n raw) = Inr (status, headers)
        \<and> es = uncosted (Head \<lparr>hh_status = status, hh_headers = headers\<rparr>) # bodies
        \<and> list_all (is_body \<circ> se_item) bodies
        \<and> hs_chunked s = is_chunked headers
        \<and> (if is_chunked headers
           then push chunked_new (drop (n + 4) raw) = (Inr (body_bytes bodies), hs_chunked_decoder s)
           else body_bytes bodies = drop (n + 4) raw)
      else find_subsequence raw (CRLF @ CRLF) = None \<and> hs_head_buf s = raw \<and> es = []
        \<and> hs_chunked_decoder s = chunked_new \<and> hs_pending_body_wire s = 0)"

lemma stream_rel_ok: "stream_rel raw es s \<Longrightarrow> stream_ok s"
  by (auto simp: stream_rel_def stream_ok_def split: if_splits)

lemma push_new_Nil: "push chunked_new [] = (Inr [], chunked_new)"
  using push_all_concat [of "[]"] by simp

lemma hs_feed_body_events:
  assumes "hs_feed_body s p out = (Inr out', s')" and "p \<noteq> []"
  obtains bodies where "ao_events out' = ao_events out @ bodies" "list_all (is_body \<circ> se_item) bodies"
    "hs_chunked s' = hs_chunked s" "hs_head_emitted s' = hs_head_emitted s"
    "if hs_chunked s then push (hs_chunked_decoder s) p = (Inr (body_bytes bodies), hs_chunked_decoder s')
     else body_bytes bodies = p \<and> hs_chunked_decoder s' = hs_chunked_decoder s"
proof (cases "hs_chunked s")
  case False
  with assms that [of "[\<lparr>se_item = Body p, se_wire_cost = hs_pending_body_wire s + length p\<rparr>]"]
  show thesis by (auto simp: hs_feed_body_def body_bytes_def)
next
  case True
  with assms obtain body d where push: "push (hs_chunked_decoder s) p = (Inr body, d)"
    by (cases "push (hs_chunked_decoder s) p"; cases "fst (push (hs_chunked_decoder s) p)")
      (auto simp: hs_feed_body_def)
  show thesis
  proof (cases "body = []")
    case nil: True
    with True assms push that [of "[]"] show thesis by (auto simp: hs_feed_body_def Let_def)
  next
    case False
    with True assms push
      that [of "[\<lparr>se_item = Body body, se_wire_cost = hs_pending_body_wire s + length p\<rparr>]"]
    show thesis by (auto simp: hs_feed_body_def Let_def body_bytes_def)
  qed
qed

lemma stream_relI:
  assumes "hs_head_emitted s" and "find_subsequence raw (CRLF @ CRLF) = Some n"
    and "parse_head (take n raw) = Inr (status, headers)" and "list_all (is_body \<circ> se_item) bodies"
    and "hs_chunked s = is_chunked headers"
    and "is_chunked headers \<Longrightarrow>
      push chunked_new (drop (n + 4) raw) = (Inr (body_bytes bodies), hs_chunked_decoder s)"
    and "\<not> is_chunked headers \<Longrightarrow> body_bytes bodies = drop (n + 4) raw"
  shows "stream_rel raw (uncosted (Head \<lparr>hh_status = status, hh_headers = headers\<rparr>) # bodies) s"
  unfolding stream_rel_def using assms by auto

lemma stream_rel_step:
  assumes "stream_rel raw es s" and "feed_data s p = (Inr out, s')"
  shows "stream_rel (raw @ p) (es @ ao_events out) s'"
  using stream_rel_ok [OF assms(1)] assms(2)
proof (cases rule: feed_data_cases)
  case waiting
  with assms(1) show ?thesis by (simp add: stream_rel_def)
next
  case body
  show ?thesis
  proof (cases "p = []")
    case True
    with body assms(1) show ?thesis by (auto simp: hs_feed_body_Nil)
  next
    case False
    from assms(1) body(1) obtain n status headers bodies where
      n: "find_subsequence raw (CRLF @ CRLF) = Some n" "parse_head (take n raw) = Inr (status, headers)"
      and es: "es = uncosted (Head \<lparr>hh_status = status, hh_headers = headers\<rparr>) # bodies"
        "list_all (is_body \<circ> se_item) bodies" "hs_chunked s = is_chunked headers"
        "if is_chunked headers
         then push chunked_new (drop (n + 4) raw) = (Inr (body_bytes bodies), hs_chunked_decoder s)
         else body_bytes bodies = drop (n + 4) raw"
      by (auto simp: stream_rel_def)
    from n(1) have le: "n + 4 \<le> length raw" and n': "find_subsequence (raw @ p) (CRLF @ CRLF) = Some n"
      using find_subsequence_length [OF n(1)] find_subsequence_append [OF n(1)] by simp_all
    from body(2) False obtain bs where bs: "ao_events out = ao_events \<lparr>ao_events = [], ao_auto_consumed = 0\<rparr> @ bs"
      "list_all (is_body \<circ> se_item) bs" "hs_chunked s' = hs_chunked s"
      "hs_head_emitted s' = hs_head_emitted s"
      "if hs_chunked s then push (hs_chunked_decoder s) p = (Inr (body_bytes bs), hs_chunked_decoder s')
       else body_bytes bs = p \<and> hs_chunked_decoder s' = hs_chunked_decoder s"
      by (rule hs_feed_body_events)
    then have "stream_rel (raw @ p)
        (uncosted (Head \<lparr>hh_status = status, hh_headers = headers\<rparr>) # (bodies @ ao_events out)) s'"
      using n es le n' body(1) bs
      by (intro stream_relI [where n = n]) (auto intro!: push_push [where d = "hs_chunked_decoder s"])
    then show ?thesis by (simp add: es(1))
  qed
next
  case (head n status headers)
  let ?s = "s\<lparr>hs_chunked := is_chunked headers, hs_head_emitted := True, hs_head_buf := []\<rparr>"
  from assms(1) head(1) have raw: "hs_head_buf s = raw" "es = []" "hs_chunked_decoder s = chunked_new"
    by (auto simp: stream_rel_def)
  show ?thesis
  proof (cases "drop (n + 4) (raw @ p) = []")
    case True
    with head raw have "s' = ?s" "ao_events out = [uncosted (Head \<lparr>hh_status = status, hh_headers = headers\<rparr>)]"
      by (auto simp: hs_feed_body_Nil)
    moreover have "stream_rel (raw @ p) [uncosted (Head \<lparr>hh_status = status, hh_headers = headers\<rparr>)] ?s"
      using True head(2,3) raw by (intro stream_relI [where n = n]) (simp_all add: push_new_Nil)
    ultimately show ?thesis by (simp add: raw)
  next
    case False
    with raw have ne: "drop (n + 4) (hs_head_buf s @ p) \<noteq> []" by simp
    from head(4) ne obtain bs where bs:
      "ao_events out = ao_events \<lparr>ao_events = [uncosted (Head \<lparr>hh_status = status, hh_headers = headers\<rparr>)],
         ao_auto_consumed = n + 4 - length (hs_head_buf s)\<rparr> @ bs"
      "list_all (is_body \<circ> se_item) bs" "hs_chunked s' = hs_chunked ?s" "hs_head_emitted s' = hs_head_emitted ?s"
      "if hs_chunked ?s
       then push (hs_chunked_decoder ?s) (drop (n + 4) (hs_head_buf s @ p)) = (Inr (body_bytes bs), hs_chunked_decoder s')
       else body_bytes bs = drop (n + 4) (hs_head_buf s @ p) \<and> hs_chunked_decoder s' = hs_chunked_decoder ?s"
      by (rule hs_feed_body_events)
    then have ev: "ao_events out = uncosted (Head \<lparr>hh_status = status, hh_headers = headers\<rparr>) # bs" by simp
    have "stream_rel (raw @ p) (ao_events out) s'"
      unfolding ev using head(2,3) bs raw
      by (intro stream_relI [where n = n]) (simp_all split: if_splits)
    then show ?thesis by (simp add: raw)
  qed
qed

text \<open>A stream fed payload by payload, until one fails.\<close>

fun feed_data_all :: "http_stream \<Rightarrow> bytes list \<Rightarrow> (mux_error + assembler_output list) \<times> http_stream" where
  "feed_data_all s [] = (Inr [], s)"
| "feed_data_all s (p # ps) =
     (case feed_data s p of
        (Inl e, s') \<Rightarrow> (Inl e, s')
      | (Inr out, s') \<Rightarrow>
          (case feed_data_all s' ps of
             (Inl e, s'') \<Rightarrow> (Inl e, s'')
           | (Inr outs, s'') \<Rightarrow> (Inr (out # outs), s'')))"

lemma feed_data_all_rel:
  "feed_data_all s ps = (Inr outs, s') \<Longrightarrow> stream_rel raw es s \<Longrightarrow>
     stream_rel (raw @ concat ps) (es @ concat (map ao_events outs)) s'
     \<and> hs_pending_body_wire s + length (concat ps) =
         sum_list (map ao_auto_consumed outs) + wire_total (concat (map ao_events outs))
         + hs_pending_body_wire s'"
proof (induction ps arbitrary: s raw es outs)
  case (Cons p ps)
  from Cons.prems(1) obtain out outs' s1 where
    step: "feed_data s p = (Inr out, s1)" and rest: "feed_data_all s1 ps = (Inr outs', s')"
    and outs: "outs = out # outs'"
    by (auto split: prod.splits sum.splits)
  from Cons.IH [OF rest stream_rel_step [OF Cons.prems(2) step]]
    feed_data_accounts [OF stream_rel_ok [OF Cons.prems(2)] step]
  show ?case by (simp add: outs)
qed simp

lemma stream_rel_new: "stream_rel [] [] http_stream_new"
  by (simp add: stream_rel_def http_stream_new_def)

text \<open>
  C16. Streaming decoding of a response. However its bytes are cut into DATA payloads, if
  they are all accepted then: before the blank line that ends the head, nothing is delivered;
  after it, exactly one head event comes first, with the parse of the bytes before that line,
  followed by body events only, whose bytes are the rest, decoded by the chunked decoder when
  the head says so and unchanged otherwise. Every wire byte is accounted for exactly once:
  as metadata consumed at once, as the cost of one body event, or as still pending.
\<close>

theorem http_stream_delivers:
  assumes "feed_data_all http_stream_new ps = (Inr outs, s)"
  shows "(find_subsequence (concat ps) (CRLF @ CRLF) = None \<longrightarrow> concat (map ao_events outs) = [])
    \<and> (\<forall>n. find_subsequence (concat ps) (CRLF @ CRLF) = Some n \<longrightarrow>
        (\<exists>status headers bodies. parse_head (take n (concat ps)) = Inr (status, headers)
          \<and> concat (map ao_events outs) =
              uncosted (Head \<lparr>hh_status = status, hh_headers = headers\<rparr>) # bodies
          \<and> list_all (is_body \<circ> se_item) bodies
          \<and> (if is_chunked headers
             then fst (push chunked_new (drop (n + 4) (concat ps))) = Inr (body_bytes bodies)
             else body_bytes bodies = drop (n + 4) (concat ps))))
    \<and> length (concat ps) = sum_list (map ao_auto_consumed outs)
        + wire_total (concat (map ao_events outs)) + hs_pending_body_wire s"
proof -
  have rel: "stream_rel (concat ps) (concat (map ao_events outs)) s"
    and "length (concat ps) = sum_list (map ao_auto_consumed outs)
      + wire_total (concat (map ao_events outs)) + hs_pending_body_wire s"
    using feed_data_all_rel [OF assms stream_rel_new] by (simp_all add: http_stream_new_def)
  moreover have "find_subsequence (concat ps) (CRLF @ CRLF) = None \<longrightarrow> concat (map ao_events outs) = []"
    using rel by (auto simp: stream_rel_def split: if_splits)
  moreover have "\<exists>status headers bodies. parse_head (take n (concat ps)) = Inr (status, headers)
      \<and> concat (map ao_events outs) = uncosted (Head \<lparr>hh_status = status, hh_headers = headers\<rparr>) # bodies
      \<and> list_all (is_body \<circ> se_item) bodies
      \<and> (if is_chunked headers
         then fst (push chunked_new (drop (n + 4) (concat ps))) = Inr (body_bytes bodies)
         else body_bytes bodies = drop (n + 4) (concat ps))"
    if "find_subsequence (concat ps) (CRLF @ CRLF) = Some n" for n
    using rel that by (auto simp: stream_rel_def split: if_splits)
  ultimately show ?thesis by blast
qed

lemma example_stream:
  "\<exists>s. feed_data_all http_stream_new
     [ascii ''HTTP/1.1 200 OK'' @ CRLF @ ascii ''Content-Length: 2'' @ [13], [10, 13, 10] @ ascii ''ok''] =
     (Inr [\<lparr>ao_events = [], ao_auto_consumed = 35\<rparr>,
           \<lparr>ao_events = [uncosted (Head \<lparr>hh_status = 200, hh_headers = [(ascii ''content-length'', ascii ''2'')]\<rparr>),
                         \<lparr>se_item = Body (ascii ''ok''), se_wire_cost = 2\<rparr>],
            ao_auto_consumed = 3\<rparr>], s)"
  using example_head
  by (simp add: feed_data_def hs_feed_body_def http_stream_new_def CRLF_def MAX_ASSEMBLED_BYTES_def
      is_chunked_def header_lookup_def Let_def)

theorem http_stream_delivers_witness:
  "\<exists>outs s. feed_data_all http_stream_new
     [ascii ''HTTP/1.1 200 OK'' @ CRLF @ ascii ''Content-Length: 2'' @ [13], [10, 13, 10] @ ascii ''ok''] = (Inr outs, s)
     \<and> wire_total (concat (map ao_events outs)) = 2 \<and> hs_pending_body_wire s = 0"
proof -
  from example_stream obtain s where run: "feed_data_all http_stream_new
     [ascii ''HTTP/1.1 200 OK'' @ CRLF @ ascii ''Content-Length: 2'' @ [13], [10, 13, 10] @ ascii ''ok''] =
     (Inr [\<lparr>ao_events = [], ao_auto_consumed = 35\<rparr>,
           \<lparr>ao_events = [uncosted (Head \<lparr>hh_status = 200, hh_headers = [(ascii ''content-length'', ascii ''2'')]\<rparr>),
                         \<lparr>se_item = Body (ascii ''ok''), se_wire_cost = 2\<rparr>],
            ao_auto_consumed = 3\<rparr>], s)" ..
  from http_stream_delivers [OF run] have "hs_pending_body_wire s = 0" by (simp add: CRLF_def)
  with run show ?thesis by (auto simp: wire_total_def simp del: feed_data_all.simps)
qed

end
