(* ===== verification/Spl_Carrier_Demux.thy ===== *)
theory Spl_Carrier_Demux
  imports Spl_Http_Stream
begin

text \<open>
  The persistent carrier's demultiplexer, \<open>CarrierDemux\<close> of \<open>crates/spl-core/src/mux.rs\<close>: one
  frame decoder for the connection, and for every registered stream an \<open>HttpStreamAssembler\<close>
  and a \<open>RecvWindow\<close>. The hash map of streams is a partial function. A step of the dispatch
  loop returns \<open>Inr ()\<close> to go on with the next frame (every arm of the source ends with
  \<open>continue\<close>); an \<open>expect\<close> or \<open>debug_assert\<close> that fails is a \<open>Panic\<close>.
\<close>

subsection \<open>State and output\<close>

record carrier_stream =
  cs_assembler :: http_stream
  cs_recv_window :: recv_window

record carrier_demux =
  dm_decoder :: frame_decoder
  dm_streams :: "u32 \<Rightarrow> carrier_stream option"
  dm_fatal_violation :: "frame_violation option"

record demux_output =
  do_pongs :: "bytes list"
  do_inbound_pongs :: "bytes list"
  do_stream_events :: "(u32 \<times> stream_event) list"
  do_window_grants :: "(u32 \<times> u32) list"
  do_emit_frames :: "bytes list"
  do_violations :: "frame_violation list"

definition demux_output_default :: demux_output where
  "demux_output_default =
     \<lparr>do_pongs = [], do_inbound_pongs = [], do_stream_events = [], do_window_grants = [],
      do_emit_frames = [], do_violations = []\<rparr>"

definition demux_new :: carrier_demux where
  "demux_new = \<lparr>dm_decoder = decoder_new, dm_streams = Map.empty, dm_fatal_violation = None\<rparr>"

definition open_stream :: "carrier_demux \<Rightarrow> u32 \<Rightarrow> carrier_demux" where
  "open_stream m sid =
     m\<lparr>dm_streams := (dm_streams m)(sid \<mapsto>
         \<lparr>cs_assembler = http_stream_new, cs_recv_window = recv_new\<rparr>)\<rparr>"

definition demux_remove_stream :: "carrier_demux \<Rightarrow> u32 \<Rightarrow> carrier_demux" where
  "demux_remove_stream m sid = m\<lparr>dm_streams := (dm_streams m)(sid := None)\<rparr>"

definition set_stream :: "carrier_demux \<Rightarrow> u32 \<Rightarrow> carrier_stream \<Rightarrow> carrier_demux" where
  "set_stream m sid st = m\<lparr>dm_streams := (dm_streams m)(sid \<mapsto> st)\<rparr>"

definition demux_consume ::
  "carrier_demux \<Rightarrow> u32 \<Rightarrow> nat \<Rightarrow> (mux_error fault + bytes option) \<times> carrier_demux" where
  "demux_consume m sid n =
     (case dm_streams m sid of
        None \<Rightarrow> (Inr None, m)
      | Some st \<Rightarrow>
          (case consume (cs_recv_window st) n of
             Inl p \<Rightarrow> (Inl (Panic p), m)
           | Inr (None, w) \<Rightarrow> (Inr None, set_stream m sid (st\<lparr>cs_recv_window := w\<rparr>))
           | Inr (Some k, w) \<Rightarrow>
               (case encode (window_frame sid k) of
                  Inl e \<Rightarrow> (Inl (Err (FrameFailed e)), set_stream m sid (st\<lparr>cs_recv_window := w\<rparr>))
                | Inr b \<Rightarrow> (Inr (Some b), set_stream m sid (st\<lparr>cs_recv_window := w\<rparr>)))))"

definition frame_violation_of :: "frame \<Rightarrow> frame_violation" where
  "frame_violation_of f =
     \<lparr>fv_stream_id = stream_id f, fv_flags = flags f, fv_length = length (payload f)\<rparr>"

definition is_window_for :: "u32 \<Rightarrow> bytes \<Rightarrow> bool" where
  "is_window_for sid b \<longleftrightarrow>
     \<not> (length b < 5 \<or> u32_from_be_bytes (b ! 0) (b ! 1) (b ! 2) (b ! 3) \<noteq> sid
        \<or> b ! 4 AND FLAG_WINDOW = 0)"

definition remove_emitted_windows :: "bytes list \<Rightarrow> u32 \<Rightarrow> bytes list" where
  "remove_emitted_windows bss sid = filter (\<lambda>b. \<not> is_window_for sid b) bss"

definition drop_windows :: "demux_output \<Rightarrow> u32 \<Rightarrow> demux_output" where
  "drop_windows out sid = out\<lparr>do_emit_frames := remove_emitted_windows (do_emit_frames out) sid\<rparr>"

definition emit :: "demux_output \<Rightarrow> bytes \<Rightarrow> demux_output" where
  "emit out b = out\<lparr>do_emit_frames := do_emit_frames out @ [b]\<rparr>"

definition event :: "demux_output \<Rightarrow> u32 \<Rightarrow> stream_event \<Rightarrow> demux_output" where
  "event out sid ev = out\<lparr>do_stream_events := do_stream_events out @ [(sid, ev)]\<rparr>"

subsection \<open>The dispatch loop\<close>

type_synonym demux_step = "(mux_error fault + unit) \<times> carrier_demux \<times> demux_output"

definition reject_attributable :: "frame \<Rightarrow> carrier_demux \<Rightarrow> demux_output \<Rightarrow> demux_step" where
  "reject_attributable f m out =
     (let sid = stream_id f;
          known = dm_streams m sid \<noteq> None;
          out1 = (if known then drop_windows out sid else out)
      in case encode (reset_frame sid RESET_PROTOCOL_ERROR) of
           Inl e \<Rightarrow> (Inl (Err (FrameFailed e)), m, out1)
         | Inr b \<Rightarrow>
             let out2 = emit out1 b;
                 out3 = (if known then event out2 sid (uncosted (End (EndReset RProtocolError))) else out2);
                 m1 = (if known then demux_remove_stream m sid else m)
             in (Inr (), m1, out3\<lparr>do_violations := do_violations out3 @ [frame_violation_of f]\<rparr>))"

text \<open>A terminal event: pending WINDOW frames of the stream are dropped and it is forgotten.\<close>

definition end_stream :: "carrier_demux \<Rightarrow> demux_output \<Rightarrow> u32 \<Rightarrow> stream_item \<Rightarrow> demux_step" where
  "end_stream m out sid item =
     (Inr (), demux_remove_stream m sid, event (drop_windows out sid) sid (uncosted item))"

definition demux_data :: "frame \<Rightarrow> carrier_demux \<Rightarrow> demux_output \<Rightarrow> demux_step" where
  "demux_data f m out =
     (let sid = stream_id f in
      case dm_streams m sid of
        None \<Rightarrow> (Inl (Panic ''known stream exists''), m, out)
      | Some st \<Rightarrow>
          (case debit (cs_recv_window st) (length (payload f)) of
             (Inl _, _) \<Rightarrow>
               (case encode (reset_frame sid RESET_FLOW_CONTROL_ERROR) of
                  Inl e \<Rightarrow> (Inl (Err (FrameFailed e)), m, drop_windows out sid)
                | Inr b \<Rightarrow>
                    (Inr (), demux_remove_stream m sid,
                     event (emit (drop_windows out sid) b) sid
                       (uncosted (End (EndReset RFlowControlError)))))
           | (Inr _, w) \<Rightarrow>
               (case feed_data (cs_assembler st) (payload f) of
                  (Inl (HttpFailed _), s) \<Rightarrow>
                    end_stream (set_stream m sid \<lparr>cs_assembler = s, cs_recv_window = w\<rparr>) out sid
                      (End (EndReset RUnspecified))
                | (Inl CapExceeded, s) \<Rightarrow>
                    end_stream (set_stream m sid \<lparr>cs_assembler = s, cs_recv_window = w\<rparr>) out sid
                      (End (EndReset RUnspecified))
                | (Inl e, s) \<Rightarrow>
                    (Inl (Err e), set_stream m sid \<lparr>cs_assembler = s, cs_recv_window = w\<rparr>, out)
                | (Inr assembled, s) \<Rightarrow>
                    (case consume w (ao_auto_consumed assembled) of
                       Inl p \<Rightarrow>
                         (Inl (Panic p), set_stream m sid \<lparr>cs_assembler = s, cs_recv_window = w\<rparr>, out)
                     | Inr (g, w') \<Rightarrow>
                         (let m1 = set_stream m sid \<lparr>cs_assembler = s, cs_recv_window = w'\<rparr> in
                          case (case g of
                                  None \<Rightarrow> Inr out
                                | Some k \<Rightarrow> map_sum FrameFailed (emit out) (encode (window_frame sid k))) of
                            Inl e \<Rightarrow> (Inl (Err e), m1, out)
                          | Inr out1 \<Rightarrow>
                              (let out2 = out1\<lparr>do_stream_events := do_stream_events out1
                                     @ map (Pair sid) (ao_events assembled)\<rparr> in
                               if flags f = FLAG_DATA OR FLAG_CLOSE
                               then end_stream m1 out2 sid (fst (hs_close s))
                               else (Inr (), m1, out2)))))))"

definition demux_frame :: "frame \<Rightarrow> carrier_demux \<Rightarrow> demux_output \<Rightarrow> demux_step" where
  "demux_frame f m out =
     (let sid = stream_id f in
      if sid = 0 then
        (case control_pong f of
           Some pong \<Rightarrow>
             (case encode pong of
                Inl e \<Rightarrow> (Inl (Err (FrameFailed e)), m, out)
              | Inr b \<Rightarrow> (Inr (), m, out\<lparr>do_pongs := do_pongs out @ [b]\<rparr>))
         | None \<Rightarrow>
             (case control_pong_nonce f of
                Some nonce \<Rightarrow> (Inr (), m, out\<lparr>do_inbound_pongs := do_inbound_pongs out @ [nonce]\<rparr>)
              | None \<Rightarrow>
                  (Inl (Err (Protocol (frame_violation_of f))),
                   m\<lparr>dm_fatal_violation := Some (frame_violation_of f)\<rparr>, out)))
      else if \<not> flags_valid (flags f) then reject_attributable f m out
      else if flags f AND FLAG_OPEN \<noteq> 0 then reject_attributable f m out
      else if flags f = FLAG_PING \<or> flags f = FLAG_PONG then reject_attributable f m out
      else
        (case dm_streams m sid of
           None \<Rightarrow>
             (if flags f AND FLAG_DATA \<noteq> 0 \<or> flags f = FLAG_WINDOW
              then reject_attributable f m out else (Inr (), m, out))
         | Some st \<Rightarrow>
             if flags f = FLAG_RESET
             then end_stream m out sid (fst (hs_reset (cs_assembler st) (from_payload (payload f))))
             else if flags f = FLAG_CLOSE
             then end_stream m out sid (fst (hs_close (cs_assembler st)))
             else if flags f = FLAG_DATA \<or> flags f = FLAG_DATA OR FLAG_CLOSE
             then demux_data f m out
             else if flags f \<noteq> FLAG_WINDOW then (Inl (Panic ''debug_assert_eq''), m, out)
             else
               (case window_credit f of
                  None \<Rightarrow> reject_attributable f m out
                | Some credit \<Rightarrow>
                    (Inr (), m, out\<lparr>do_window_grants := do_window_grants out @ [(sid, credit)]\<rparr>))))"

fun demux_loop ::
  "frame list \<Rightarrow> carrier_demux \<Rightarrow> demux_output \<Rightarrow> (mux_error fault + demux_output) \<times> carrier_demux" where
  "demux_loop [] m out = (Inr out, m)"
| "demux_loop (f # fs) m out =
     (case demux_frame f m out of
        (Inl e, m', out') \<Rightarrow> (Inl e, m')
      | (Inr _, m', out') \<Rightarrow> demux_loop fs m' out')"

definition demux_feed :: "carrier_demux \<Rightarrow> bytes \<Rightarrow> (mux_error fault + demux_output) \<times> carrier_demux" where
  "demux_feed m data =
     (case dm_fatal_violation m of
        Some v \<Rightarrow> (Inl (Err (Protocol v)), m)
      | None \<Rightarrow>
          (case drain (decoder_feed (dm_decoder m) data) of
             (Inl e, d) \<Rightarrow> (Inl (Err (FrameFailed e)), m\<lparr>dm_decoder := d\<rparr>)
           | (Inr fs, d) \<Rightarrow> demux_loop fs (m\<lparr>dm_decoder := d\<rparr>) demux_output_default))"

subsection \<open>Specification: one machine per stream\<close>

text \<open>
  What a frame means to its own stream, as a function of that stream's state alone: the new
  state (\<open>None\<close> when it is no longer registered) and the events for it.
\<close>

definition ended :: "stream_end \<Rightarrow> carrier_stream option \<times> stream_event list" where
  "ended e = (None, [uncosted (End e)])"

definition data_effect :: "frame \<Rightarrow> carrier_stream \<Rightarrow> carrier_stream option \<times> stream_event list" where
  "data_effect f st =
     (case debit (cs_recv_window st) (length (payload f)) of
        (Inl _, _) \<Rightarrow> ended (EndReset RFlowControlError)
      | (Inr _, w) \<Rightarrow>
          (case feed_data (cs_assembler st) (payload f) of
             (Inl _, s) \<Rightarrow> ended (EndReset RUnspecified)
           | (Inr assembled, s) \<Rightarrow>
               (case consume w (ao_auto_consumed assembled) of
                  Inl p \<Rightarrow> (None, [])
                | Inr (g, w') \<Rightarrow>
                    (if flags f = FLAG_DATA OR FLAG_CLOSE
                     then (None, ao_events assembled @ [uncosted (End EndClose)])
                     else (Some \<lparr>cs_assembler = s, cs_recv_window = w'\<rparr>, ao_events assembled)))))"

fun stream_effect :: "frame \<Rightarrow> carrier_stream option \<Rightarrow> carrier_stream option \<times> stream_event list" where
  "stream_effect f None = (None, [])"
| "stream_effect f (Some st) =
     (if \<not> flags_valid (flags f) \<or> flags f AND FLAG_OPEN \<noteq> 0 \<or> flags f = FLAG_PING \<or> flags f = FLAG_PONG
      then ended (EndReset RProtocolError)
      else if flags f = FLAG_RESET then ended (EndReset (from_payload (payload f)))
      else if flags f = FLAG_CLOSE then ended EndClose
      else if flags f = FLAG_DATA \<or> flags f = FLAG_DATA OR FLAG_CLOSE then data_effect f st
      else if window_credit f = None then ended (EndReset RProtocolError)
      else (Some st, []))"

fun stream_run :: "frame list \<Rightarrow> carrier_stream option \<Rightarrow> carrier_stream option \<times> stream_event list" where
  "stream_run [] st = (st, [])"
| "stream_run (f # fs) st =
     (let (st1, es1) = stream_effect f st; (st2, es2) = stream_run fs st1 in (st2, es1 @ es2))"

definition events_for :: "u32 \<Rightarrow> (u32 \<times> stream_event) list \<Rightarrow> stream_event list" where
  "events_for sid es = map snd (filter (\<lambda>(x, _). x = sid) es)"

lemma events_for_simps [simp]:
  "events_for sid [] = []"
  "events_for sid (es @ es') = events_for sid es @ events_for sid es'"
  "events_for sid (map (Pair sid) evs) = evs"
  "sid \<noteq> sid' \<Longrightarrow> events_for sid (map (Pair sid') evs) = []"
  by (induction evs) (simp_all add: events_for_def)

subsection \<open>The books of a stream\<close>

text \<open>
  Outstanding wire bytes are those waiting in the assembler and those of events that the
  consumer has not drained yet (\<open>l\<close>). After a failed pass, whose events are lost, more may
  be outstanding: \<open>exact\<close> says that no pass has failed.
\<close>

definition books :: "bool \<Rightarrow> carrier_stream \<Rightarrow> nat \<Rightarrow> bool" where
  "books exact st l \<longleftrightarrow>
     stream_ok (cs_assembler st) \<and> recv_ok (cs_recv_window st)
     \<and> hs_pending_body_wire (cs_assembler st) + l \<le> outstanding (cs_recv_window st)
     \<and> (exact \<longrightarrow> hs_pending_body_wire (cs_assembler st) + l = outstanding (cs_recv_window st))"

definition demux_inv :: "bool \<Rightarrow> carrier_demux \<Rightarrow> (u32 \<Rightarrow> nat) \<Rightarrow> bool" where
  "demux_inv exact m l \<longleftrightarrow> (\<forall>sid st. dm_streams m sid = Some st \<longrightarrow> books exact st (l sid))"

lemma hs_feed_body_errors: "hs_feed_body s p out = (Inl e, s') \<Longrightarrow> \<exists>h. e = HttpFailed h"
  by (auto simp: hs_feed_body_def Let_def map_sum_Inl_iff split: if_splits sum.splits prod.splits)

lemma feed_data_errors:
  "feed_data s p = (Inl e, s') \<Longrightarrow> e = CapExceeded \<or> (\<exists>h. e = HttpFailed h)"
  by (auto simp: feed_data_def Let_def dest: hs_feed_body_errors
      split: if_splits option.splits sum.splits prod.splits)

lemma data_books:
  assumes "books exact st l" and "debit (cs_recv_window st) (length p) = (Inr u, w)"
    and "feed_data (cs_assembler st) p = (Inr out, s)"
  obtains g w' where "consume w (ao_auto_consumed out) = Inr (g, w')"
    and "books exact \<lparr>cs_assembler = s, cs_recv_window = w'\<rparr> (l + wire_total (ao_events out))"
proof -
  from assms(1) have ok: "recv_ok (cs_recv_window st)" "stream_ok (cs_assembler st)"
    by (simp_all add: books_def)
  from rw.debit_okD [OF ok(1) assms(2)]
  have w: "recv_ok w" "outstanding w = outstanding (cs_recv_window st) + length p" by auto
  from feed_data_accounts [OF ok(2) assms(3)]
  have acc: "stream_ok s" "hs_pending_body_wire (cs_assembler st) + length p
      = ao_auto_consumed out + wire_total (ao_events out) + hs_pending_body_wire s" by auto
  with assms(1) w have "ao_auto_consumed out \<le> outstanding w" by (simp add: books_def)
  from consume_fits [OF w(1) this] obtain g w' where
    c: "consume w (ao_auto_consumed out) = Inr (g, w')" "recv_ok w'"
      "outstanding w' = outstanding w - ao_auto_consumed out" by blast
  with assms(1) w acc have "books exact \<lparr>cs_assembler = s, cs_recv_window = w'\<rparr> (l + wire_total (ao_events out))"
    by (auto simp: books_def)
  with c(1) show thesis by (rule that)
qed

lemma ended_books [simp]: "ended e = (Some st, es) \<longleftrightarrow> False"
  by (simp add: ended_def)

lemma stream_effect_books:
  assumes "books exact st l" and "stream_effect f (Some st) = (Some st', es)"
  shows "books exact st' (l + wire_total es)"
proof (cases "flags f = FLAG_DATA \<or> flags f = FLAG_DATA OR FLAG_CLOSE")
  case True
  with assms(2) have "data_effect f st = (Some st', es)" by (auto split: if_splits)
  then obtain w u out s g w' where "debit (cs_recv_window st) (length (payload f)) = (Inr u, w)"
    "feed_data (cs_assembler st) (payload f) = (Inr out, s)" "consume w (ao_auto_consumed out) = Inr (g, w')"
    "st' = \<lparr>cs_assembler = s, cs_recv_window = w'\<rparr>" "es = ao_events out"
    by (auto simp: data_effect_def split: prod.splits sum.splits if_splits)
  with data_books [OF assms(1)] show ?thesis by fastforce
next
  case False
  with assms show ?thesis by (auto split: if_splits)
qed

subsection \<open>The demultiplexer refines the per-stream machines\<close>

lemma output_simps [simp]:
  "do_stream_events (drop_windows out sid) = do_stream_events out"
  "do_stream_events (emit out b) = do_stream_events out"
  "do_stream_events (event out sid ev) = do_stream_events out @ [(sid, ev)]"
  "do_emit_frames (drop_windows out sid) = remove_emitted_windows (do_emit_frames out) sid"
  "do_emit_frames (emit out b) = do_emit_frames out @ [b]"
  "do_emit_frames (event out sid ev) = do_emit_frames out"
  by (simp_all add: drop_windows_def emit_def event_def)

lemma set_stream_simps [simp]:
  "dm_streams (set_stream m sid st) = (dm_streams m)(sid \<mapsto> st)"
  "demux_remove_stream (set_stream m sid st) sid = demux_remove_stream m sid"
  by (simp_all add: set_stream_def demux_remove_stream_def)

lemma flags_left:
  assumes "flags_valid fl" and "fl AND FLAG_OPEN = 0" and "fl \<noteq> FLAG_PING" and "fl \<noteq> FLAG_PONG"
    and "fl \<noteq> FLAG_RESET" and "fl \<noteq> FLAG_CLOSE" and "fl \<noteq> FLAG_DATA" and "fl \<noteq> FLAG_DATA OR FLAG_CLOSE"
  shows "fl = FLAG_WINDOW"
  using assms by (auto simp: flags_valid_def flag_defs)

text \<open>What a step does to the streams and to the events, for its own stream only.\<close>

definition effect_on :: "u32 \<Rightarrow> carrier_demux \<Rightarrow> demux_output \<Rightarrow> carrier_stream option \<times> stream_event list \<Rightarrow> demux_step \<Rightarrow> bool"
where
  "effect_on sid m out eff step \<longleftrightarrow>
     (case step of (r, m', out') \<Rightarrow>
        r = Inr () \<and> m' = m\<lparr>dm_streams := (dm_streams m)(sid := fst eff)\<rparr>
        \<and> do_stream_events out' = do_stream_events out @ map (Pair sid) (snd eff))"

lemma reject_known:
  "dm_streams m (stream_id f) = Some st \<Longrightarrow>
     effect_on (stream_id f) m out (ended (EndReset RProtocolError)) (reject_attributable f m out)"
  by (simp add: effect_on_def reject_attributable_def ended_def Let_def demux_remove_stream_def)

lemma reject_unknown:
  "dm_streams m (stream_id f) = None \<Longrightarrow>
     effect_on (stream_id f) m out (None, []) (reject_attributable f m out)"
  by (simp add: effect_on_def reject_attributable_def Let_def fun_upd_idem)

lemma end_stream_effect: "effect_on sid m out (ended e) (end_stream m out sid (End e))"
  by (simp add: effect_on_def end_stream_def ended_def demux_remove_stream_def)

lemma demux_data_refines:
  assumes "dm_streams m (stream_id f) = Some st" and "books exact st l"
  shows "effect_on (stream_id f) m out (data_effect f st) (demux_data f m out)"
proof -
  let ?sid = "stream_id f"
  obtain r w where deb: "debit (cs_recv_window st) (length (payload f)) = (r, w)" by fastforce
  show ?thesis
  proof (cases r)
    case (Inl e)
    with deb assms show ?thesis
      by (simp add: demux_data_def data_effect_def effect_on_def ended_def demux_remove_stream_def Let_def)
  next
    case (Inr u)
    obtain q s where feed: "feed_data (cs_assembler st) (payload f) = (q, s)" by fastforce
    show ?thesis
    proof (cases q)
      case (Inl e)
      with feed have "e = CapExceeded \<or> (\<exists>h. e = HttpFailed h)" by (auto dest: feed_data_errors)
      with Inl \<open>r = Inr u\<close> deb feed assms show ?thesis
        by (auto simp: demux_data_def data_effect_def effect_on_def ended_def end_stream_def
            demux_remove_stream_def set_stream_def Let_def)
    next
      case (Inr assembled)
      with feed have feed': "feed_data (cs_assembler st) (payload f) = (Inr assembled, s)" by simp
      from \<open>r = Inr u\<close> deb have "debit (cs_recv_window st) (length (payload f)) = (Inr u, w)" by simp
      from data_books [OF assms(2) this feed'] obtain g w'
        where "consume w (ao_auto_consumed assembled) = Inr (g, w')" by blast
      with \<open>r = Inr u\<close> deb feed' assms show ?thesis
        by (cases g)
          (simp_all add: demux_data_def data_effect_def effect_on_def end_stream_def hs_close_def
            demux_remove_stream_def set_stream_def Let_def)
    qed
  qed
qed

lemma demux_frame_refines:
  assumes "demux_inv exact m l" and "stream_id f \<noteq> 0"
  shows "effect_on (stream_id f) m out (stream_effect f (dm_streams m (stream_id f))) (demux_frame f m out)"
proof (cases "dm_streams m (stream_id f)")
  case None
  then have same: "effect_on (stream_id f) m out (None, []) (Inr (), m, out)"
    by (simp add: effect_on_def fun_upd_idem)
  with None assms(2) reject_unknown [OF None, of out] show ?thesis by (simp add: demux_frame_def Let_def)
next
  case (Some st)
  with assms(1) have "books exact st (l (stream_id f))" by (simp add: demux_inv_def)
  note data = demux_data_refines [OF Some this, of out]
  have same: "effect_on (stream_id f) m out (Some st, []) (Inr (), m, out')"
    if "do_stream_events out' = do_stream_events out" for out'
    using Some that by (simp add: effect_on_def fun_upd_idem)
  show ?thesis
  proof (cases "flags_valid (flags f) \<and> flags f AND FLAG_OPEN = 0 \<and> flags f \<noteq> FLAG_PING
      \<and> flags f \<noteq> FLAG_PONG")
    case False
    with Some assms(2) reject_known [OF Some, of out] show ?thesis by (auto simp: demux_frame_def Let_def)
  next
    case True
    then show ?thesis
      using Some assms(2) data reject_known [OF Some, of out] end_stream_effect flags_left [of "flags f"] same
      by (auto simp: demux_frame_def Let_def hs_close_def hs_reset_def split: option.split)
  qed
qed

lemma demux_frame_zero:
  assumes "stream_id f = 0" and "demux_frame f m out = (r, m', out')"
  shows "r \<noteq> Inl (Panic p) \<and> dm_streams m' = dm_streams m \<and> do_stream_events out' = do_stream_events out"
  using assms by (auto simp: demux_frame_def Let_def split: option.splits)

text \<open>The ledger after events with costs have been delivered.\<close>

definition charge :: "(u32 \<Rightarrow> nat) \<Rightarrow> (u32 \<times> stream_event) list \<Rightarrow> u32 \<Rightarrow> nat" where
  "charge l es = (\<lambda>sid. l sid + wire_total (events_for sid es))"

lemma charge_Nil [simp]: "charge l [] = l"
  by (simp add: charge_def)

lemma charge_append: "charge l (es @ es') = charge (charge l es) es'"
  by (simp add: charge_def add.assoc)

lemma demux_inv_weaken: "demux_inv exact m (charge l es) \<Longrightarrow> demux_inv False m l"
  by (fastforce simp: demux_inv_def books_def charge_def)

lemma demux_frame_step:
  assumes "demux_inv exact m l" and "demux_frame f m out = (r, m', out')"
  obtains es where "r \<noteq> Inl (Panic p)" "do_stream_events out' = do_stream_events out @ es"
    "demux_inv exact m' (charge l es)"
    "\<And>sid. sid \<noteq> 0 \<Longrightarrow> stream_run (filter (\<lambda>g. stream_id g = sid) [f]) (dm_streams m sid)
        = (dm_streams m' sid, events_for sid es)"
proof (cases "stream_id f = 0")
  case True
  from demux_frame_zero [OF this assms(2)] assms(1) that [of "[]"] True show thesis
    by (auto simp: demux_inv_def)
next
  case False
  let ?sid = "stream_id f"
  obtain st es where eff: "stream_effect f (dm_streams m ?sid) = (st, es)" by fastforce
  with demux_frame_refines [OF assms(1) False, of out] assms(2)
  have r: "r = Inr ()" "m' = m\<lparr>dm_streams := (dm_streams m)(?sid := st)\<rparr>"
    "do_stream_events out' = do_stream_events out @ map (Pair ?sid) es"
    by (simp_all add: effect_on_def)
  have "books exact st' (l ?sid + wire_total es)" if "st = Some st'" for st'
  proof -
    from eff that obtain st0 where "dm_streams m ?sid = Some st0" by (cases "dm_streams m ?sid") auto
    with eff that assms(1) show ?thesis
      by (auto simp: demux_inv_def simp del: stream_effect.simps intro: stream_effect_books)
  qed
  then have "demux_inv exact m' (charge l (map (Pair ?sid) es))"
    using assms(1) r(2) by (auto simp: demux_inv_def charge_def)
  then show thesis
    using r eff by (intro that [of "map (Pair ?sid) es"]) (auto simp: Let_def)
qed

lemma stream_run_append:
  "stream_run (fs @ gs) st =
     (let (st1, es1) = stream_run fs st; (st2, es2) = stream_run gs st1 in (st2, es1 @ es2))"
  by (induction fs arbitrary: st) (auto simp: Let_def split: prod.splits)

lemma demux_loop_refines:
  assumes "demux_inv exact m l" and "demux_loop fs m out = (Inr out', m')"
  shows "\<exists>es. do_stream_events out' = do_stream_events out @ es \<and> demux_inv exact m' (charge l es)
    \<and> (\<forall>sid. sid \<noteq> 0 \<longrightarrow> stream_run (filter (\<lambda>g. stream_id g = sid) fs) (dm_streams m sid)
          = (dm_streams m' sid, events_for sid es))"
  using assms
proof (induction fs arbitrary: m out l)
  case (Cons f fs)
  obtain r m1 out1 where step: "demux_frame f m out = (r, m1, out1)" by (cases "demux_frame f m out")
  with Cons.prems(2) have rest: "demux_loop fs m1 out1 = (Inr out', m')" by (auto split: sum.splits)
  from Cons.prems(1) step show ?case
  proof (rule demux_frame_step)
    fix es1
    assume es1: "do_stream_events out1 = do_stream_events out @ es1" "demux_inv exact m1 (charge l es1)"
      "\<And>sid. sid \<noteq> 0 \<Longrightarrow> stream_run (filter (\<lambda>g. stream_id g = sid) [f]) (dm_streams m sid)
          = (dm_streams m1 sid, events_for sid es1)"
    from Cons.IH [OF es1(2) rest] obtain es2 where
      es2: "do_stream_events out' = do_stream_events out1 @ es2" "demux_inv exact m' (charge (charge l es1) es2)"
      "\<And>sid. sid \<noteq> 0 \<Longrightarrow> stream_run (filter (\<lambda>g. stream_id g = sid) fs) (dm_streams m1 sid)
          = (dm_streams m' sid, events_for sid es2)" by blast
    have "stream_run (filter (\<lambda>g. stream_id g = sid) (f # fs)) (dm_streams m sid)
        = (dm_streams m' sid, events_for sid (es1 @ es2))" if "sid \<noteq> 0" for sid
      using es1(3) [OF that] es2(3) [OF that]
        stream_run_append [of "filter (\<lambda>g. stream_id g = sid) [f]" "filter (\<lambda>g. stream_id g = sid) fs"]
      by (simp split: if_splits)
    with es1 es2 show ?thesis by (intro exI [of _ "es1 @ es2"]) (simp add: charge_append)
  qed
qed simp

lemma demux_loop_fails:
  assumes "demux_inv exact m l" and "demux_loop fs m out = (Inl e, m')"
  shows "e \<noteq> Panic p \<and> demux_inv False m' l"
  using assms
proof (induction fs arbitrary: m out l exact)
  case (Cons f fs)
  obtain r m1 out1 where step: "demux_frame f m out = (r, m1, out1)" by (cases "demux_frame f m out")
  from Cons.prems(1) step show ?case
  proof (rule demux_frame_step [where p = p])
    fix es1
    assume es1: "r \<noteq> Inl (Panic p)" "demux_inv exact m1 (charge l es1)"
    then have weak: "demux_inv False m1 l" by (auto intro: demux_inv_weaken)
    show ?thesis
    proof (cases r)
      case (Inl e')
      with Cons.prems(2) step es1 weak show ?thesis by auto
    next
      case (Inr u)
      with Cons.prems(2) step have "demux_loop fs m1 out1 = (Inl e, m')" by simp
      with Cons.IH [OF weak] show ?thesis by blast
    qed
  qed
qed simp

subsection \<open>Histories of a carrier\<close>

text \<open>
  A demultiplexer in use: streams are opened and removed, bytes of the peer are fed, and the
  consumer gives back wire bytes of events that were delivered to it and that it has not
  given back before. The ledger holds, for every stream, what it may still give back; opening
  a stream starts it at zero. The flag says that no feed has failed so far.
\<close>

inductive demux_reach :: "bool \<Rightarrow> carrier_demux \<Rightarrow> (u32 \<Rightarrow> nat) \<Rightarrow> bool" where
  reach_new: "demux_reach True demux_new l"
| reach_open: "demux_reach exact m l \<Longrightarrow> demux_reach exact (open_stream m sid) (l(sid := 0))"
| reach_remove: "demux_reach exact m l \<Longrightarrow> demux_reach exact (demux_remove_stream m sid) l"
| reach_consume:
    "\<lbrakk>demux_reach exact m l; n \<le> l sid; demux_consume m sid n = (Inr r, m')\<rbrakk>
      \<Longrightarrow> demux_reach exact m' (l(sid := l sid - n))"
| reach_feed:
    "\<lbrakk>demux_reach exact m l; demux_feed m data = (Inr out, m')\<rbrakk>
      \<Longrightarrow> demux_reach exact m' (charge l (do_stream_events out))"
| reach_fail:
    "\<lbrakk>demux_reach exact m l; demux_feed m data = (Inl (Err e), m')\<rbrakk> \<Longrightarrow> demux_reach False m' l"

lemma demux_consume_inv:
  assumes "demux_inv exact m l" and "n \<le> l sid"
  shows "\<exists>r m'. demux_consume m sid n = (Inr r, m') \<and> demux_inv exact m' (l(sid := l sid - n))"
proof (cases "dm_streams m sid")
  case None
  with assms show ?thesis by (auto simp: demux_consume_def demux_inv_def)
next
  case (Some st)
  with assms have b: "books exact st (l sid)" by (simp add: demux_inv_def)
  with assms(2) have "recv_ok (cs_recv_window st)" "n \<le> outstanding (cs_recv_window st)"
    by (auto simp: books_def)
  from consume_fits [OF this] obtain g w where c: "consume (cs_recv_window st) n = Inr (g, w)"
    "recv_ok w" "outstanding w = outstanding (cs_recv_window st) - n" by blast
  from b c assms(2) have "books exact (st\<lparr>cs_recv_window := w\<rparr>) (l sid - n)" by (auto simp: books_def)
  with Some c assms(1) show ?thesis
    by (cases g) (auto simp: demux_consume_def demux_inv_def)
qed

lemma demux_feed_refines:
  assumes "demux_inv exact m l" and "demux_feed m data = (Inr out, m')"
  obtains fs d where "drain (decoder_feed (dm_decoder m) data) = (Inr fs, d)"
    "demux_inv exact m' (charge l (do_stream_events out))"
    "\<And>sid. sid \<noteq> 0 \<Longrightarrow> stream_run (filter (\<lambda>g. stream_id g = sid) fs) (dm_streams m sid)
        = (dm_streams m' sid, events_for sid (do_stream_events out))"
proof -
  from assms(2) obtain fs d where d: "drain (decoder_feed (dm_decoder m) data) = (Inr fs, d)"
    and loop: "demux_loop fs (m\<lparr>dm_decoder := d\<rparr>) demux_output_default = (Inr out, m')"
    by (auto simp: demux_feed_def split: option.splits prod.splits sum.splits)
  have "demux_inv exact (m\<lparr>dm_decoder := d\<rparr>) l" using assms(1) by (simp add: demux_inv_def)
  from demux_loop_refines [OF this loop] that [OF d] show thesis
    by (auto simp: demux_output_default_def)
qed

lemma demux_feed_fails:
  assumes "demux_inv exact m l" and "demux_feed m data = (Inl e, m')"
  shows "e \<noteq> Panic p \<and> demux_inv False m' l"
proof -
  have weak: "demux_inv False m l" using assms(1) demux_inv_weaken [of exact m l "[]"] by simp
  have "demux_inv exact (m\<lparr>dm_decoder := d\<rparr>) l" for d using assms(1) by (simp add: demux_inv_def)
  from demux_loop_fails [OF this] weak assms(2) show ?thesis
    by (auto simp: demux_feed_def demux_inv_def split: option.splits prod.splits sum.splits)
qed

lemma demux_reach_inv: "demux_reach exact m l \<Longrightarrow> demux_inv exact m l"
proof (induction rule: demux_reach.induct)
  case (reach_open exact m l sid)
  then show ?case
    by (auto simp: demux_inv_def open_stream_def books_def stream_new_ok) (simp_all add: http_stream_new_def)
next
  case (reach_consume exact m l n sid r m')
  then show ?case using demux_consume_inv [of exact m l n sid] by (auto simp: fun_upd_def)
next
  case (reach_feed exact m l data out m')
  then show ?case using demux_feed_refines by metis
next
  case (reach_fail exact m l data e m')
  then show ?case using demux_feed_fails by blast
qed (auto simp: demux_inv_def demux_new_def demux_remove_stream_def)

subsection \<open>Properties of the carrier\<close>

text \<open>
  C1. Receive-window accounting over a whole carrier. In every history of opening,
  removing, feeding and draining, whatever the peer sends: neither \<open>feed\<close> nor the \<open>consume\<close> of
  delivered wire bytes can panic, and as long as no pass has failed, the bytes a stream still
  owes to its window are exactly those of undrained events and of an incomplete chunk, so that
  once these are zero the peer again has more than half a window.
\<close>

theorem carrier_accounting:
  assumes "demux_reach exact m l"
  shows "fst (demux_feed m data) \<noteq> Inl (Panic p)
    \<and> (n \<le> l sid \<longrightarrow> (\<exists>r m'. demux_consume m sid n = (Inr r, m')))
    \<and> (exact \<longrightarrow> (\<forall>st. dm_streams m sid = Some st \<longrightarrow>
          outstanding (cs_recv_window st) = hs_pending_body_wire (cs_assembler st) + l sid
          \<and> (hs_pending_body_wire (cs_assembler st) + l sid = 0 \<longrightarrow>
               INITIAL_WINDOW < 2 * rw_credit (cs_recv_window st))))"
proof -
  have inv: "demux_inv exact m l" using assms by (rule demux_reach_inv)
  show ?thesis
  proof (intro conjI impI allI)
    show "fst (demux_feed m data) \<noteq> Inl (Panic p)"
      using demux_feed_fails [OF inv, of data "Panic p"] by (cases "demux_feed m data") auto
    show "\<exists>r m'. demux_consume m sid n = (Inr r, m')" if "n \<le> l sid"
      using demux_consume_inv [of exact m l n sid] inv that by blast
    fix st
    assume "exact" "dm_streams m sid = Some st"
    with inv have b: "recv_ok (cs_recv_window st)"
      "outstanding (cs_recv_window st) = hs_pending_body_wire (cs_assembler st) + l sid"
      by (auto simp: demux_inv_def books_def)
    show "outstanding (cs_recv_window st) = hs_pending_body_wire (cs_assembler st) + l sid" by (rule b(2))
    show "INITIAL_WINDOW < 2 * rw_credit (cs_recv_window st)"
      if "hs_pending_body_wire (cs_assembler st) + l sid = 0"
      using rw.half_open [OF b(1)] b(2) that by simp
  qed
qed

theorem carrier_accounting_witness:
  "fst (demux_feed (open_stream demux_new 1) [1, 2, 3]) \<noteq> Inl (Panic ''x'')
   \<and> (\<exists>r m'. demux_consume (open_stream demux_new 1) 1 0 = (Inr r, m'))"
  using carrier_accounting [OF reach_open [OF reach_new, of 1 "\<lambda>_. 0"], of "[1, 2, 3]" "''x''" 0 1] by simp

text \<open>
  C2. The demultiplexer is a product of independent per-stream machines. After a
  successful feed, the state of every stream and the events delivered for it are those of the
  per-stream specification run on the frames of that stream alone: no frame for one stream,
  malformed or not, changes what another stream receives.
\<close>

theorem demux_refines_streams:
  assumes "demux_reach exact m l" and "demux_feed m data = (Inr out, m')" and "sid \<noteq> 0"
  shows "\<exists>fs d. drain (decoder_feed (dm_decoder m) data) = (Inr fs, d)
    \<and> stream_run (filter (\<lambda>f. stream_id f = sid) fs) (dm_streams m sid)
      = (dm_streams m' sid, events_for sid (do_stream_events out))"
  using demux_feed_refines [OF demux_reach_inv [OF assms(1)] assms(2)] assms(3) by metis

lemma demux_frame_close:
  "stream_id f \<noteq> 0 \<Longrightarrow> flags f = FLAG_CLOSE \<Longrightarrow> dm_streams m (stream_id f) = Some st \<Longrightarrow>
     demux_frame f m out = end_stream m out (stream_id f) (End EndClose)"
  by (simp add: demux_frame_def hs_close_def flags_valid_def flag_defs)

lemma demux_feed_example:
  "demux_feed (open_stream demux_new 1) (wire (frame_new 1 FLAG_CLOSE [])) =
     (Inr (event (drop_windows demux_output_default 1) 1 (uncosted (End EndClose))),
      demux_remove_stream (open_stream demux_new 1) 1)"
proof -
  have "drain (decoder_feed decoder_new (wire (frame_new 1 FLAG_CLOSE []))) =
      (Inr [frame_new 1 FLAG_CLOSE []], decoder_new)"
    using drain_encode [OF encode_control(3), of 1 "[]"] drain_new
    by (simp add: decoder_new_def decoder_feed_def)
  then show ?thesis
    by (simp add: demux_feed_def open_stream_def demux_new_def demux_frame_close end_stream_def
        demux_remove_stream_def)
qed

theorem demux_refines_streams_witness:
  "\<exists>fs d. drain (decoder_feed (dm_decoder (open_stream demux_new 1)) (wire (frame_new 1 FLAG_CLOSE []))) = (Inr fs, d)
     \<and> stream_run (filter (\<lambda>f. stream_id f = 1) fs) (dm_streams (open_stream demux_new 1) 1)
       = (None, [uncosted (End EndClose)])"
  using demux_refines_streams [OF reach_open [OF reach_new, of 1 "\<lambda>_. 0"] demux_feed_example, of 1]
  by (simp add: demux_remove_stream_def demux_output_default_def events_for_def)

text \<open>WINDOW frames are emitted only for streams that are still registered.\<close>

lemma wire_access [wire_simps]:
  "u32_from_be_bytes (wire f ! 0) (wire f ! Suc 0) (wire f ! 2) (wire f ! 3) = stream_id f"
  "wire f ! 4 = flags f" "\<not> length (wire f) < 5"
  by (simp_all add: wire_def u32_to_be_bytes_def)

lemma is_window_for_wire [simp]:
  "is_window_for sid (wire (window_frame x k)) \<longleftrightarrow> x = sid"
  "\<not> is_window_for sid (wire (reset_frame x r))"
  by (auto simp: is_window_for_def wire_simps window_frame_def reset_frame_def flag_defs)

definition windows_known :: "carrier_demux \<Rightarrow> demux_output \<Rightarrow> bool" where
  "windows_known m out \<longleftrightarrow>
     (\<forall>b\<in>set (do_emit_frames out). \<forall>sid. is_window_for sid b \<longrightarrow> dm_streams m sid \<noteq> None)"

lemmas windows_known_simps = windows_known_def demux_remove_stream_def remove_emitted_windows_def

lemma reject_windows_known:
  "windows_known m out \<Longrightarrow> reject_attributable f m out = (Inr u, m', out') \<Longrightarrow> windows_known m' out'"
  by (auto simp: reject_attributable_def Let_def windows_known_simps split: if_splits)

lemma end_windows_known:
  "windows_known m out \<Longrightarrow> end_stream m out x item = (Inr u, m', out') \<Longrightarrow> windows_known m' out'"
  by (auto simp: end_stream_def windows_known_simps)

lemma data_windows_known:
  assumes "windows_known m out" and "demux_data f m out = (Inr u, m', out')"
  shows "windows_known m' out'"
  using assms
  by (auto simp: demux_data_def Let_def end_stream_def windows_known_simps
      split: option.splits prod.splits sum.splits mux_error.splits if_splits)

lemma frame_windows_known:
  assumes "windows_known m out" and "demux_frame f m out = (Inr u, m', out')"
  shows "windows_known m' out'"
  using assms(2) reject_windows_known [OF assms(1)] data_windows_known [OF assms(1)]
    end_windows_known [OF assms(1)] assms(1)
  by (auto simp: demux_frame_def Let_def windows_known_def split: if_splits option.splits)

lemma loop_windows_known:
  "windows_known m out \<Longrightarrow> demux_loop fs m out = (Inr out', m') \<Longrightarrow> windows_known m' out'"
proof (induction fs arbitrary: m out)
  case (Cons f fs)
  obtain r m1 out1 where step: "demux_frame f m out = (r, m1, out1)" by (cases "demux_frame f m out")
  with Cons show ?case by (cases r) (auto dest: frame_windows_known)
qed simp

text \<open>
  No late WINDOW: after a feed, every WINDOW frame left to be written is for a stream
  that is still registered. A stream that ended in the same pass, by CLOSE, RESET or a
  violation, has had its pending grants withdrawn.
\<close>

theorem demux_no_late_window:
  assumes "demux_feed m data = (Inr out, m')" and "b \<in> set (do_emit_frames out)" and "is_window_for sid b"
  shows "dm_streams m' sid \<noteq> None"
proof -
  from assms(1) obtain fs d where "demux_loop fs (m\<lparr>dm_decoder := d\<rparr>) demux_output_default = (Inr out, m')"
    by (auto simp: demux_feed_def split: option.splits prod.splits sum.splits)
  moreover have "windows_known (m\<lparr>dm_decoder := d\<rparr>) demux_output_default"
    by (simp add: windows_known_def demux_output_default_def)
  ultimately have "windows_known m' out" by (rule loop_windows_known [rotated])
  with assms show ?thesis by (auto simp: windows_known_def)
qed

lemma find_replicate: "find_subsequence (replicate n 0) (CRLF @ CRLF) = None"
  by (induction n) (simp_all add: CRLF_def)

lemma demux_frame_data:
  "stream_id f \<noteq> 0 \<Longrightarrow> flags f = FLAG_DATA \<Longrightarrow> dm_streams m (stream_id f) = Some st \<Longrightarrow>
     demux_frame f m out = demux_data f m out"
  by (simp add: demux_frame_def flags_valid_def flag_defs)

lemma demux_window_example:
  assumes "RECEIVE_GRANT_THRESHOLD \<le> n" and "n \<le> INITIAL_WINDOW"
  shows "\<exists>out m'. demux_feed (open_stream demux_new 1) (wire (frame_new 1 FLAG_DATA (replicate n 0))) = (Inr out, m')
    \<and> do_emit_frames out = [wire (window_frame 1 (of_nat n))]"
proof -
  let ?f = "frame_new 1 FLAG_DATA (replicate n 0)"
  have "encode ?f = Inr (wire ?f)"
    using assms(2) by (intro encode_wire) (simp add: MAX_PAYLOAD_def window_consts)
  from drain_encode [OF this, of "[]"] have
    d: "drain (decoder_feed decoder_new (wire ?f)) = (Inr [?f], decoder_new)"
    using drain_new by (simp add: decoder_new_def decoder_feed_def)
  have "debit recv_new n = (Inr (), \<lparr>rw_credit = INITIAL_WINDOW - n, rw_unacked = 0\<rparr>)"
    using assms(2) by (simp add: debit_def recv_new_def)
  moreover have "feed_data http_stream_new (replicate n 0) =
      (Inr \<lparr>ao_events = [], ao_auto_consumed = n\<rparr>, http_stream_new\<lparr>hs_head_buf := replicate n 0\<rparr>)"
    using assms(2) feed_data_no_head [of http_stream_new "replicate n 0"] find_replicate [of n]
    by (simp add: http_stream_new_def MAX_ASSEMBLED_BYTES_def window_consts)
  moreover have "consume \<lparr>rw_credit = INITIAL_WINDOW - n, rw_unacked = 0\<rparr> n =
      Inr (Some (of_nat n), \<lparr>rw_credit = INITIAL_WINDOW, rw_unacked = 0\<rparr>)"
    using assms by (simp add: consume_def usize_checked_sub_def window_consts)
  moreover have "FLAG_DATA \<noteq> FLAG_DATA OR FLAG_CLOSE" by (simp add: flag_defs)
  ultimately show ?thesis
    by (simp add: demux_feed_def open_stream_def demux_new_def d demux_frame_data demux_data_def
        demux_output_default_def Let_def)
qed

theorem demux_no_late_window_witness:
  "\<exists>out m'. demux_feed (open_stream demux_new 1) (wire (frame_new 1 FLAG_DATA (replicate 600000 0))) = (Inr out, m')
     \<and> do_emit_frames out = [wire (window_frame 1 (of_nat 600000))] \<and> dm_streams m' 1 \<noteq> None"
proof -
  obtain n :: nat where n: "n = 600000" by simp
  from demux_window_example [of n] obtain out m' where
    run: "demux_feed (open_stream demux_new 1) (wire (frame_new 1 FLAG_DATA (replicate n 0))) = (Inr out, m')"
      "do_emit_frames out = [wire (window_frame 1 (of_nat n))]"
    by (auto simp: window_consts n)
  have "dm_streams m' 1 \<noteq> None"
    by (rule demux_no_late_window [OF run(1), of "wire (window_frame 1 (of_nat n))"]) (simp_all add: run(2))
  with run show ?thesis unfolding n by blast
qed

subsection \<open>Terminal events\<close>

fun is_end :: "stream_item \<Rightarrow> bool" where
  "is_end (End e) \<longleftrightarrow> True"
| "is_end _ \<longleftrightarrow> False"

definition no_end :: "stream_event list \<Rightarrow> bool" where
  "no_end es \<longleftrightarrow> list_all (\<lambda>e. \<not> is_end (se_item e)) es"

lemma no_end_simps [simp]: "no_end []" "no_end (es @ es') \<longleftrightarrow> no_end es \<and> no_end es'"
  by (simp_all add: no_end_def)

lemma feed_body_no_end:
  "hs_feed_body s p out = (Inr out', s') \<Longrightarrow> no_end (ao_events out) \<Longrightarrow> no_end (ao_events out')"
  by (auto simp: hs_feed_body_def Let_def no_end_def split: if_splits prod.splits sum.splits)

lemma feed_data_no_end:
  assumes "stream_ok s" and "feed_data s p = (Inr out, s')"
  shows "no_end (ao_events out)"
  using assms
proof (cases rule: feed_data_cases)
  case body
  then show ?thesis using feed_body_no_end by fastforce
next
  case (head n status headers)
  from feed_body_no_end [OF head(4)] show ?thesis by (simp add: no_end_def)
qed simp

definition ends_with :: "carrier_stream option \<Rightarrow> stream_event list \<Rightarrow> bool" where
  "ends_with st es \<longleftrightarrow>
     (case st of None \<Rightarrow> \<exists>es' e. es = es' @ [uncosted (End e)] \<and> no_end es' | Some _ \<Rightarrow> no_end es)"

lemma ended_ends: "ended e = (st, es) \<Longrightarrow> ends_with st es"
  by (auto simp: ended_def ends_with_def)

lemma data_effect_ends:
  assumes "books exact st l" and eff: "data_effect f st = (st', es)"
  shows "ends_with st' es"
proof -
  obtain r w where d: "debit (cs_recv_window st) (length (payload f)) = (r, w)" by fastforce
  obtain q s where fd: "feed_data (cs_assembler st) (payload f) = (q, s)" by fastforce
  show ?thesis
  proof (cases r)
    case (Inl e)
    with d eff have "ended (EndReset RFlowControlError) = (st', es)" by (simp add: data_effect_def)
    then show ?thesis by (rule ended_ends)
  next
    case r: (Inr u)
    show ?thesis
    proof (cases q)
      case (Inl e)
      with r d fd eff have "ended (EndReset RUnspecified) = (st', es)" by (simp add: data_effect_def)
      then show ?thesis by (rule ended_ends)
    next
      case (Inr out)
      with r d fd have deb: "debit (cs_recv_window st) (length (payload f)) = (Inr u, w)"
        and fd': "feed_data (cs_assembler st) (payload f) = (Inr out, s)" by simp_all
      from data_books [OF assms(1) deb fd'] obtain g w' where "consume w (ao_auto_consumed out) = Inr (g, w')" .
      moreover have "no_end (ao_events out)"
        using feed_data_no_end [OF _ fd'] assms(1) by (simp add: books_def)
      ultimately show ?thesis
        using eff deb fd' by (auto simp: data_effect_def ends_with_def split: if_splits)
    qed
  qed
qed

lemma stream_effect_ends:
  assumes "books exact st l" and "stream_effect f (Some st) = (st', es)"
  shows "ends_with st' es"
proof -
  let ?ends = "\<lambda>(st', es). ends_with st' es"
  have ended: "?ends (ended e)" for e
    using ended_ends [of e] by (cases "ended e") simp
  have data: "?ends (data_effect f st)"
    using data_effect_ends [OF assms(1)] by (cases "data_effect f st") simp
  have same: "?ends (Some st, [])" by (simp add: ends_with_def)
  have "?ends (stream_effect f (Some st))"
    unfolding stream_effect.simps by (simp only: if_distrib [of ?ends] ended data same if_cancel)
  with assms(2) show ?thesis by simp
qed

lemma stream_run_None: "stream_run fs None = (None, [])"
  by (induction fs) simp_all

lemma stream_run_ends:
  "books exact st l \<Longrightarrow> stream_run fs (Some st) = (st', es) \<Longrightarrow> ends_with st' es"
proof (induction fs arbitrary: st l es)
  case Nil
  then show ?case by (auto simp: ends_with_def)
next
  case (Cons f fs)
  obtain st1 es1 where eff: "stream_effect f (Some st) = (st1, es1)" by fastforce
  obtain es2 where rest: "stream_run fs st1 = (st', es2)" "es = es1 @ es2"
    using Cons.prems(2) eff by (auto simp: Let_def simp del: stream_effect.simps split: prod.splits)
  have ends: "ends_with st1 es1" using Cons.prems(1) eff by (rule stream_effect_ends)
  show ?case
  proof (cases st1)
    case None
    with rest ends show ?thesis by (simp add: stream_run_None)
  next
    case (Some st2)
    with stream_effect_books [OF Cons.prems(1)] eff have "books exact st2 (l + wire_total es1)" by blast
    from Cons.IH [OF this] rest Some ends show ?thesis
      by (fastforce simp: ends_with_def split: option.splits)
  qed
qed

text \<open>
  C26. A registered stream ends exactly once per pass: its events contain no terminal event
  as long as it stays registered, and when it ends, precisely one, which is the last event
  delivered for it. An unregistered stream gets no event at all.
\<close>

theorem demux_end_is_last:
  assumes "demux_reach exact m l" and "demux_feed m data = (Inr out, m')" and "sid \<noteq> 0"
  shows "case dm_streams m sid of
      None \<Rightarrow> events_for sid (do_stream_events out) = [] \<and> dm_streams m' sid = None
    | Some st \<Rightarrow> ends_with (dm_streams m' sid) (events_for sid (do_stream_events out))"
proof -
  have inv: "demux_inv exact m l" using assms(1) by (rule demux_reach_inv)
  from demux_feed_refines [OF inv assms(2)] assms(3) obtain fs where
    run: "stream_run (filter (\<lambda>g. stream_id g = sid) fs) (dm_streams m sid)
      = (dm_streams m' sid, events_for sid (do_stream_events out))" by metis
  show ?thesis
  proof (cases "dm_streams m sid")
    case None
    with run show ?thesis by (simp add: stream_run_None)
  next
    case (Some st)
    with inv have "books exact st (l sid)" by (simp add: demux_inv_def)
    with run Some show ?thesis by (simp add: stream_run_ends)
  qed
qed

theorem demux_end_is_last_witness:
  "ends_with None (events_for 1 (do_stream_events
     (event (drop_windows demux_output_default 1) 1 (uncosted (End EndClose)))))"
  using demux_end_is_last [OF reach_open [OF reach_new, of 1 "\<lambda>_. 0"] demux_feed_example, of 1]
  by (simp add: demux_remove_stream_def open_stream_def)

end
