(* ===== verification/Spl_Crockford.thy ===== *)
theory Spl_Crockford
  imports Spl_Std
begin

text \<open>
  The text encoding of pair links, \<open>crates/spl-core/src/crockford.rs\<close>: Crockford base32, five
  bits per symbol, most significant first. The accumulators of the source are kept: a 32-bit
  \<open>buffer\<close> whose high bits are shifted out, and the count \<open>bits\<close> of pending low bits. The
  reference is the bit string: symbols and bytes spell the same bits, up to zero padding.
\<close>

subsection \<open>The codec\<close>

definition ALPHABET :: bytes where
  "ALPHABET = ascii ''0123456789ABCDEFGHJKMNPQRSTVWXYZ''"

datatype crockford_error = InvalidSymbol str | NonZeroPadding

text \<open>\<open>Iterator::position\<close> for a byte.\<close>

fun position :: "bytes \<Rightarrow> u8 \<Rightarrow> nat option" where
  "position [] b = None"
| "position (a # as) b = (if a = b then Some 0 else map_option Suc (position as b))"

text \<open>
  A character is its UTF-8 encoding: only one-byte characters can be symbols, and upper-casing
  and the comparison with the ASCII alphabet leave every other character what it is.
\<close>

definition normalize_symbol :: "u8 \<Rightarrow> u8" where
  "normalize_symbol c =
     (let upper = ascii_upper_byte c in
      if upper = 0x49 \<or> upper = 0x4C then 0x31 else if upper = 0x4F then 0x30 else upper)"

definition symbol_value :: "str \<Rightarrow> crockford_error + u8" where
  "symbol_value c =
     (case c of
        [b] \<Rightarrow> ok_or (map_option of_nat (position ALPHABET (normalize_symbol b))) (InvalidSymbol c)
      | _ \<Rightarrow> Inl (InvalidSymbol c))"

fun decode_loop :: "str list \<Rightarrow> bytes \<Rightarrow> u32 \<Rightarrow> nat \<Rightarrow> crockford_error + (bytes \<times> u32 \<times> nat)" where
  "decode_loop [] out buffer bits = Inr (out, buffer, bits)"
| "decode_loop (c # cs) out buffer bits =
     (if c = [0x2D] then decode_loop cs out buffer bits
      else
        bind_res (symbol_value c) (\<lambda>value.
          let buffer = push_bit 5 buffer OR ucast value; bits = bits + 5 in
          if bits \<ge> 8
          then decode_loop cs (out @ [ucast (drop_bit (bits - 8) buffer)]) buffer (bits - 8)
          else decode_loop cs out buffer bits))"

definition crockford_decode :: "str \<Rightarrow> crockford_error + bytes" where
  "crockford_decode input =
     bind_res (decode_loop (chars input) [] 0 0) (\<lambda>(out, buffer, bits).
       if bits > 0 \<and> buffer AND (push_bit bits 1 - 1) \<noteq> 0 then Inl NonZeroPadding
       else Inr out)"

text \<open>The inner \<open>while bits >= 5\<close> of \<open>encode\<close>, then its outer loop over the bytes.\<close>

function emit_symbols :: "str \<Rightarrow> u32 \<Rightarrow> nat \<Rightarrow> str \<times> nat" where
  "emit_symbols out buffer bits =
     (if bits \<ge> 5
      then emit_symbols (out @ [ALPHABET ! unat (drop_bit (bits - 5) buffer AND 0x1F)]) buffer (bits - 5)
      else (out, bits))"
  by pat_completeness auto
termination
  by (relation "measure (\<lambda>(out, buffer, bits). bits)") auto

declare emit_symbols.simps [simp del]

fun encode_loop :: "bytes \<Rightarrow> str \<Rightarrow> u32 \<Rightarrow> nat \<Rightarrow> str \<times> u32 \<times> nat" where
  "encode_loop [] out buffer bits = (out, buffer, bits)"
| "encode_loop (b # bs) out buffer bits =
     (let buffer = push_bit 8 buffer OR ucast b; (out, bits) = emit_symbols out buffer (bits + 8)
      in encode_loop bs out buffer bits)"

definition crockford_encode :: "bytes \<Rightarrow> str" where
  "crockford_encode bs =
     (case encode_loop bs [] 0 0 of
        (out, buffer, bits) \<Rightarrow>
          if bits > 0 then out @ [ALPHABET ! unat (push_bit (5 - bits) buffer AND 0x1F)] else out)"

subsection \<open>Bit strings\<close>

text \<open>The low \<open>n\<close> bits of a word, most significant first.\<close>

definition low_bits :: "nat \<Rightarrow> 'a::len word \<Rightarrow> bool list" where
  "low_bits n w = map (bit w) (rev [0..<n])"

lemma length_low_bits [simp]: "length (low_bits n w) = n"
  by (simp add: low_bits_def)

lemma low_bits_0 [simp]: "low_bits 0 w = []"
  by (simp add: low_bits_def)

lemma low_bits_eqI: "(\<And>i. i < n \<Longrightarrow> bit w i = bit v i) \<Longrightarrow> low_bits n w = low_bits n v"
  by (auto simp: low_bits_def)

lemma low_bits_nth: "i < n \<Longrightarrow> low_bits n w ! i = bit w (n - 1 - i)"
  by (simp add: low_bits_def rev_nth)

lemma low_bits_split: "low_bits (m + j) w = low_bits m (drop_bit j w) @ low_bits j w"
  by (rule nth_equalityI) (auto simp: low_bits_nth nth_append bit_drop_bit_eq add.commute)

lemma low_bits_push:
  fixes buffer :: u32 and v :: "'b::len word"
  assumes "k + m \<le> 32" and "\<And>i. m \<le> i \<Longrightarrow> \<not> bit v i"
  shows "low_bits (k + m) (push_bit m buffer OR ucast v) = low_bits k buffer @ low_bits m v"
proof -
  have "low_bits k (drop_bit m (push_bit m buffer OR ucast v)) = low_bits k buffer"
    using assms by (intro low_bits_eqI) (auto simp: bit_simps)
  moreover have "low_bits m (push_bit m buffer OR ucast v) = low_bits m v"
    using assms(1) by (auto simp: low_bits_def bit_simps)
  ultimately show ?thesis by (simp add: low_bits_split)
qed

lemma low_bits_inj: "low_bits LENGTH('a) (w :: 'a::len word) = low_bits LENGTH('a) v \<longleftrightarrow> w = v"
proof
  assume eq: "low_bits LENGTH('a) w = low_bits LENGTH('a) v"
  show "w = v"
  proof (rule bit_word_eqI)
    fix i assume "i < LENGTH('a)"
    then show "bit w i = bit v i"
      using arg_cong [OF eq, of "\<lambda>xs. xs ! (LENGTH('a) - 1 - i)"] by (simp add: low_bits_nth)
  qed
qed simp

definition byte_bits :: "bytes \<Rightarrow> bool list" where
  "byte_bits bs = concat (map (low_bits 8) bs)"

definition symbol_bits :: "u8 list \<Rightarrow> bool list" where
  "symbol_bits vs = concat (map (low_bits 5) vs)"

lemma bits_simps [simp]:
  "byte_bits [] = []" "byte_bits (b # bs) = low_bits 8 b @ byte_bits bs"
  "byte_bits (bs @ bs') = byte_bits bs @ byte_bits bs'"
  "symbol_bits [] = []" "symbol_bits (v # vs) = low_bits 5 v @ symbol_bits vs"
  "symbol_bits (vs @ vs') = symbol_bits vs @ symbol_bits vs'"
  by (simp_all add: byte_bits_def symbol_bits_def)

lemma length_byte_bits [simp]: "length (byte_bits bs) = 8 * length bs"
  by (induction bs) simp_all

lemma length_symbol_bits [simp]: "length (symbol_bits vs) = 5 * length vs"
  by (induction vs) simp_all

lemma byte_bits_inj: "byte_bits bs = byte_bits bs' \<longleftrightarrow> bs = bs'"
proof
  assume "byte_bits bs = byte_bits bs'"
  then show "bs = bs'"
  proof (induction bs arbitrary: bs')
    case Nil
    then show ?case by (cases bs') (auto dest: arg_cong [where f = length])
  next
    case (Cons b bs)
    then obtain b' bs'' where "bs' = b' # bs''" by (cases bs') (auto dest: arg_cong [where f = length])
    with Cons low_bits_inj [of b b'] show ?case by simp
  qed
qed simp

subsection \<open>Symbols\<close>

lemma alphabet_symbols:
  "list_all (\<lambda>(i, b). symbol_value [b] = Inr (of_nat i) \<and> b \<noteq> 0x2D \<and> b < 0x80) (zip [0..<32] ALPHABET)"
  by (simp add: ALPHABET_def symbol_value_def normalize_symbol_def ascii_upper_byte_def Let_def
      upt_conv_Cons)

lemma length_ALPHABET [simp]: "length ALPHABET = 32"
  by (simp add: ALPHABET_def)

lemma alphabet_nth:
  assumes "i < 32"
  shows "symbol_value [ALPHABET ! i] = Inr (of_nat i) \<and> ALPHABET ! i \<noteq> 0x2D \<and> ALPHABET ! i < 0x80"
  using alphabet_symbols assms by (simp add: list_all_length)

lemma position_less: "position as b = Some i \<Longrightarrow> i < length as"
  by (induction as arbitrary: i) (auto split: if_splits)

lemma symbol_value_less:
  assumes "symbol_value c = Inr v"
  shows "v < 32"
proof -
  obtain b i where "position ALPHABET (normalize_symbol b) = Some i" and v: "v = of_nat i"
    using assms by (auto simp: symbol_value_def split: list.splits)
  then have "i < 32" using position_less [of ALPHABET] by fastforce
  then show ?thesis by (simp add: v word_less_nat_alt unat_of_nat)
qed

lemma small_bits: "v < 32 \<Longrightarrow> 5 \<le> i \<Longrightarrow> \<not> bit (v :: u8) i"
proof -
  assume "v < 32" "5 \<le> i"
  then have "take_bit 5 (unat v) = unat v" by (simp add: take_bit_nat_eq_self_iff word_less_nat_alt)
  moreover have "bit v i \<longleftrightarrow> bit (unat v) i" by (simp add: bit_simps)
  ultimately show ?thesis using \<open>5 \<le> i\<close> by (metis bit_take_bit_iff leD)
qed

subsection \<open>Decoding spells the bits\<close>

definition symbols :: "str \<Rightarrow> str list" where
  "symbols s = filter (\<lambda>c. c \<noteq> [0x2D]) (chars s)"

lemma low_bits_ucast: "low_bits 8 (ucast (w :: u32) :: u8) = low_bits 8 w"
  by (auto simp: low_bits_def bit_simps)

text \<open>One symbol: five more pending bits, and a byte taken from the front once there are eight.\<close>

lemma symbol_step:
  assumes "symbol_value c = Inr v" and "k < 8"
  shows "low_bits (k + 5) (push_bit 5 buffer OR ucast v :: u32) = low_bits k buffer @ low_bits 5 v"
  using assms small_bits [OF symbol_value_less [OF assms(1)]] by (intro low_bits_push) auto

lemma byte_step:
  fixes w :: u32
  assumes "8 \<le> n"
  shows "low_bits n w = low_bits 8 (ucast (drop_bit (n - 8) w) :: u8) @ low_bits (n - 8) w"
  using low_bits_split [of 8 "n - 8" w] assms by (simp add: low_bits_ucast)

lemma decode_loop_ok:
  assumes "map symbol_value (filter (\<lambda>c. c \<noteq> [0x2D]) cs) = map Inr vs" and "k < 8"
  shows "\<exists>out' buffer' k'. decode_loop cs out buffer k = Inr (out', buffer', k') \<and> k' < 8
    \<and> byte_bits out @ low_bits k buffer @ symbol_bits vs = byte_bits out' @ low_bits k' buffer'"
  using assms
proof (induction cs arbitrary: vs out buffer k)
  case (Cons c cs)
  show ?case
  proof (cases "c = [0x2D]")
    case True
    with Cons show ?thesis by simp
  next
    case False
    with Cons.prems(1) obtain v vs' where vs: "vs = v # vs'" "symbol_value c = Inr v"
      "map symbol_value (filter (\<lambda>c. c \<noteq> [0x2D]) cs) = map Inr vs'"
      by auto
    define w where "w = (push_bit 5 buffer OR ucast v :: u32)"
    have bits: "low_bits k buffer @ low_bits 5 v @ xs = low_bits (k + 5) w @ xs" for xs
      using symbol_step [OF vs(2) Cons.prems(2), of buffer] by (simp add: w_def)
    have loop: "decode_loop (c # cs) out buffer k =
        (if 8 \<le> k + 5 then decode_loop cs (out @ [ucast (drop_bit (k + 5 - 8) w)]) w (k + 5 - 8)
         else decode_loop cs out w (k + 5))"
      using False vs(2) by (simp only: decode_loop.simps bind_res_simps Let_def w_def if_False)
    show ?thesis
    proof (cases "8 \<le> k + 5")
      case True
      have "k + 5 - 8 < 8" using Cons.prems(2) by simp
      from Cons.IH [OF vs(3) this, of "out @ [ucast (drop_bit (k + 5 - 8) w)]" w] show ?thesis
        unfolding loop vs(1) bits_simps bits byte_step [OF True, of w] if_P [OF True] by simp
    next
      case short: False
      then have "k + 5 < 8" by simp
      from Cons.IH [OF vs(3) this, of out w] show ?thesis
        unfolding loop vs(1) bits_simps bits if_not_P [OF short] by simp
    qed
  qed
qed simp

lemma decode_loop_symbols:
  assumes "decode_loop cs out buffer k = Inr r"
  shows "\<exists>vs. map symbol_value (filter (\<lambda>c. c \<noteq> [0x2D]) cs) = map Inr vs"
  using assms
proof (induction cs arbitrary: out buffer k)
  case (Cons c cs)
  show ?case
  proof (cases "c = [0x2D]")
    case True
    with Cons show ?thesis by simp
  next
    case False
    with Cons.prems obtain v where v: "symbol_value c = Inr v"
      by (auto simp: bind_res_Inr_iff)
    with Cons.prems False obtain out' buffer' k' where "decode_loop cs out' buffer' k' = Inr r"
      by (auto simp: Let_def split: if_splits)
    then obtain vs where "map symbol_value (filter (\<lambda>c. c \<noteq> [0x2D]) cs) = map Inr vs"
      using Cons.IH by blast
    with False v show ?thesis by (intro exI [of _ "v # vs"]) simp
  qed
qed simp

lemma padding_zero:
  fixes buffer :: u32
  assumes "k < 8"
  shows "buffer AND (push_bit k 1 - 1) = 0 \<longleftrightarrow> low_bits k buffer = replicate k False"
proof -
  have "buffer AND (push_bit k 1 - 1) = take_bit k buffer"
    by (simp add: take_bit_eq_mask mask_eq_exp_minus_1 push_bit_eq_mult)
  moreover have "take_bit k buffer = 0 \<longleftrightarrow> (\<forall>i<k. \<not> bit buffer i)"
    using assms by (fastforce simp: bit_eq_iff bit_take_bit_iff)
  moreover have "low_bits k buffer = replicate k False \<longleftrightarrow> (\<forall>x\<in>set (low_bits k buffer). x = False)"
    by (auto intro: replicate_eqI)
  moreover have "(\<forall>x\<in>set (low_bits k buffer). x = False) \<longleftrightarrow> (\<forall>i<k. \<not> bit buffer i)"
    by (auto simp: low_bits_def)
  ultimately show ?thesis by simp
qed

text \<open>Text and bytes spell the same bits, up to at most seven padding bits, all zero.\<close>

definition spells :: "u8 list \<Rightarrow> bytes \<Rightarrow> bool" where
  "spells vs bs \<longleftrightarrow> symbol_bits vs = byte_bits bs @ replicate (5 * length vs mod 8) False"

lemma spells_length: "spells vs bs \<Longrightarrow> length bs = 5 * length vs div 8"
proof -
  assume "spells vs bs"
  then have "length (symbol_bits vs) = length (byte_bits bs @ replicate (5 * length vs mod 8) False)"
    by (simp only: spells_def)
  then show ?thesis by simp
qed

lemma spells_unique: "spells vs bs \<Longrightarrow> spells vs bs' \<Longrightarrow> bs' = bs"
  using spells_length [of vs bs] spells_length [of vs bs']
  by (auto simp: spells_def byte_bits_inj)

lemma decode_iff:
  "crockford_decode s = Inr bs \<longleftrightarrow> (\<exists>vs. map symbol_value (symbols s) = map Inr vs \<and> spells vs bs)"
proof -
  have core: "crockford_decode s = Inr bs \<longleftrightarrow> spells vs bs"
    if vs: "map symbol_value (symbols s) = map Inr vs" for vs
  proof -
    obtain out buffer k where loop: "decode_loop (chars s) [] 0 0 = Inr (out, buffer, k)" "k < 8"
      and eq: "symbol_bits vs = byte_bits out @ low_bits k buffer"
      using decode_loop_ok [of "chars s" vs 0 "[]" 0] vs by (auto simp: symbols_def)
    have "5 * length vs = 8 * length out + k" using arg_cong [OF eq, of length] by simp
    with loop(2) have k: "k = 5 * length vs mod 8" by simp
    have "crockford_decode s = Inr bs \<longleftrightarrow> low_bits k buffer = replicate k False \<and> out = bs"
      using loop(1) padding_zero [OF loop(2), of buffer] by (auto simp: crockford_decode_def)
    also have "\<dots> \<longleftrightarrow> byte_bits out @ low_bits k buffer = byte_bits bs @ replicate k False"
    proof
      assume *: "byte_bits out @ low_bits k buffer = byte_bits bs @ replicate k False"
      then have "length (byte_bits out) = length (byte_bits bs)"
        using arg_cong [OF *, of length] by simp
      with * show "low_bits k buffer = replicate k False \<and> out = bs"
        by (simp add: byte_bits_inj)
    qed simp
    finally show ?thesis by (simp add: spells_def eq k)
  qed
  moreover have "\<exists>vs. map symbol_value (symbols s) = map Inr vs" if "crockford_decode s = Inr bs"
    using that decode_loop_symbols [of "chars s" "[]" 0 0]
    by (auto simp: crockford_decode_def bind_res_Inr_iff symbols_def)
  ultimately show ?thesis by blast
qed

subsection \<open>Encoding spells the bits\<close>

definition spell :: "u8 list \<Rightarrow> str" where
  "spell vs = map (\<lambda>v. ALPHABET ! unat v) vs"

lemma low5_mask:
  fixes w :: u32
  shows "low_bits 5 (ucast (w AND 0x1F) :: u8) = low_bits 5 w" "ucast (w AND 0x1F) < (32 :: u8)"
    "unat (ucast (w AND 0x1F) :: u8) = unat (w AND 0x1F)"
proof -
  have mask: "w AND 0x1F = take_bit 5 w" by (simp add: take_bit_eq_mask mask_eq_exp_minus_1)
  show "low_bits 5 (ucast (w AND 0x1F) :: u8) = low_bits 5 w"
    by (auto simp: mask low_bits_def bit_simps)
  have less: "unat (take_bit 5 w) < 32"
    using take_bit_nat_less_exp [of 5 "unat w"] by (simp add: unsigned_take_bit_eq)
  show "unat (ucast (w AND 0x1F) :: u8) = unat (w AND 0x1F)"
    using less by (simp add: mask unsigned_ucast_eq take_bit_nat_eq_self)
  with less show "ucast (w AND 0x1F) < (32 :: u8)"
    by (simp add: word_less_nat_alt mask)
qed

lemma emit_symbols_spells:
  assumes "emit_symbols out buffer n = (out', k)"
  shows "k < 5 \<and> (\<exists>vs. out' = out @ spell vs \<and> (\<forall>v\<in>set vs. v < 32)
    \<and> low_bits n buffer = symbol_bits vs @ low_bits k buffer)"
  using assms
proof (induction out buffer n rule: emit_symbols.induct)
  case (1 out buffer n)
  show ?case
  proof (cases "5 \<le> n")
    case True
    define w where "w = (drop_bit (n - 5) buffer AND 0x1F)"
    define v where "v = (ucast w :: u8)"
    have v: "v < 32" "unat v = unat w" "low_bits 5 v = low_bits 5 (drop_bit (n - 5) buffer)"
      unfolding v_def w_def by (rule low5_mask)+
    have "emit_symbols (out @ [ALPHABET ! unat w]) buffer (n - 5) = (out', k)"
      using "1.prems" True by (subst (asm) emit_symbols.simps) (simp add: w_def)
    with "1.IH" [OF True] obtain vs where "k < 5" "out' = (out @ [ALPHABET ! unat w]) @ spell vs"
      "\<forall>v\<in>set vs. v < 32" "low_bits (n - 5) buffer = symbol_bits vs @ low_bits k buffer"
      unfolding w_def by blast
    moreover have "low_bits n buffer = low_bits 5 v @ low_bits (n - 5) buffer"
      using low_bits_split [of 5 "n - 5" buffer] True v(3) by simp
    ultimately show ?thesis using v by (intro conjI exI [of _ "v # vs"]) (simp_all add: spell_def)
  next
    case False
    with "1.prems" show ?thesis
      by (subst (asm) emit_symbols.simps) (auto simp: spell_def intro!: exI [of _ "[]"])
  qed
qed

lemma encode_loop_spells:
  assumes "encode_loop bs out buffer k = (out', buffer', k')" and "k < 5"
  shows "k' < 5 \<and> (\<exists>vs. out' = out @ spell vs \<and> (\<forall>v\<in>set vs. v < 32)
    \<and> low_bits k buffer @ byte_bits bs = symbol_bits vs @ low_bits k' buffer')"
  using assms
proof (induction bs arbitrary: out buffer k)
  case Nil
  then show ?case by (auto simp: spell_def intro!: exI [of _ "[]"])
next
  case (Cons b bs)
  define w where "w = (push_bit 8 buffer OR ucast b :: u32)"
  obtain o1 k1 where emit: "emit_symbols out w (k + 8) = (o1, k1)" by (metis surj_pair)
  then have loop: "encode_loop bs o1 w k1 = (out', buffer', k')"
    using Cons.prems(1) by (simp add: w_def Let_def)
  obtain us where us: "k1 < 5" "o1 = out @ spell us" "\<forall>v\<in>set us. v < 32"
    "low_bits (k + 8) w = symbol_bits us @ low_bits k1 w"
    using emit_symbols_spells [OF emit] by blast
  from Cons.IH [OF loop us(1)] obtain vs where vs: "k' < 5" "out' = o1 @ spell vs" "\<forall>v\<in>set vs. v < 32"
    "low_bits k1 w @ byte_bits bs = symbol_bits vs @ low_bits k' buffer'"
    by blast
  have "low_bits (k + 8) w = low_bits k buffer @ low_bits 8 b"
    unfolding w_def using Cons.prems(2) by (intro low_bits_push) auto
  then have "low_bits k buffer @ byte_bits (b # bs) = symbol_bits us @ low_bits k1 w @ byte_bits bs"
    using us(4) by (simp flip: append_assoc)
  with us vs show ?case
    by (intro conjI exI [of _ "us @ vs"]) (auto simp: spell_def)
qed

lemma low_bits_pad:
  fixes w :: u32
  assumes "k < 5"
  shows "low_bits 5 (push_bit (5 - k) w) = low_bits k w @ replicate (5 - k) False"
proof -
  have "low_bits k (drop_bit (5 - k) (push_bit (5 - k) w)) = low_bits k w"
    using assms by (intro low_bits_eqI) (auto simp: bit_simps)
  moreover have "low_bits (5 - k) (push_bit (5 - k) w) = replicate (5 - k) False"
    by (auto simp: low_bits_def bit_simps intro: replicate_eqI)
  ultimately show ?thesis using low_bits_split [of k "5 - k" "push_bit (5 - k) w"] assms by simp
qed

lemma encode_spells:
  "\<exists>vs. crockford_encode bs = spell vs \<and> (\<forall>v\<in>set vs. v < 32) \<and> spells vs bs"
proof -
  obtain out buffer k where loop: "encode_loop bs [] 0 0 = (out, buffer, k)" by (metis prod_cases3)
  from encode_loop_spells [OF this] obtain vs where vs: "k < 5" "out = spell vs" "\<forall>v\<in>set vs. v < 32"
    "byte_bits bs = symbol_bits vs @ low_bits k buffer"
    by auto
  have len: "8 * length bs = 5 * length vs + k" using arg_cong [OF vs(4), of length] by simp
  show ?thesis
  proof (cases "k = 0")
    case True
    then have "5 * length vs = 8 * length bs" using len by simp
    then have "5 * length vs mod 8 = 0" by simp
    with True vs loop show ?thesis by (auto simp: crockford_encode_def spells_def)
  next
    case False
    define w where "w = (push_bit (5 - k) buffer AND 0x1F)"
    define v where "v = (ucast w :: u8)"
    have v: "v < 32" "unat v = unat w" "low_bits 5 v = low_bits k buffer @ replicate (5 - k) False"
      unfolding v_def w_def low_bits_pad [OF vs(1), symmetric] by (rule low5_mask)+
    have "5 * length (vs @ [v]) = 8 * length bs + (5 - k)" using len vs(1) by simp
    then have "5 * length (vs @ [v]) mod 8 = (8 * length bs + (5 - k)) mod 8" by (simp only:)
    also have "\<dots> = 5 - k" unfolding mod_mult_self4 using vs(1) by simp
    finally have pad: "5 * length (vs @ [v]) mod 8 = 5 - k" .
    have "crockford_encode bs = spell (vs @ [v])"
      using False loop vs(2) v(2) by (simp add: crockford_encode_def spell_def w_def)
    moreover have "spells (vs @ [v]) bs"
      unfolding spells_def pad using vs(4) v(3) by simp
    ultimately show ?thesis using vs(3) v(1) by (intro exI [of _ "vs @ [v]"]) simp
  qed
qed

lemma symbols_spell:
  assumes "\<forall>v\<in>set vs. v < 32"
  shows "map symbol_value (symbols (spell vs)) = map Inr vs"
proof -
  have v: "symbol_value [ALPHABET ! unat v] = Inr v \<and> ALPHABET ! unat v \<noteq> 0x2D \<and> ALPHABET ! unat v < 0x80"
    if "v \<in> set vs" for v
    using that assms alphabet_nth [of "unat v"] by (auto simp: word_less_nat_alt)
  then have "chars (spell vs) = map (\<lambda>b. [b]) (spell vs)"
    by (intro chars_ascii) (auto simp: spell_def)
  then have "symbols (spell vs) = map (\<lambda>v. [ALPHABET ! unat v]) vs"
    using v by (simp add: symbols_def spell_def filter_id_conv)
  with v show ?thesis by simp
qed

lemma decode_encode: "crockford_decode (crockford_encode bs) = Inr bs"
  using encode_spells [of bs] symbols_spell by (auto simp: decode_iff)

subsection \<open>Properties of the codec\<close>

text \<open>
  C21. Decoding is exactly the reference reading of the text: it succeeds with \<open>bs\<close> if and
  only if every character other than a hyphen is a symbol and the five-bit values of the
  symbols, written one after the other, are the bits of \<open>bs\<close> followed by fewer than eight
  padding bits, all zero. The 32-bit accumulator never loses a bit that matters.
\<close>

theorem crockford_decode_spec:
  "crockford_decode s = Inr bs \<longleftrightarrow>
     (\<exists>vs. map symbol_value (filter (\<lambda>c. c \<noteq> [0x2D]) (chars s)) = map Inr vs
       \<and> concat (map (low_bits 5) vs) = concat (map (low_bits 8) bs) @ replicate (5 * length vs mod 8) False)"
  using decode_iff [of s bs] by (simp add: symbols_def spells_def symbol_bits_def byte_bits_def)

end
