(* ===== verification/Spl_Pair_Link.thy ===== *)
theory Spl_Pair_Link
  imports Spl_Crockford
begin

text \<open>
  Pair links, \<open>crates/spl-core/src/pairlink.rs\<close>: the fragment of a link is Crockford text of a
  binary form, version 4 (one IPv4 candidate), 5 (one to four candidates) or 6 (relay window).
  Every slice and index of the source stands behind a length check, so \<open>byte_slice\<close> and \<open>!\<close> are
  only used within the input.
\<close>

subsection \<open>Types\<close>

definition DEFAULT_DIRECT_PORT :: u16 where "DEFAULT_DIRECT_PORT = 7657"

definition DEFAULT_RELAY_ORIGIN :: str where
  "DEFAULT_RELAY_ORIGIN = ascii ''https://link.solstone.app''"

record endpoint =
  ep_host :: str
  ep_port :: u16

record pair_link =
  candidates :: "endpoint list"
  nonce_hex :: str
  ca_fp_prefix :: bytes

record relay_pair_link =
  rp_s :: bytes
  ca_fp_spki :: bytes
  relay_origin :: str

datatype parsed_pair_link = Direct pair_link | Relay relay_pair_link

datatype pair_link_error =
    MissingFragment
  | CrockfordErr crockford_error
  | UnsupportedVersion u8
  | UnsupportedAddressType u8
  | UnknownCaFpTag u8
  | BadRelayOrigin
  | Truncated nat nat
  | LengthMismatch nat nat
  | DisallowedDirectIpv4 str
  | InvalidCandidateCount u8

definition ADDR_TYPE_IPV4 :: u8 where "ADDR_TYPE_IPV4 = 0x01"
definition NONCE_LEN :: nat where "NONCE_LEN = 16"
definition CA_FP_LEN :: nat where "CA_FP_LEN = 16"
definition MAX_DIRECT_CANDIDATES :: u8 where "MAX_DIRECT_CANDIDATES = 4"
definition RELAY_CA_FP_TAG_SPKI_SHA256 :: u8 where "RELAY_CA_FP_TAG_SPKI_SHA256 = 0x01"
definition RELAY_WINDOW_BASE_LEN :: nat where "RELAY_WINDOW_BASE_LEN = 27"

lemmas pair_link_consts = ADDR_TYPE_IPV4_def NONCE_LEN_def CA_FP_LEN_def MAX_DIRECT_CANDIDATES_def
  RELAY_CA_FP_TAG_SPKI_SHA256_def RELAY_WINDOW_BASE_LEN_def

subsection \<open>Text forms\<close>

definition hex_digit :: "nat \<Rightarrow> u8" where
  "hex_digit n = of_nat (if n < 10 then 48 + n else 87 + n)"

definition hex_lower :: "bytes \<Rightarrow> str" where
  "hex_lower bs = concat (map (\<lambda>b. [hex_digit (unat b div 16), hex_digit (unat b mod 16)]) bs)"

definition ipv4_string :: "bytes \<Rightarrow> str" where
  "ipv4_string octets =
     dec_string (unat (octets ! 0)) @ [46] @ dec_string (unat (octets ! 1)) @ [46]
       @ dec_string (unat (octets ! 2)) @ [46] @ dec_string (unat (octets ! 3))"

text \<open>Slicing beyond the end of the hexadecimal text panics.\<close>

definition uuid_string :: "bytes \<Rightarrow> string + str" where
  "uuid_string raw =
     (let h = hex_lower raw in
      if length h < 32 then Inl ''slice index out of range''
      else Inr (byte_slice 0 8 h @ [45] @ byte_slice 8 12 h @ [45] @ byte_slice 12 16 h @ [45]
             @ byte_slice 16 20 h @ [45] @ byte_slice 20 32 h))"

subsection \<open>Parsing\<close>

definition is_allowed_direct_ipv4 :: "bytes \<Rightarrow> bool" where
  "is_allowed_direct_ipv4 octets \<longleftrightarrow> octets ! 0 \<noteq> 0 \<and> octets ! 0 < 224"

definition normalize_port :: "u16 \<Rightarrow> u16" where
  "normalize_port raw = (if raw = 0 then DEFAULT_DIRECT_PORT else raw)"

definition require :: "bytes \<Rightarrow> nat \<Rightarrow> pair_link_error + unit" where
  "require blob end' = (if length blob < end' then Inl (Truncated end' (length blob)) else Inr ())"

definition require_exact :: "bytes \<Rightarrow> nat \<Rightarrow> pair_link_error + unit" where
  "require_exact blob expected =
     bind_res (require blob expected) (\<lambda>_.
       if length blob \<noteq> expected then Inl (LengthMismatch expected (length blob)) else Inr ())"

definition parse_v06 :: "bytes \<Rightarrow> pair_link_error + relay_pair_link" where
  "parse_v06 blob =
     bind_res (require blob RELAY_WINDOW_BASE_LEN) (\<lambda>_.
       let ca_fp_tag = blob ! 9 in
       if ca_fp_tag \<noteq> RELAY_CA_FP_TAG_SPKI_SHA256 then Inl (UnknownCaFpTag ca_fp_tag)
       else
         let selector = unat (blob ! 26) in
         bind_res
           (if selector = 0
            then bind_res (require_exact blob RELAY_WINDOW_BASE_LEN) (\<lambda>_. Inr DEFAULT_RELAY_ORIGIN)
            else
              let expected = RELAY_WINDOW_BASE_LEN + selector in
              bind_res (require_exact blob expected) (\<lambda>_.
                ok_or (from_utf8 (byte_slice RELAY_WINDOW_BASE_LEN expected blob)) BadRelayOrigin))
           (\<lambda>origin.
             Inr \<lparr>rp_s = byte_slice 1 9 blob, ca_fp_spki = byte_slice 10 26 blob, relay_origin = origin\<rparr>))"

definition parse_v04 :: "bytes \<Rightarrow> pair_link_error + pair_link" where
  "parse_v04 blob =
     bind_res (require blob 40) (\<lambda>_.
       if blob ! 1 \<noteq> ADDR_TYPE_IPV4 then Inl (UnsupportedAddressType (blob ! 1))
       else
         let octets = [blob ! 2, blob ! 3, blob ! 4, blob ! 5];
             port = normalize_port (u16_from_be_bytes (blob ! 6) (blob ! 7));
             nonce = byte_slice 8 (8 + NONCE_LEN) blob;
             ca_fp = byte_slice 24 (24 + CA_FP_LEN) blob
         in if \<not> is_allowed_direct_ipv4 octets then Inl (DisallowedDirectIpv4 (ipv4_string octets))
            else Inr \<lparr>candidates = [\<lparr>ep_host = ipv4_string octets, ep_port = port\<rparr>],
                      nonce_hex = hex_lower nonce, ca_fp_prefix = ca_fp\<rparr>)"

definition octets_at :: "bytes \<Rightarrow> nat \<Rightarrow> bytes" where
  "octets_at blob offset =
     [blob ! offset, blob ! (offset + 1), blob ! (offset + 2), blob ! (offset + 3)]"

text \<open>The two loops over the candidates: admission, then collection without duplicates.\<close>

fun admit_all :: "bytes list \<Rightarrow> pair_link_error + unit" where
  "admit_all [] = Inr ()"
| "admit_all (octets # rest) =
     (if \<not> is_allowed_direct_ipv4 octets then Inl (DisallowedDirectIpv4 (ipv4_string octets))
      else admit_all rest)"

fun collect_candidates :: "u16 \<Rightarrow> endpoint list \<Rightarrow> bytes list \<Rightarrow> endpoint list" where
  "collect_candidates port cs [] = cs"
| "collect_candidates port cs (octets # rest) =
     (let h = ipv4_string octets in
      if \<not> list_ex (\<lambda>c. ep_host c = h \<and> ep_port c = port) cs
      then collect_candidates port (cs @ [\<lparr>ep_host = h, ep_port = port\<rparr>]) rest
      else collect_candidates port cs rest)"

definition parse_v05 :: "bytes \<Rightarrow> pair_link_error + pair_link" where
  "parse_v05 blob =
     bind_res (require blob 3) (\<lambda>_.
       if blob ! 1 \<noteq> ADDR_TYPE_IPV4 then Inl (UnsupportedAddressType (blob ! 1))
       else
         let raw_count = blob ! 2 in
         if raw_count = 0 \<or> raw_count > MAX_DIRECT_CANDIDATES then Inl (InvalidCandidateCount raw_count)
         else
           let count = unat raw_count in
           bind_res (require blob 5) (\<lambda>_.
             let port = normalize_port (u16_from_be_bytes (blob ! 3) (blob ! 4));
                 addrs_start = 5;
                 addrs_end = addrs_start + 4 * count;
                 nonce_end = addrs_end + NONCE_LEN;
                 total = nonce_end + CA_FP_LEN
             in bind_res (require blob total) (\<lambda>_.
                  let octets = map (\<lambda>i. octets_at blob (addrs_start + 4 * i)) [0..<count] in
                  bind_res (admit_all octets) (\<lambda>_.
                    Inr \<lparr>candidates = collect_candidates port [] octets,
                         nonce_hex = hex_lower (byte_slice addrs_end nonce_end blob),
                         ca_fp_prefix = byte_slice nonce_end total blob\<rparr>))))"

definition parse_blob :: "bytes \<Rightarrow> pair_link_error + parsed_pair_link" where
  "parse_blob blob =
     (case blob of
        [] \<Rightarrow> Inl (Truncated 1 0)
      | version # _ \<Rightarrow>
          if version = 0x04 then map_sum id Direct (parse_v04 blob)
          else if version = 0x05 then map_sum id Direct (parse_v05 blob)
          else if version = 0x06 then map_sum id Relay (parse_v06 blob)
          else Inl (UnsupportedVersion version))"

definition pair_link_parse :: "str \<Rightarrow> pair_link_error + parsed_pair_link" where
  "pair_link_parse link =
     bind_res
       (case split_once [35] link of
          Some (_, frag) \<Rightarrow> Inr frag
        | None \<Rightarrow>
            if find_subsequence link (ascii ''://'') = None \<and> find_subsequence link [47] = None
            then Inr link else Inl MissingFragment)
       (\<lambda>fragment. bind_res (map_sum CrockfordErr id (crockford_decode fragment)) parse_blob)"

subsection \<open>What the loops compute\<close>

lemma admit_all_find:
  "admit_all os =
     (case find (\<lambda>o'. \<not> is_allowed_direct_ipv4 o') os of
        None \<Rightarrow> Inr () | Some o' \<Rightarrow> Inl (DisallowedDirectIpv4 (ipv4_string o')))"
  by (induction os) simp_all

text \<open>First occurrences, in order.\<close>

definition firsts :: "'a list \<Rightarrow> 'a list" where
  "firsts xs = rev (remdups (rev xs))"

lemma firsts_simps [simp]:
  "firsts [] = []" "set (firsts xs) = set xs" "distinct (firsts xs)"
  "firsts (xs @ [x]) = (if x \<in> set xs then firsts xs else firsts xs @ [x])"
  by (simp_all add: firsts_def)

lemma collect_candidates_firsts:
  "collect_candidates p (firsts done) os = firsts (done @ map (\<lambda>o'. \<lparr>ep_host = ipv4_string o', ep_port = p\<rparr>) os)"
proof (induction os arbitrary: "done")
  case (Cons o' os)
  let ?c = "\<lparr>ep_host = ipv4_string o', ep_port = p\<rparr>"
  have "ep_host c = ipv4_string o' \<and> ep_port c = p \<longleftrightarrow> c = ?c" for c :: endpoint
    by (cases c) simp
  then have "list_ex (\<lambda>c. ep_host c = ipv4_string o' \<and> ep_port c = p) (firsts done) \<longleftrightarrow> ?c \<in> set done"
    by (simp add: list_ex_iff)
  with Cons.IH [of "done @ [?c]"] show ?case by (cases "?c \<in> set done") (simp_all add: Let_def)
qed simp

lemma collect_candidates_new:
  "collect_candidates p [] os = firsts (map (\<lambda>o'. \<lparr>ep_host = ipv4_string o', ep_port = p\<rparr>) os)"
  using collect_candidates_firsts [of p "[]"] by simp

lemma length_hex_lower [simp]: "length (hex_lower bs) = 2 * length bs"
  by (induction bs) (simp_all add: hex_lower_def)

lemma octets_at_slice: "off + 4 \<le> length blob \<Longrightarrow> octets_at blob off = take 4 (drop off blob)"
  by (rule nth_equalityI) (auto simp: octets_at_def less_Suc_eq numeral_eq_Suc)

lemma take_drop_concat:
  assumes "\<forall>o'\<in>set os. length o' = 4" and "i < length os"
  shows "take 4 (drop (4 * i) (concat os @ rest)) = os ! i"
  using assms
proof (induction os arbitrary: i)
  case (Cons o' os)
  then show ?case by (cases i) simp_all
qed simp

lemma length_concat_octets: "\<forall>o'\<in>set os. length o' = 4 \<Longrightarrow> length (concat os) = 4 * length os"
  by (induction os) simp_all

subsection \<open>Well-formedness of what is parsed\<close>

definition direct_ok :: "pair_link \<Rightarrow> bool" where
  "direct_ok l \<longleftrightarrow>
     candidates l \<noteq> [] \<and> length (candidates l) \<le> 4 \<and> distinct (candidates l)
     \<and> (\<forall>c\<in>set (candidates l). ep_port c \<noteq> 0
          \<and> (\<exists>o'. length o' = 4 \<and> is_allowed_direct_ipv4 o' \<and> ep_host c = ipv4_string o'))
     \<and> length (nonce_hex l) = 32 \<and> length (ca_fp_prefix l) = 16"

definition relay_ok :: "relay_pair_link \<Rightarrow> bool" where
  "relay_ok r \<longleftrightarrow> length (rp_s r) = 8 \<and> length (ca_fp_spki r) = 16
     \<and> relay_origin r \<noteq> [] \<and> utf8_valid (relay_origin r)"

lemma normalize_port_nonzero [simp]: "normalize_port p \<noteq> 0"
  by (simp add: normalize_port_def DEFAULT_DIRECT_PORT_def)

lemma require_Inr_iff [simp]: "require blob n = Inr u \<longleftrightarrow> n \<le> length blob"
  by (auto simp: require_def)

lemma require_exact_Inr_iff [simp]: "require_exact blob n = Inr u \<longleftrightarrow> length blob = n"
  by (auto simp: require_exact_def bind_res_Inr_iff)

lemma parse_v04_ok: "parse_v04 blob = Inr l \<Longrightarrow> direct_ok l"
  by (auto simp: parse_v04_def bind_res_Inr_iff Let_def direct_ok_def pair_link_consts
      intro!: exI [of _ "[blob ! 2, blob ! 3, blob ! 4, blob ! 5]"] split: if_splits)

lemma admit_all_ok: "admit_all os = Inr u \<longleftrightarrow> (\<forall>o'\<in>set os. is_allowed_direct_ipv4 o')"
  by (induction os) auto

lemma parse_v05_ok:
  assumes "parse_v05 blob = Inr l"
  shows "direct_ok l"
proof -
  let ?n = "unat (blob ! 2)"
  let ?p = "normalize_port (u16_from_be_bytes (blob ! 3) (blob ! 4))"
  let ?os = "map (\<lambda>i. octets_at blob (5 + 4 * i)) [0..<?n]"
  have n: "0 < ?n" "?n \<le> 4" "37 + 4 * ?n \<le> length blob"
    and adm: "\<forall>o'\<in>set ?os. is_allowed_direct_ipv4 o'"
    and l: "l = \<lparr>candidates = collect_candidates ?p [] ?os,
      nonce_hex = hex_lower (byte_slice (5 + 4 * ?n) (21 + 4 * ?n) blob),
      ca_fp_prefix = byte_slice (21 + 4 * ?n) (37 + 4 * ?n) blob\<rparr>"
    using assms
    by (auto simp: parse_v05_def bind_res_Inr_iff Let_def pair_link_consts admit_all_ok
        unat_gt_0 word_le_nat_alt not_less split: if_splits)
  have "length (remdups ys) \<le> length ys" for ys :: "endpoint list" by (rule length_remdups_leq)
  then have "length (firsts (map (\<lambda>o'. \<lparr>ep_host = ipv4_string o', ep_port = ?p\<rparr>) ?os)) \<le> ?n"
    by (metis firsts_def length_map length_rev length_upt minus_nat.diff_0)
  moreover have "\<forall>o'\<in>set ?os. length o' = 4" by (simp add: octets_at_def)
  moreover have "?os \<noteq> []" using n(1) by simp
  ultimately show ?thesis
    using n adm unfolding direct_ok_def l collect_candidates_new
    by (auto simp: firsts_def)
qed

lemma parse_v06_ok: "parse_v06 blob = Inr r \<Longrightarrow> relay_ok r"
  by (auto simp: parse_v06_def bind_res_Inr_iff Let_def relay_ok_def pair_link_consts from_utf8_def
      DEFAULT_RELAY_ORIGIN_def utf8_valid_ascii byte_slice_def split: if_splits)

subsection \<open>Links that a journal writes\<close>

definition u16_to_be_bytes :: "u16 \<Rightarrow> bytes" where
  "u16_to_be_bytes p = [ucast (drop_bit 8 p), ucast p]"

lemma u16_from_to_be_bytes: "u16_from_be_bytes (ucast (drop_bit 8 p)) (ucast p) = p"
proof (rule bit_word_eqI)
  fix n assume "n < LENGTH(16)"
  then consider "n < 8" | "8 \<le> n" "n < 16" by fastforce
  then show "bit (u16_from_be_bytes (ucast (drop_bit 8 p)) (ucast p)) n = bit p n"
    by cases (auto simp: u16_from_be_bytes_def bit_simps)
qed

definition blob_v05 :: "u16 \<Rightarrow> bytes list \<Rightarrow> bytes \<Rightarrow> bytes \<Rightarrow> bytes" where
  "blob_v05 p os nonce fp =
     [0x05, ADDR_TYPE_IPV4, of_nat (length os)] @ u16_to_be_bytes p @ concat os @ nonce @ fp"

definition blob_v06 :: "bytes \<Rightarrow> bytes \<Rightarrow> str \<Rightarrow> bytes" where
  "blob_v06 s fp origin =
     [0x06] @ s @ [RELAY_CA_FP_TAG_SPKI_SHA256] @ fp @ [of_nat (length origin)] @ origin"

definition link_text :: "bytes \<Rightarrow> str" where
  "link_text blob = ascii ''https://go.solstone.app/p#'' @ crockford_encode blob"

lemma parse_link_text: "pair_link_parse (link_text blob) = parse_blob blob"
proof -
  let ?url = "ascii ''https://go.solstone.app/p''"
  have "find_subsequence (?url @ [35]) [35] = Some 25"
    by simp
  from find_subsequence_append [OF this, of "crockford_encode blob"]
  have "split_once [35] (link_text blob) = Some (?url, crockford_encode blob)"
    by (simp add: split_once_def link_text_def)
  then show ?thesis by (simp add: pair_link_parse_def decode_encode)
qed

lemma parse_blob_v05:
  assumes "os \<noteq> []" "length os \<le> 4" "\<forall>o'\<in>set os. length o' = 4" "length nonce = 16" "length fp = 16"
  shows "parse_blob (blob_v05 p os nonce fp @ trail) =
    (case find (\<lambda>o'. \<not> is_allowed_direct_ipv4 o') os of
       Some o' \<Rightarrow> Inl (DisallowedDirectIpv4 (ipv4_string o'))
     | None \<Rightarrow> Inr (Direct
         \<lparr>candidates = firsts (map (\<lambda>o'. \<lparr>ep_host = ipv4_string o', ep_port = normalize_port p\<rparr>) os),
          nonce_hex = hex_lower nonce, ca_fp_prefix = fp\<rparr>))"
proof -
  let ?blob = "blob_v05 p os nonce fp @ trail"
  define n where "n = length os"
  have n: "0 < n" "n \<le> 4" using assms by (simp_all add: n_def)
  have count: "unat (of_nat n :: u8) = n" using n by (simp add: unat_of_nat)
  define hdr where "hdr = [0x05, ADDR_TYPE_IPV4, of_nat n] @ u16_to_be_bytes p"
  have blob: "?blob = hdr @ concat os @ nonce @ fp @ trail" by (simp add: blob_v05_def n_def hdr_def)
  have hd: "length hdr = 5" by (simp add: u16_to_be_bytes_def hdr_def)
  have len: "length (concat os) = 4 * n" using assms(3) by (simp add: length_concat_octets n_def)
  have "octets_at ?blob (5 + 4 * i) = os ! i" if "i < n" for i
  proof -
    have "octets_at ?blob (5 + 4 * i) = take 4 (drop (4 * i) (concat os @ nonce @ fp @ trail))"
      using that len hd assms(4,5) unfolding blob
      by (subst octets_at_slice) simp_all
    also have "\<dots> = os ! i" using that by (intro take_drop_concat [OF assms(3)]) (simp add: n_def)
    finally show ?thesis .
  qed
  then have os: "map (\<lambda>i. octets_at ?blob (5 + 4 * i)) [0..<n] = os"
    by (intro nth_equalityI) (simp_all add: n_def)
  have nonce: "byte_slice (5 + 4 * n) (21 + 4 * n) ?blob = nonce"
    using byte_slice_append [of "hdr @ concat os" "5 + 4 * n" nonce "21 + 4 * n" "fp @ trail"] hd len assms(4)
    unfolding blob by simp
  have fp: "byte_slice (21 + 4 * n) (37 + 4 * n) ?blob = fp"
    using byte_slice_append [of "hdr @ concat os @ nonce" "21 + 4 * n" fp "37 + 4 * n" trail] hd len assms(4,5)
    unfolding blob by simp
  have idx: "?blob ! 1 = ADDR_TYPE_IPV4" "?blob ! 2 = of_nat n" "?blob ! 3 = ucast (drop_bit 8 p)"
    "?blob ! 4 = ucast p" "37 + 4 * n \<le> length ?blob"
    using len assms(4,5) unfolding blob by (simp_all add: u16_to_be_bytes_def hdr_def)
  have raw: "(of_nat n :: u8) \<noteq> 0" "\<not> (of_nat n :: u8) > 4"
    using n count by (auto simp: word_less_nat_alt)
  have "parse_v05 ?blob = bind_res (admit_all os) (\<lambda>_. Inr
      \<lparr>candidates = collect_candidates (normalize_port p) [] os,
       nonce_hex = hex_lower nonce, ca_fp_prefix = fp\<rparr>)"
    using idx raw os nonce fp
    by (simp add: parse_v05_def Let_def require_def pair_link_consts count u16_from_to_be_bytes add.assoc)
  moreover have "parse_blob ?blob = map_sum id Direct (parse_v05 ?blob)"
    by (simp add: parse_blob_def blob hdr_def)
  ultimately show ?thesis
    by (simp add: admit_all_find collect_candidates_new split: option.split)
qed

lemma parse_blob_v06:
  assumes "length s = 8" "length fp = 16" "length origin < 256" "utf8_valid origin"
  shows "parse_blob (blob_v06 s fp origin) = Inr (Relay
    \<lparr>rp_s = s, ca_fp_spki = fp,
     relay_origin = (if origin = [] then DEFAULT_RELAY_ORIGIN else origin)\<rparr>)"
proof -
  let ?blob = "blob_v06 s fp origin"
  have sel: "unat (of_nat (length origin) :: u8) = length origin"
    using assms(3) by (simp add: unat_of_nat)
  have len: "length ?blob = 27 + length origin" using assms(1,2) by (simp add: blob_v06_def)
  have at9: "?blob ! 9 = RELAY_CA_FP_TAG_SPKI_SHA256" and at26: "?blob ! 26 = of_nat (length origin)"
    using assms(1,2) by (simp_all add: blob_v06_def nth_append)
  have slices: "byte_slice 1 9 ?blob = s" "byte_slice 10 26 ?blob = fp"
    "byte_slice 27 (27 + length origin) ?blob = origin"
    using assms(1,2) by (simp_all add: blob_v06_def byte_slice_def)
  have "parse_v06 ?blob = Inr \<lparr>rp_s = s, ca_fp_spki = fp,
      relay_origin = (if origin = [] then DEFAULT_RELAY_ORIGIN else origin)\<rparr>"
    using slices len assms(4) at9 at26 sel
    by (cases "origin = []") (simp_all add: parse_v06_def require_exact_def require_def
        RELAY_WINDOW_BASE_LEN_def Let_def from_utf8_def)
  then show ?thesis by (simp add: parse_blob_def blob_v06_def)
qed

subsection \<open>Properties of pair links\<close>

text \<open>
  C24. Whatever text is given, a link that parses is usable as it is: a direct link names one
  to four distinct endpoints, each an admitted IPv4 address with a non-zero port, with a
  32-digit nonce and a 16-byte fingerprint; a relay link has an 8-byte secret, a 16-byte
  fingerprint and a non-empty origin that is valid UTF-8.
\<close>

theorem pair_link_well_formed:
  assumes "pair_link_parse link = Inr p"
  shows "case p of Direct l \<Rightarrow> direct_ok l | Relay r \<Rightarrow> relay_ok r"
proof -
  from assms obtain blob where "parse_blob blob = Inr p"
    by (auto simp: pair_link_parse_def bind_res_Inr_iff)
  then show ?thesis
    by (auto simp: parse_blob_def map_sum_Inr_iff parse_v04_ok parse_v05_ok parse_v06_ok
        split: list.splits if_splits)
qed

definition example_blob :: bytes where
  "example_blob = blob_v05 0 [[192, 168, 1, 7], [10, 0, 0, 1], [192, 168, 1, 7]] (replicate 16 1) (replicate 16 2)"

theorem pair_link_well_formed_witness:
  "\<exists>l. pair_link_parse (link_text example_blob) = Inr (Direct l) \<and> direct_ok l"
proof -
  obtain l where l: "pair_link_parse (link_text example_blob) = Inr (Direct l)"
    using parse_blob_v05 [of "[[192, 168, 1, 7], [10, 0, 0, 1], [192, 168, 1, 7]]" "replicate 16 1"
        "replicate 16 2" 0 "[]"]
    by (simp add: parse_link_text example_blob_def is_allowed_direct_ipv4_def)
  with pair_link_well_formed [OF l] show ?thesis by simp
qed

text \<open>
  C12. The link that a journal writes for one to four addresses, read back from its text,
  gives the addresses without duplicates in the order of their first occurrence, the port
  with 0 replaced by the default, the nonce and the fingerprint; and one address that is not
  admitted refuses the whole link, naming the first such address.
\<close>

theorem pair_link_direct_round_trip:
  assumes "os \<noteq> []" "length os \<le> 4" "\<forall>o'\<in>set os. length o' = 4" "length nonce = 16" "length fp = 16"
  shows "pair_link_parse (link_text (blob_v05 p os nonce fp)) =
    (case find (\<lambda>o'. \<not> is_allowed_direct_ipv4 o') os of
       Some o' \<Rightarrow> Inl (DisallowedDirectIpv4 (ipv4_string o'))
     | None \<Rightarrow> Inr (Direct
         \<lparr>candidates = firsts (map (\<lambda>o'. \<lparr>ep_host = ipv4_string o', ep_port = normalize_port p\<rparr>) os),
          nonce_hex = hex_lower nonce, ca_fp_prefix = fp\<rparr>))"
  using parse_blob_v05 [OF assms, of p "[]"] by (simp add: parse_link_text)

theorem pair_link_direct_round_trip_witness:
  "pair_link_parse (link_text (blob_v05 7657 [[192, 168, 1, 7], [224, 0, 0, 1]] (replicate 16 1) (replicate 16 2)))
     = Inl (DisallowedDirectIpv4 (ipv4_string [224, 0, 0, 1]))"
  using pair_link_direct_round_trip [of "[[192, 168, 1, 7], [224, 0, 0, 1]]" "replicate 16 1" "replicate 16 2" 7657]
  by (simp add: is_allowed_direct_ipv4_def)

text \<open>
  C29. A relay link, read back from its text, gives the secret, the fingerprint and the
  origin, where an empty origin stands for the default relay.
\<close>

theorem pair_link_relay_round_trip:
  assumes "length s = 8" "length fp = 16" "length origin < 256" "utf8_valid origin"
  shows "pair_link_parse (link_text (blob_v06 s fp origin)) = Inr (Relay
    \<lparr>rp_s = s, ca_fp_spki = fp,
     relay_origin = (if origin = [] then DEFAULT_RELAY_ORIGIN else origin)\<rparr>)"
  using parse_blob_v06 [OF assms] by (simp add: parse_link_text)

theorem pair_link_relay_round_trip_witness:
  "pair_link_parse (link_text (blob_v06 (replicate 8 3) (replicate 16 4) [104, 105])) = Inr (Relay
     \<lparr>rp_s = replicate 8 3, ca_fp_spki = replicate 16 4, relay_origin = [104, 105]\<rparr>)"
  using pair_link_relay_round_trip [of "replicate 8 3" "replicate 16 4" "[104, 105]"]
  by (simp add: utf8_valid_ascii)

end
