(* ===== verification/Spl_Ca.thy ===== *)
theory Spl_Ca
  imports Spl_Pair_Link
begin

text \<open>
  Certificate pinning, \<open>crates/spl-core/src/ca.rs\<close>: a reader of bounded DER elements, the
  fields that pinning needs of a certificate, and the comparison of digests with a pinned
  prefix. SHA-256 comes from the \<open>sha2\<close> crate and is the parameter \<open>digest\<close>.

  The source's readers advance \<open>pos\<close> through a mutable reference. Every caller gives up when
  a reader fails, so a reader returns the new position with its element and nothing with an
  error.
\<close>

subsection \<open>DER elements\<close>

datatype ca_error = MalformedDer

definition OID_EC_PUBLIC_KEY :: bytes where
  "OID_EC_PUBLIC_KEY = [0x06, 0x07, 0x2a, 0x86, 0x48, 0xce, 0x3d, 0x02, 0x01]"

definition OID_PRIME256V1 :: bytes where
  "OID_PRIME256V1 = [0x06, 0x08, 0x2a, 0x86, 0x48, 0xce, 0x3d, 0x03, 0x01, 0x07]"

record der_element =
  full_start :: nat
  content_start :: nat
  full_end :: nat

definition der_full :: "der_element \<Rightarrow> bytes \<Rightarrow> bytes" where
  "der_full e input = byte_slice (full_start e) (full_end e) input"

definition der_content :: "der_element \<Rightarrow> bytes \<Rightarrow> bytes" where
  "der_content e input = byte_slice (content_start e) (full_end e) input"

definition get_byte :: "bytes \<Rightarrow> nat \<Rightarrow> u8 option" where
  "get_byte input pos = (if pos < length input then Some (input ! pos) else None)"

fun read_length :: "nat \<Rightarrow> bytes \<Rightarrow> nat \<Rightarrow> nat \<Rightarrow> ca_error + nat \<times> nat" where
  "read_length 0 input pos len = Inr (len, pos)"
| "read_length (Suc count) input pos len =
     bind_res (ok_or (get_byte input pos) MalformedDer) (\<lambda>b.
       read_length count input (pos + 1) (push_bit 8 len OR unat b))"

definition read_element_any :: "bytes \<Rightarrow> nat \<Rightarrow> ca_error + der_element \<times> nat" where
  "read_element_any input pos =
     bind_res (ok_or (get_byte input pos) MalformedDer) (\<lambda>tag.
       if tag AND 0x1f = 0x1f then Inl MalformedDer
       else
         bind_res (ok_or (get_byte input (pos + 1)) MalformedDer) (\<lambda>first_len.
           bind_res
             (if first_len AND 0x80 = 0 then Inr (unat first_len, pos + 2)
              else
                let count = unat (first_len AND 0x7f) in
                if count = 0 \<or> count > 4 then Inl MalformedDer
                else read_length count input (pos + 2) 0)
             (\<lambda>(len, content_start).
               bind_res (ok_or (usize_checked_add content_start len) MalformedDer) (\<lambda>full_end.
                 if full_end > length input then Inl MalformedDer
                 else Inr (\<lparr>full_start = pos, content_start = content_start, full_end = full_end\<rparr>,
                           full_end)))))"

definition read_element :: "bytes \<Rightarrow> nat \<Rightarrow> u8 \<Rightarrow> ca_error + der_element \<times> nat" where
  "read_element input pos tag =
     bind_res (read_element_any input pos) (\<lambda>(elem, pos').
       if input ! full_start elem = tag then Inr (elem, pos') else Inl MalformedDer)"

definition expect_element :: "bytes \<Rightarrow> u8 \<Rightarrow> ca_error + der_element" where
  "expect_element input tag =
     bind_res (read_element input 0 tag) (\<lambda>(elem, pos).
       if pos = length input then Inr elem else Inl MalformedDer)"

definition skip_any :: "bytes \<Rightarrow> nat \<Rightarrow> ca_error + nat" where
  "skip_any input pos = map_sum id snd (read_element_any input pos)"

subsection \<open>Certificate fields\<close>

text \<open>Consecutive \<open>read_element\<close> calls whose elements are not used.\<close>

fun skip_elements :: "bytes \<Rightarrow> nat \<Rightarrow> u8 list \<Rightarrow> ca_error + nat" where
  "skip_elements input pos [] = Inr pos"
| "skip_elements input pos (tag # tags) =
     bind_res (read_element input pos tag) (\<lambda>(_, pos'). skip_elements input pos' tags)"

definition extract_spki_der :: "bytes \<Rightarrow> ca_error + bytes" where
  "extract_spki_der cert_der =
     bind_res (expect_element cert_der 0x30) (\<lambda>cert.
       bind_res (read_element cert_der (content_start cert) 0x30) (\<lambda>(tbs, _).
         bind_res
           (if get_byte cert_der (content_start tbs) = Some 0xa0
            then skip_any cert_der (content_start tbs) else Inr (content_start tbs))
           (\<lambda>pos.
             bind_res (skip_elements cert_der pos [0x02, 0x30, 0x30, 0x30, 0x30]) (\<lambda>pos.
               bind_res (read_element cert_der pos 0x30) (\<lambda>(spki, _).
                 Inr (der_full spki cert_der))))))"

definition is_ec_p256_spki :: "bytes \<Rightarrow> bool" where
  "is_ec_p256_spki spki_der =
     (case expect_element spki_der 0x30 of
        Inl _ \<Rightarrow> False
      | Inr spki \<Rightarrow>
          (case read_element spki_der (content_start spki) 0x30 of
             Inl _ \<Rightarrow> False
           | Inr (alg_id, _) \<Rightarrow>
               (case read_element spki_der (content_start alg_id) 0x06 of
                  Inl _ \<Rightarrow> False
                | Inr (alg_oid, alg_pos) \<Rightarrow>
                    (case read_element spki_der alg_pos 0x06 of
                       Inl _ \<Rightarrow> False
                     | Inr (curve_oid, alg_pos) \<Rightarrow>
                         alg_pos = full_end alg_id
                         \<and> der_full alg_oid spki_der = OID_EC_PUBLIC_KEY
                         \<and> der_full curve_oid spki_der = OID_PRIME256V1))))"

definition extract_tbs_and_signature :: "bytes \<Rightarrow> ca_error + bytes \<times> bytes" where
  "extract_tbs_and_signature cert_der =
     bind_res (expect_element cert_der 0x30) (\<lambda>cert.
       bind_res (read_element cert_der (content_start cert) 0x30) (\<lambda>(tbs, pos).
         bind_res (read_element cert_der pos 0x30) (\<lambda>(_, pos).
           bind_res (read_element cert_der pos 0x03) (\<lambda>(signature, pos).
             let signature_content = der_content signature cert_der in
             if get_byte signature_content 0 \<noteq> Some 0 then Inl MalformedDer
             else if pos \<noteq> full_end cert then Inl MalformedDer
             else Inr (der_full tbs cert_der, drop 1 signature_content)))))"

subsection \<open>Digests and pins\<close>

definition sha256_hex :: "(bytes \<Rightarrow> bytes) \<Rightarrow> bytes \<Rightarrow> str" where
  "sha256_hex digest bs = hex_lower (digest bs)"

definition cert_matches_prefix :: "(bytes \<Rightarrow> bytes) \<Rightarrow> bytes \<Rightarrow> bytes \<Rightarrow> bool" where
  "cert_matches_prefix digest cert_der prefix =
     (if prefix = [] \<or> length prefix > 32 then False
      else take (length prefix) (digest cert_der) = prefix)"

definition chain_matches_prefix :: "(bytes \<Rightarrow> bytes) \<Rightarrow> bytes list \<Rightarrow> bytes \<Rightarrow> bool" where
  "chain_matches_prefix digest chain prefix =
     list_ex (\<lambda>cert. cert_matches_prefix digest cert prefix) chain"

definition spki_matches_prefix :: "(bytes \<Rightarrow> bytes) \<Rightarrow> bytes \<Rightarrow> bytes \<Rightarrow> bool" where
  "spki_matches_prefix digest cert_der prefix =
     (if prefix = [] \<or> length prefix > 32 then False
      else
        (case extract_spki_der cert_der of
           Inl _ \<Rightarrow> False
         | Inr spki \<Rightarrow> take (length prefix) (digest spki) = prefix))"

definition chain_spki_matches_prefix :: "(bytes \<Rightarrow> bytes) \<Rightarrow> bytes list \<Rightarrow> bytes \<Rightarrow> bool" where
  "chain_spki_matches_prefix digest chain prefix =
     list_ex (\<lambda>cert. spki_matches_prefix digest cert prefix) chain"

subsection \<open>The encoding that is read\<close>

text \<open>
  An element with the given tag and content: a single-byte tag, the content's length in the
  short form or in one to four big-endian bytes (not necessarily the fewest), the content.
\<close>

definition be_value :: "bytes \<Rightarrow> nat" where
  "be_value ds = foldl (\<lambda>n b. n * 256 + unat b) 0 ds"

definition length_octets :: "nat \<Rightarrow> bytes \<Rightarrow> bool" where
  "length_octets n l \<longleftrightarrow>
     (n < 128 \<and> l = [of_nat n])
     \<or> (\<exists>ds. l = of_nat (128 + length ds) # ds \<and> ds \<noteq> [] \<and> length ds \<le> 4 \<and> be_value ds = n)"

definition der :: "u8 \<Rightarrow> bytes \<Rightarrow> bytes \<Rightarrow> bool" where
  "der tag content bs \<longleftrightarrow>
     tag AND 0x1f \<noteq> 0x1f \<and> (\<exists>l. length_octets (length content) l \<and> bs = tag # l @ content)"

lemma shift_or: "push_bit 8 n OR unat (b :: u8) = n * 256 + unat b"
proof -
  have b: "unat b < 256" using unsigned_less [of b] by simp
  then have "drop_bit 8 (unat b) = 0" by (simp add: drop_bit_eq_div)
  then have "drop_bit 8 (push_bit 8 n OR unat b) = n"
    by (simp add: drop_bit_push_bit)
  moreover have "take_bit 8 (push_bit 8 n OR unat b) = unat b"
    using b by (simp add: take_bit_push_bit take_bit_nat_eq_self)
  moreover have "x = drop_bit 8 x * 256 + take_bit 8 x" for x :: nat
    by (simp add: drop_bit_eq_div take_bit_eq_mod)
  ultimately show ?thesis by metis
qed

lemma read_length_value:
  "pos \<le> length input \<Longrightarrow> read_length k input pos n = Inr (len, pos') \<longleftrightarrow>
     pos + k \<le> length input \<and> pos' = pos + k
     \<and> len = foldl (\<lambda>n b. n * 256 + unat b) n (byte_slice pos (pos + k) input)"
proof (induction k arbitrary: pos n)
  case 0
  then show ?case by (auto simp: byte_slice_def)
next
  case (Suc k)
  have "byte_slice pos (pos + Suc k) input = input ! pos # byte_slice (Suc pos) (Suc pos + k) input"
    if "pos < length input"
    using that by (simp add: byte_slice_def Cons_nth_drop_Suc [symmetric])
  with Suc.IH [of "Suc pos"] Suc.prems show ?case
    by (auto simp: bind_res_Inr_iff get_byte_def shift_or)
qed

lemma first_length_byte:
  fixes b :: u8
  shows "b AND 0x80 = 0 \<longleftrightarrow> unat b < 128"
    and "b AND 0x80 \<noteq> 0 \<Longrightarrow> unat (b AND 0x7f) = unat b - 128"
proof -
  have lt: "unat b < 256" using unsigned_less [of b] by simp
  have "b AND 2 ^ 7 = 0 \<longleftrightarrow> \<not> bit b 7" by (rule and_exp_eq_0_iff_not_bit)
  also have "bit b 7 \<longleftrightarrow> bit (unat b) 7" by (simp add: bit_simps)
  also have "\<dots> \<longleftrightarrow> odd (unat b div 128)" by (simp add: bit_iff_odd)
  also have "unat b div 128 = (if 128 \<le> unat b then 1 else 0)"
    using lt by (auto intro: div_nat_eqI)
  finally have "b AND 2 ^ 7 = 0 \<longleftrightarrow> \<not> 128 \<le> unat b" by (simp split: if_splits)
  then show iff: "b AND 0x80 = 0 \<longleftrightarrow> unat b < 128" by auto
  assume "b AND 0x80 \<noteq> 0"
  with iff have "128 \<le> unat b" by simp
  have "b AND 0x7f = take_bit 7 b" by (simp add: take_bit_eq_mask mask_eq_exp_minus_1)
  then have "unat (b AND 0x7f) = unat b mod 128"
    by (simp only: unsigned_take_bit_eq) (simp add: take_bit_eq_mod)
  with \<open>128 \<le> unat b\<close> show "unat (b AND 0x7f) = unat b - 128"
    using lt by (simp add: mod_if)
qed

lemma byte_slice_split: "i \<le> j \<Longrightarrow> j \<le> k \<Longrightarrow> k \<le> length xs \<Longrightarrow>
  byte_slice i k xs = byte_slice i j xs @ byte_slice j k xs"
proof -
  assume "i \<le> j" "j \<le> k"
  then have "k - i = (j - i) + (k - j)" "j - i + i = j" by simp_all
  then show ?thesis by (simp only: byte_slice_def take_add drop_drop)
qed

lemma byte_slice_Cons: "i < k \<Longrightarrow> k \<le> length xs \<Longrightarrow> byte_slice i k xs = xs ! i # byte_slice (Suc i) k xs"
  by (simp add: byte_slice_def Cons_nth_drop_Suc [symmetric] take_Cons')

text \<open>Reading accepts exactly the encodings: the element found is one, ...\<close>

lemma read_element_any_sound:
  assumes "read_element_any input pos = Inr (e, pos')"
  shows "full_start e = pos \<and> full_end e = pos' \<and> pos < pos' \<and> pos' \<le> length input
    \<and> der (input ! pos) (der_content e input) (der_full e input)"
proof -
  let ?b = "input ! (pos + 1)"
  define L where "L = (if ?b AND 0x80 = 0 then Inr (unat ?b, pos + 2)
    else if unat (?b AND 0x7f) = 0 \<or> unat (?b AND 0x7f) > 4 then Inl MalformedDer
    else read_length (unat (?b AND 0x7f)) input (pos + 2) 0)"
  have pos: "pos + 1 < length input"
    using assms by (cases "pos < length input"; cases "pos + 1 < length input")
      (simp_all add: read_element_any_def get_byte_def split: if_splits)
  then have any: "read_element_any input pos =
      (if input ! pos AND 0x1f = 0x1f then Inl MalformedDer
       else bind_res L (\<lambda>(len, cs). bind_res (ok_or (usize_checked_add cs len) MalformedDer) (\<lambda>end'.
         if end' > length input then Inl MalformedDer
         else Inr (\<lparr>full_start = pos, content_start = cs, full_end = end'\<rparr>, end'))))"
    by (simp add: read_element_any_def get_byte_def Let_def L_def)
  then have tag: "input ! pos AND 0x1f \<noteq> 0x1f" using assms by (simp split: if_splits)
  with any assms obtain len cs where len: "L = Inr (len, cs)" by (cases L) (auto split: if_splits)
  have e: "cs + len \<le> length input" "e = \<lparr>full_start = pos, content_start = cs, full_end = cs + len\<rparr>"
    "pos' = cs + len"
    using assms unfolding any by (auto simp: len tag bind_res_Inr_iff split: if_splits)
  note len = len [unfolded L_def]
  have "pos + 2 \<le> cs \<and> (\<exists>l. length_octets len l \<and> byte_slice (pos + 1) cs input = l)"
  proof (cases "?b AND 0x80 = 0")
    case True
    with len have "len = unat ?b" "cs = pos + 2" by auto
    moreover have "byte_slice (pos + 1) (pos + 2) input = [?b]"
      using pos byte_slice_Cons [of "pos + 1" "pos + 2" input] by (simp add: byte_slice_def)
    moreover have "length_octets (unat ?b) [?b]" using True by (simp add: length_octets_def first_length_byte(1))
    ultimately show ?thesis by simp
  next
    case False
    define k where "k = unat ?b - 128"
    have k: "unat (?b AND 0x7f) = k" "unat ?b = 128 + k"
      using first_length_byte(2) [OF False] False by (simp_all add: k_def first_length_byte(1))
    with False len have k4: "k \<noteq> 0" "k \<le> 4" and rl: "read_length k input (pos + 2) 0 = Inr (len, cs)"
      by (auto split: if_splits)
    then have cs: "pos + 2 + k \<le> length input" "cs = pos + 2 + k" "len = be_value (byte_slice (pos + 2) cs input)"
      using pos by (auto simp: read_length_value be_value_def)
    have "?b = of_nat (128 + k)" by (simp del: of_nat_add flip: k(2))
    moreover have ds: "length (byte_slice (pos + 2) cs input) = k" using cs(1,2) by simp
    ultimately have "length_octets len (?b # byte_slice (pos + 2) cs input)"
      unfolding length_octets_def using k4 cs(3)
      by (intro disjI2 exI [of _ "byte_slice (pos + 2) cs input"]) auto
    moreover have "byte_slice (pos + 1) cs input = ?b # byte_slice (pos + 2) cs input"
      using cs(1,2) by (subst byte_slice_Cons) simp_all
    ultimately show ?thesis using cs(2) by simp
  qed
  moreover have "der_full e input = input ! pos # byte_slice (pos + 1) cs input @ der_content e input"
    if "pos + 2 \<le> cs"
    using that e byte_slice_split [of "pos + 1" cs "cs + len" input]
    by (simp add: der_full_def der_content_def byte_slice_Cons)
  moreover have "length (der_content e input) = len" using e by (simp add: der_content_def)
  ultimately show ?thesis using tag e by (auto simp: der_def)
qed

text \<open>... and an element that stands at the position is found.\<close>

lemma length_octets_first:
  assumes "length_octets n l"
  obtains (short) "n < 128" "l = [of_nat n]" "(of_nat n :: u8) AND 0x80 = 0" "unat (of_nat n :: u8) = n"
    | (long) ds where "l = of_nat (128 + length ds) # ds" "ds \<noteq> []" "length ds \<le> 4" "be_value ds = n"
      "(of_nat (128 + length ds) :: u8) AND 0x80 \<noteq> 0"
      "unat ((of_nat (128 + length ds) :: u8) AND 0x7f) = length ds"
proof -
  consider "n < 128" "l = [of_nat n]"
    | ds where "l = of_nat (128 + length ds) # ds" "ds \<noteq> []" "length ds \<le> 4" "be_value ds = n"
    using assms by (auto simp: length_octets_def)
  then show thesis
  proof cases
    case 1
    then have "unat (of_nat n :: u8) = n" by (simp add: unat_of_nat)
    with 1 show thesis by (intro short) (simp_all add: first_length_byte(1))
  next
    case (2 ds)
    let ?b = "of_nat (128 + length ds) :: u8"
    have u: "unat ?b = 128 + length ds" using 2(3) by (simp add: unat_of_nat del: of_nat_add)
    then have "?b AND 0x80 \<noteq> 0" by (simp add: first_length_byte(1))
    with 2 u first_length_byte(2) [OF this] show thesis by (intro long) simp_all
  qed
qed

lemma get_byte_append [simp]:
  "get_byte (pre @ b # post) (length pre) = Some b"
  "get_byte (pre @ a # b # post) (Suc (length pre)) = Some b"
  by (simp_all add: get_byte_def nth_append)

lemma read_element_any_complete:
  assumes "der tag content bs" and "length (pre @ bs @ post) < 2 ^ 64"
  shows "\<exists>e. read_element_any (pre @ bs @ post) (length pre) = Inr (e, length pre + length bs)
    \<and> full_start e = length pre \<and> full_end e = length pre + length bs
    \<and> content_start e + length content = full_end e"
proof -
  from assms(1) obtain l where tag: "tag AND 0x1f \<noteq> 0x1f" and l: "length_octets (length content) l"
    and bs: "bs = tag # l @ content" by (auto simp: der_def)
  from l show ?thesis
  proof (cases rule: length_octets_first)
    case short
    with tag assms(2) bs show ?thesis
      by (simp add: read_element_any_def usize_checked_add_def)
  next
    case (long ds)
    let ?input = "pre @ bs @ post"
    have "byte_slice (length pre + 2) (length pre + 2 + length ds) ?input = ds"
      using byte_slice_append [of "pre @ [tag, of_nat (128 + length ds)]" "length pre + 2" ds
          "length pre + 2 + length ds" "content @ post"]
      by (simp add: bs long(1))
    then have "read_length (length ds) ?input (length pre + 2) 0 = Inr (length content, length pre + 2 + length ds)"
      using long(4) by (subst read_length_value) (simp_all add: bs long(1) be_value_def)
    with tag assms(2) long show ?thesis
      by (simp add: read_element_any_def usize_checked_add_def bs Let_def del: of_nat_add)
  qed
qed

subsection \<open>Elements in place\<close>

lemma der_cases:
  assumes "der tag content bs"
  obtains h where "bs = h @ content" and "h \<noteq> []" and "hd h = tag"
  using assms by (auto simp: der_def)

lemma read_here:
  assumes "der tag content bs" and "input = pre @ bs @ post" and "length input < 2 ^ 64"
  obtains e where "read_element input (length pre) tag = Inr (e, length (pre @ bs))"
    and "read_element_any input (length pre) = Inr (e, length (pre @ bs))"
    and "der_full e input = bs" and "der_content e input = content"
    and "content_start e = length pre + length bs - length content" and "full_end e = length (pre @ bs)"
proof -
  obtain e where e: "read_element_any input (length pre) = Inr (e, length pre + length bs)"
    "full_start e = length pre" "full_end e = length pre + length bs"
    "content_start e + length content = full_end e"
    using read_element_any_complete [OF assms(1), of pre post] assms(2,3) by blast
  from assms(1) obtain h where h: "bs = h @ content" "h \<noteq> []" "hd h = tag" by (rule der_cases)
  have "input ! length pre = tag" using h by (cases h) (simp_all add: assms(2) nth_append)
  then have "read_element input (length pre) tag = Inr (e, length pre + length bs)"
    by (simp add: read_element_def e(1,2))
  moreover have "der_full e input = bs"
    using e(2,3) byte_slice_append [of pre "length pre" bs "length pre + length bs" post]
    by (simp add: der_full_def assms(2))
  moreover have "content_start e = length (pre @ h)" "full_end e = length (pre @ bs)"
    using e(3,4) h(1) by simp_all
  then have "der_content e input = content"
    using byte_slice_append [of "pre @ h" "length (pre @ h)" content "length (pre @ bs)" post] h(1)
    by (simp add: der_content_def assms(2))
  ultimately show thesis using that e(1,3,4) by simp
qed

lemma der_first: "der t c bs \<Longrightarrow> get_byte (pre @ bs @ post) (length pre) = Some t"
  by (auto simp: der_def)

lemma expect_here:
  assumes "der tag content bs" and "length bs < 2 ^ 64"
  obtains e where "expect_element bs tag = Inr e" and "content_start e = length bs - length content"
    and "full_end e = length bs"
proof -
  have "bs = [] @ bs @ []" by simp
  from read_here [OF assms(1) this assms(2)] obtain e where
    "read_element bs 0 tag = Inr (e, length bs)" "content_start e = length bs - length content"
    "full_end e = length bs"
    by auto
  then show thesis by (intro that [of e]) (simp_all add: expect_element_def)
qed

lemma skip_here:
  assumes "list_all2 (\<lambda>t bs. \<exists>c. der t c bs) tags bss" and "input = pre @ concat bss @ post"
    and "length input < 2 ^ 64"
  shows "skip_elements input (length pre) tags = Inr (length (pre @ concat bss))"
  using assms
proof (induction tags bss arbitrary: pre rule: list_all2_induct)
  case (Cons t ts bs bss)
  then obtain c where c: "der t c bs" by blast
  have "input = pre @ bs @ concat bss @ post" using Cons.prems by simp
  from read_here [OF c this Cons.prems(2)] obtain e where
    "read_element input (length pre) t = Inr (e, length (pre @ bs))" by metis
  moreover have "skip_elements input (length (pre @ bs)) ts = Inr (length ((pre @ bs) @ concat bss))"
    using Cons.prems by (intro Cons.IH) simp_all
  ultimately show ?case by simp
qed simp

subsection \<open>Certificates\<close>

text \<open>The shape of a certificate, as far as pinning reads it.\<close>

definition x509 :: "bytes \<Rightarrow> bytes \<Rightarrow> bytes \<Rightarrow> bytes \<Rightarrow> bool" where
  "x509 tbs spki signature cert \<longleftrightarrow>
     (\<exists>version fields rest alg sig.
        der 0x30 (tbs @ alg @ sig) cert \<and> der 0x30 (version @ concat fields @ spki @ rest) tbs
        \<and> (version = [] \<or> (\<exists>c. der 0xa0 c version))
        \<and> list_all2 (\<lambda>t bs. \<exists>c. der t c bs) [0x02, 0x30, 0x30, 0x30, 0x30] fields
        \<and> (\<exists>c. der 0x30 c spki) \<and> (\<exists>c. der 0x30 c alg) \<and> der 0x03 (0 # signature) sig)"

lemma extract_spki:
  assumes "x509 tbs spki signature cert" and "length cert < 2 ^ 64"
  shows "extract_spki_der cert = Inr spki"
proof -
  from assms(1) obtain version fields rest alg sig where
    cert: "der 0x30 (tbs @ alg @ sig) cert" and tbs: "der 0x30 (version @ concat fields @ spki @ rest) tbs"
    and version: "version = [] \<or> (\<exists>c. der 0xa0 c version)"
    and fields: "list_all2 (\<lambda>t bs. \<exists>c. der t c bs) [0x02, 0x30, 0x30, 0x30, 0x30] fields"
    and spki: "\<exists>c. der 0x30 c spki"
    unfolding x509_def by blast
  obtain h where h: "cert = h @ tbs @ alg @ sig" using cert by (rule der_cases)
  obtain g where g: "tbs = g @ version @ concat fields @ spki @ rest" using tbs by (rule der_cases)
  obtain e where e: "expect_element cert 0x30 = Inr e" "content_start e = length h"
    using expect_here [OF cert assms(2)] h by auto
  have "cert = h @ tbs @ (alg @ sig)" by (simp add: h)
  from read_here [OF tbs this assms(2)] obtain t p where
    t: "read_element cert (length h) 0x30 = Inr (t, p)" "content_start t = length (h @ g)"
    by (metis g length_append add_diff_cancel_right' append.assoc)
  let ?post = "rest @ alg @ sig"
  have cert': "cert = (h @ g) @ version @ concat fields @ spki @ ?post" by (simp add: h g)
  have v: "(if get_byte cert (length (h @ g)) = Some 0xa0 then skip_any cert (length (h @ g))
      else Inr (length (h @ g))) = Inr (length ((h @ g) @ version))"
    using version
  proof
    assume none: "version = []"
    from fields obtain f fs c where "fields = f # fs" "der 0x02 c f" by (auto simp: list_all2_Cons1)
    with none der_first [of "0x02" c f "h @ g" "concat fs @ spki @ ?post"] show ?thesis
      by (simp add: cert')
  next
    assume "\<exists>c. der 0xa0 c version"
    then obtain c where c: "der 0xa0 c version" by blast
    from read_here [OF c cert' assms(2)] obtain k where
      "read_element_any cert (length (h @ g)) = Inr (k, length ((h @ g) @ version))" by metis
    moreover have "get_byte cert (length (h @ g)) = Some 0xa0"
      by (subst cert') (rule der_first [OF c])
    ultimately show ?thesis by (simp add: skip_any_def)
  qed
  have "skip_elements cert (length ((h @ g) @ version)) [0x02, 0x30, 0x30, 0x30, 0x30]
      = Inr (length (((h @ g) @ version) @ concat fields))"
    using fields assms(2) by (intro skip_here) (simp_all add: cert')
  moreover obtain c where c: "der 0x30 c spki" using spki by blast
  have "cert = (((h @ g) @ version) @ concat fields) @ spki @ ?post" by (simp add: h g)
  from read_here [OF c this assms(2)] obtain k q where
    "read_element cert (length (((h @ g) @ version) @ concat fields)) 0x30 = Inr (k, q)" "der_full k cert = spki"
    by metis
  ultimately show ?thesis
    by (simp only: extract_spki_der_def e t v bind_res_simps prod.case)
qed

lemma extract_tbs:
  assumes "x509 tbs spki signature cert" and "length cert < 2 ^ 64"
  shows "extract_tbs_and_signature cert = Inr (tbs, signature)"
proof -
  from assms(1) obtain alg sig c d where
    cert: "der 0x30 (tbs @ alg @ sig) cert" and tbs: "der 0x30 d tbs" and alg: "der 0x30 c alg"
    and sig: "der 0x03 (0 # signature) sig"
    unfolding x509_def by blast
  obtain h where h: "cert = h @ tbs @ alg @ sig" using cert by (rule der_cases)
  obtain e where e: "expect_element cert 0x30 = Inr e" "content_start e = length h" "full_end e = length cert"
    using expect_here [OF cert assms(2)] h by auto
  have c1: "cert = h @ tbs @ (alg @ sig)" and c2: "cert = (h @ tbs) @ alg @ sig"
    and c3: "cert = (h @ tbs @ alg) @ sig @ []" by (simp_all add: h)
  from read_here [OF tbs c1 assms(2)] obtain t where
    t: "read_element cert (length h) 0x30 = Inr (t, length (h @ tbs))" "der_full t cert = tbs" by metis
  from read_here [OF alg c2 assms(2)] obtain a where
    a: "read_element cert (length (h @ tbs)) 0x30 = Inr (a, length (h @ tbs @ alg))" by (metis append.assoc)
  from read_here [OF sig c3 assms(2)] obtain s where
    s: "read_element cert (length (h @ tbs @ alg)) 0x03 = Inr (s, length cert)" "der_content s cert = 0 # signature"
    by (metis append.assoc append_Nil2 h)
  show ?thesis
    unfolding extract_tbs_and_signature_def e t a s bind_res_simps prod.case Let_def
    by (simp add: get_byte_def)
qed

lemma p256_spki:
  assumes "der 0x30 (OID_EC_PUBLIC_KEY @ OID_PRIME256V1) alg" and "der 0x30 (alg @ key) spki"
    and "length spki < 2 ^ 64"
  shows "is_ec_p256_spki spki"
proof -
  have oids: "der 0x06 (drop 2 OID_EC_PUBLIC_KEY) OID_EC_PUBLIC_KEY" "der 0x06 (drop 2 OID_PRIME256V1) OID_PRIME256V1"
    by (simp_all add: der_def length_octets_def OID_EC_PUBLIC_KEY_def OID_PRIME256V1_def)
  obtain h where h: "spki = h @ alg @ key" using assms(2) by (rule der_cases)
  obtain g where g: "alg = g @ OID_EC_PUBLIC_KEY @ OID_PRIME256V1" using assms(1) by (rule der_cases)
  obtain e where e: "expect_element spki 0x30 = Inr e" "content_start e = length h"
    using expect_here [OF assms(2,3)] h by auto
  obtain a where a: "read_element spki (length h) 0x30 = Inr (a, length (h @ alg))"
    "content_start a = length (h @ g)" "full_end a = length (h @ alg)"
    using read_here [OF assms(1) h assms(3)] g by auto
  have s1: "spki = (h @ g) @ OID_EC_PUBLIC_KEY @ (OID_PRIME256V1 @ key)"
    and s2: "spki = (h @ g @ OID_EC_PUBLIC_KEY) @ OID_PRIME256V1 @ key" by (simp_all add: h g)
  from read_here [OF oids(1) s1 assms(3)] obtain o1 where
    o1: "read_element spki (length (h @ g)) 0x06 = Inr (o1, length (h @ g @ OID_EC_PUBLIC_KEY))"
    "der_full o1 spki = OID_EC_PUBLIC_KEY" by (metis append.assoc)
  from read_here [OF oids(2) s2 assms(3)] obtain o2 where
    o2: "read_element spki (length (h @ g @ OID_EC_PUBLIC_KEY)) 0x06 = Inr (o2, length (h @ alg))"
    "der_full o2 spki = OID_PRIME256V1" by (metis append.assoc g)
  show ?thesis
    unfolding is_ec_p256_spki_def e a o1 o2 sum.case prod.case by simp
qed

subsection \<open>Properties of certificate reading\<close>

text \<open>
  C22. The DER reader is exact: at a position of the input it accepts an element ending at
  \<open>end\<close> if and only if an element (a single-byte tag, a definite length of at most four length
  bytes, that many bytes of content) stands there and ends at \<open>end\<close>.
\<close>

theorem der_reader_exact:
  assumes "length input < 2 ^ 64"
  shows "(\<exists>e. read_element_any input pos = Inr (e, end')) \<longleftrightarrow>
    (\<exists>tag content pre bs post. input = pre @ bs @ post \<and> length pre = pos
       \<and> end' = pos + length bs \<and> der tag content bs)"
proof
  assume "\<exists>e. read_element_any input pos = Inr (e, end')"
  then obtain e where e: "full_start e = pos" "full_end e = end'" "pos < end'" "end' \<le> length input"
    "der (input ! pos) (der_content e input) (der_full e input)"
    using read_element_any_sound by blast
  have "input = take pos input @ der_full e input @ drop end' input"
    using e(3) by (simp add: der_full_def byte_slice_def e(1,2)) (metis append_take_drop_id drop_drop le_add_diff_inverse2 less_imp_le)
  moreover have "length (take pos input) = pos" "end' = pos + length (der_full e input)"
    using e by (simp_all add: der_full_def)
  ultimately show "\<exists>tag content pre bs post. input = pre @ bs @ post \<and> length pre = pos
      \<and> end' = pos + length bs \<and> der tag content bs"
    using e(5) by blast
next
  assume "\<exists>tag content pre bs post. input = pre @ bs @ post \<and> length pre = pos
      \<and> end' = pos + length bs \<and> der tag content bs"
  then show "\<exists>e. read_element_any input pos = Inr (e, end')"
    using read_element_any_complete assms by blast
qed

theorem der_reader_exact_witness:
  "\<exists>e. read_element_any [7, 0x30, 0x81, 0x02, 0x05, 0x00, 9] 1 = Inr (e, 6)"
proof -
  have "der 0x30 [0x05, 0x00] [0x30, 0x81, 0x02, 0x05, 0x00]"
    by (auto simp: der_def length_octets_def be_value_def intro!: exI [of _ "[0x81, 0x02]"] exI [of _ "[0x02]"])
  then have "\<exists>tag content pre bs post. [7, 0x30, 0x81, 0x02, 0x05, 0x00, 9] = pre @ bs @ post
      \<and> length pre = 1 \<and> 6 = 1 + length bs \<and> der tag content bs"
    by (intro exI [of _ "0x30"] exI [of _ "[0x05, 0x00]"] exI [of _ "[7]"]
        exI [of _ "[0x30, 0x81, 0x02, 0x05, 0x00]"] exI [of _ "[9]"]) simp
  then show ?thesis
    using der_reader_exact [of "[7, 0x30, 0x81, 0x02, 0x05, 0x00, 9]" 1 6] by simp
qed

text \<open>
  C23. From every certificate of the X.509 shape, with or without a version field, the code
  extracts exactly its subject public key, its signed part and its signature.
\<close>

theorem certificate_fields:
  assumes "x509 tbs spki signature cert" and "length cert < 2 ^ 64"
  shows "extract_spki_der cert = Inr spki \<and> extract_tbs_and_signature cert = Inr (tbs, signature)"
  using extract_spki [OF assms] extract_tbs [OF assms] by simp

definition example_spki :: bytes where
  "example_spki = [0x30, 0x02, 0x05, 0x07]"

definition example_tbs :: bytes where
  "example_tbs = [0x30, 0x0f, 0x02, 0x01, 0x09, 0x30, 0, 0x30, 0, 0x30, 0, 0x30, 0] @ example_spki"

definition example_cert :: bytes where
  "example_cert = [0x30, 0x18] @ example_tbs @ [0x30, 0] @ [0x03, 0x03, 0, 1, 2]"

lemma short_der: "length c < 128 \<Longrightarrow> t AND 0x1f \<noteq> 0x1f \<Longrightarrow> der t c (t # of_nat (length c) # c)"
  by (auto simp: der_def length_octets_def)

lemma example_x509: "x509 example_tbs example_spki [1, 2] example_cert"
  unfolding x509_def
proof (intro exI conjI)
  let ?fields = "[[0x02, 0x01, 0x09], [0x30, 0], [0x30, 0], [0x30, 0], [0x30, 0]]"
  show "der 0x30 (example_tbs @ [0x30, 0] @ [0x03, 0x03, 0, 1, 2]) example_cert"
    using short_der [of "example_tbs @ [0x30, 0] @ [0x03, 0x03, 0, 1, 2]" "0x30"]
    by (simp add: example_tbs_def example_cert_def example_spki_def)
  show "der 0x30 ([] @ concat ?fields @ example_spki @ []) example_tbs"
    using short_der [of "concat ?fields @ example_spki" "0x30"]
    by (simp add: example_tbs_def example_spki_def)
  show "list_all2 (\<lambda>t bs. \<exists>c. der t c bs) [0x02, 0x30, 0x30, 0x30, 0x30] ?fields"
    using short_der [of "[9]" "0x02"] short_der [of "[]" "0x30"] by auto
  show "der 0x30 [0x05, 0x07] example_spki" "der 0x30 [] [0x30, 0]" "der 0x03 (0 # [1, 2]) [0x03, 0x03, 0, 1, 2]"
    using short_der [of "[0x05, 0x07]" "0x30"] short_der [of "[]" "0x30"] short_der [of "[0, 1, 2]" "0x03"]
    by (simp_all add: example_spki_def)
qed simp

theorem certificate_fields_witness:
  "extract_spki_der example_cert = Inr example_spki
     \<and> extract_tbs_and_signature example_cert = Inr (example_tbs, [1, 2])"
  using certificate_fields [OF example_x509] by (simp add: example_cert_def example_tbs_def example_spki_def)


text \<open>
  C11. Pinning finds the right authority. A relay link that carries the first 16 digest bytes
  of a key, read back from its text, is matched by every chain with a certificate for that
  key; and a chain in which no extracted key has that digest prefix is refused. Of SHA-256 it
  is used only that a digest has 32 bytes.
\<close>

theorem pinned_authority:
  assumes digest: "\<And>bs. length (digest bs) = 32"
    and "length s = 8" and "length origin < 256" and "utf8_valid origin"
  shows "\<exists>r. pair_link_parse (link_text (blob_v06 s (take 16 (digest key)) origin)) = Inr (Relay r)
    \<and> (\<forall>chain cert tbs sig. cert \<in> set chain \<and> x509 tbs key sig cert \<and> length cert < 2 ^ 64
         \<longrightarrow> chain_spki_matches_prefix digest chain (ca_fp_spki r))
    \<and> (\<forall>chain. (\<forall>cert\<in>set chain. \<forall>spki. extract_spki_der cert = Inr spki
           \<longrightarrow> take 16 (digest spki) \<noteq> take 16 (digest key))
         \<longrightarrow> \<not> chain_spki_matches_prefix digest chain (ca_fp_spki r))"
proof -
  define fp where "fp = take 16 (digest key)"
  let ?r = "\<lparr>rp_s = s, ca_fp_spki = fp, relay_origin = (if origin = [] then DEFAULT_RELAY_ORIGIN else origin)\<rparr>"
  have fp: "length fp = 16" using digest [of key] by (simp add: fp_def)
  then have "fp \<noteq> []" by auto
  have parse: "pair_link_parse (link_text (blob_v06 s fp origin)) = Inr (Relay ?r)"
    using parse_blob_v06 [of s fp origin] assms(2-4) fp by (simp add: parse_link_text)
  have one: "spki_matches_prefix digest cert fp \<longleftrightarrow>
      (\<exists>spki. extract_spki_der cert = Inr spki \<and> take 16 (digest spki) = fp)" for cert
    using fp \<open>fp \<noteq> []\<close> by (cases "extract_spki_der cert") (simp_all add: spki_matches_prefix_def)
  have match: "chain_spki_matches_prefix digest chain (ca_fp_spki ?r) \<longleftrightarrow>
      (\<exists>cert\<in>set chain. \<exists>spki. extract_spki_der cert = Inr spki \<and> take 16 (digest spki) = fp)" for chain
    by (simp only: chain_spki_matches_prefix_def list_ex_iff one relay_pair_link.select_convs)
  have "chain_spki_matches_prefix digest chain (ca_fp_spki ?r)"
    if "cert \<in> set chain \<and> x509 tbs key sig cert \<and> length cert < 2 ^ 64" for chain cert tbs sig
    unfolding match using that extract_spki [of tbs key sig cert] by (auto simp: fp_def)
  moreover have "\<not> chain_spki_matches_prefix digest chain (ca_fp_spki ?r)"
    if "\<forall>cert\<in>set chain. \<forall>spki. extract_spki_der cert = Inr spki \<longrightarrow> take 16 (digest spki) \<noteq> fp" for chain
    unfolding match using that by blast
  ultimately show ?thesis
    unfolding fp_def [symmetric] using parse by (intro exI [of _ ?r] conjI allI impI) blast+
qed

theorem pinned_authority_witness:
  "\<exists>r. pair_link_parse (link_text (blob_v06 (replicate 8 3) (take 16 (replicate 32 7)) [])) = Inr (Relay r)
     \<and> chain_spki_matches_prefix (\<lambda>_. replicate 32 7) [[1], example_cert] (ca_fp_spki r)"
proof -
  let ?digest = "\<lambda>_ :: bytes. replicate 32 (7 :: u8)"
  have d: "\<And>bs. length (?digest bs) = 32" and "length (replicate 8 (3 :: u8)) = 8"
    and "length ([] :: str) < 256" and "utf8_valid []"
    by (simp_all add: utf8_valid_ascii)
  from pinned_authority [of ?digest, OF this, of example_spki] obtain r where
    "pair_link_parse (link_text (blob_v06 (replicate 8 3) (take 16 (replicate 32 7)) [])) = Inr (Relay r)"
    and all: "\<forall>chain cert tbs sig. cert \<in> set chain \<and> x509 tbs example_spki sig cert \<and> length cert < 2 ^ 64
       \<longrightarrow> chain_spki_matches_prefix ?digest chain (ca_fp_spki r)"
    by (elim exE conjE) (rule that)
  moreover have "length example_cert < 2 ^ 64" by (simp add: example_cert_def example_tbs_def example_spki_def)
  ultimately show ?thesis
    using all [rule_format, of example_cert "[[1], example_cert]"] example_x509 by auto
qed

end
