(* ===== verification/Spl_Relay.thy ===== *)
theory Spl_Relay
  imports Spl_Ca
begin

text \<open>
  The relay side of the dialer: WebSocket URLs and listen controls
  (\<open>crates/spl-core/src/relay.rs\<close>), token lifetimes (\<open>jwt.rs\<close>), the checks on instance
  capabilities (\<open>relay_access.rs\<close>) and the derivations of a pair window (\<open>relay_window.rs\<close>).

  JSON, base64, RFC 3339, HKDF and P-256 come from other crates. What the sources call of them
  is gathered in the parameters \<open>json_api\<close> and \<open>key_api\<close>; an \<open>i64\<close> is an \<^typ>\<open>int\<close> with the
  limits of its checked and saturating operations written out.
\<close>

subsection \<open>Strings\<close>

definition strip_prefix :: "str \<Rightarrow> str \<Rightarrow> str option" where
  "strip_prefix p s = (if take (length p) s = p then Some (drop (length p) s) else None)"

definition is_ascii_alphanumeric :: "u8 \<Rightarrow> bool" where
  "is_ascii_alphanumeric b \<longleftrightarrow> 48 \<le> b \<and> b \<le> 57 \<or> 65 \<le> b \<and> b \<le> 90 \<or> 97 \<le> b \<and> b \<le> 122"

definition is_ascii_hexdigit :: "u8 \<Rightarrow> bool" where
  "is_ascii_hexdigit b \<longleftrightarrow> 48 \<le> b \<and> b \<le> 57 \<or> 65 \<le> b \<and> b \<le> 70 \<or> 97 \<le> b \<and> b \<le> 102"

subsection \<open>URLs\<close>

datatype dial_url_error = UnsupportedScheme

definition is_unreserved :: "u8 \<Rightarrow> bool" where
  "is_unreserved b \<longleftrightarrow> is_ascii_alphanumeric b \<or> b = 45 \<or> b = 46 \<or> b = 95 \<or> b = 126"

text \<open>\<open>hex\<close>, for a nibble; its \<open>unreachable!\<close> arm is the \<open>None\<close> case.\<close>

definition hex_nibble :: "u8 \<Rightarrow> u8 option" where
  "hex_nibble n = (if n \<le> 9 then Some (48 + n) else if n \<le> 15 then Some (65 + (n - 10)) else None)"

text \<open>The encoding of one byte, then the loop; \<open>None\<close> is the panic of \<open>hex\<close>.\<close>

definition percent_byte :: "u8 \<Rightarrow> str option" where
  "percent_byte b =
     (if is_unreserved b then Some [b]
      else
        (case (hex_nibble (drop_bit 4 b), hex_nibble (b AND 0x0F)) of
           (Some h, Some l) \<Rightarrow> Some [37, h, l]
         | _ \<Rightarrow> None))"

fun percent_encode :: "str \<Rightarrow> str option" where
  "percent_encode [] = Some []"
| "percent_encode (b # bs) =
     (case (percent_byte b, percent_encode bs) of
        (Some e, Some r) \<Rightarrow> Some (e @ r)
      | _ \<Rightarrow> None)"

definition ws_origin :: "str \<Rightarrow> dial_url_error + str" where
  "ws_origin relay =
     bind_res
       (case strip_prefix (ascii ''https://'') relay of
          Some rest \<Rightarrow> Inr (ascii ''wss://'' @ rest)
        | None \<Rightarrow>
            (case strip_prefix (ascii ''http://'') relay of
               Some rest \<Rightarrow> Inr (ascii ''ws://'' @ rest)
             | None \<Rightarrow> Inl UnsupportedScheme))
       (\<lambda>rewritten. Inr (if rewritten \<noteq> [] \<and> last rewritten = 47 then butlast rewritten else rewritten))"

definition relay_url :: "str \<Rightarrow> str \<Rightarrow> str \<Rightarrow> dial_url_error + str option" where
  "relay_url relay path instance_id =
     bind_res (ws_origin relay) (\<lambda>origin.
       Inr (map_option (\<lambda>i. origin @ path @ ascii ''?instance='' @ i) (percent_encode instance_id)))"

definition dial_url :: "str \<Rightarrow> str \<Rightarrow> dial_url_error + str option" where
  "dial_url relay instance_id = relay_url relay (ascii ''/session/dial'') instance_id"

definition pair_dial_url :: "str \<Rightarrow> dial_url_error + str" where
  "pair_dial_url relay = map_sum id (\<lambda>o'. o' @ ascii ''/session/pair-dial'') (ws_origin relay)"

definition listen_url :: "str \<Rightarrow> dial_url_error + str" where
  "listen_url relay = map_sum id (\<lambda>o'. o' @ ascii ''/session/listen'') (ws_origin relay)"

definition tunnel_url :: "str \<Rightarrow> str \<Rightarrow> dial_url_error + str option" where
  "tunnel_url relay tunnel_id =
     bind_res (ws_origin relay) (\<lambda>origin.
       Inr (map_option (\<lambda>t. origin @ ascii ''/tunnel/'' @ t) (percent_encode tunnel_id)))"

subsection \<open>JSON and its neighbours\<close>

record instance_claims_body =
  ic_iss :: str
  ic_sub :: str
  ic_aud :: str
  ic_scope :: str
  ic_ver :: u8
  ic_instance_id :: str
  ic_iat :: int
  ic_exp :: int
  ic_jti :: str

text \<open>
  What is used of \<open>serde_json\<close> on a value type \<open>'v\<close> (parsing, field access, the \<open>as_\<close>
  conversions, the derived deserialisations of \<open>InstanceClaims\<close> and \<open>RawClaims\<close>), of \<open>base64\<close>
  and of \<open>time\<close> (the seconds and the nanoseconds of a timestamp).
\<close>

record 'v json_api =
  js_parse :: "bytes \<Rightarrow> 'v option"
  js_is_object :: "'v \<Rightarrow> bool"
  js_get :: "'v \<Rightarrow> str \<Rightarrow> 'v option"
  js_as_str :: "'v \<Rightarrow> str option"
  js_as_i64 :: "'v \<Rightarrow> int option"
  js_as_u64 :: "'v \<Rightarrow> nat option"
  js_instance_claims :: "'v \<Rightarrow> instance_claims_body option"
  js_raw_claims :: "bytes \<Rightarrow> (int \<times> int) option"
  b64_decode :: "str \<Rightarrow> bytes option"
  rfc3339_parse :: "str \<Rightarrow> (int \<times> nat) option"

datatype listen_control = Incoming str | IgnoreControl | InvalidControl

text \<open>\<open>to_string\<close> on a signed integer.\<close>

definition int_string :: "int \<Rightarrow> str" where
  "int_string i = (if i < 0 then 45 # dec_string (nat (- i)) else dec_string (nat i))"

definition tunnel_id_of :: "'v json_api \<Rightarrow> 'v \<Rightarrow> str option" where
  "tunnel_id_of J v =
     (case js_as_str J v of
        Some s \<Rightarrow> if s \<noteq> [] then Some s else None
      | None \<Rightarrow>
          (case js_as_i64 J v of
             Some i \<Rightarrow> Some (int_string i)
           | None \<Rightarrow> map_option dec_string (js_as_u64 J v)))"

definition parse_listen_control :: "'v json_api \<Rightarrow> str \<Rightarrow> listen_control" where
  "parse_listen_control J text =
     (case js_parse J text of
        None \<Rightarrow> InvalidControl
      | Some value \<Rightarrow>
          if \<not> js_is_object J value then InvalidControl
          else
            (case Option.bind (js_get J value (ascii ''type'')) (js_as_str J) of
               None \<Rightarrow> InvalidControl
             | Some t \<Rightarrow>
                 if t \<noteq> ascii ''incoming'' then IgnoreControl
                 else
                   (case Option.bind (js_get J value (ascii ''tunnel_id'')) (tunnel_id_of J) of
                      Some tunnel_id \<Rightarrow> Incoming tunnel_id
                    | None \<Rightarrow> InvalidControl)))"

subsection \<open>Token lifetimes\<close>

definition I64_MAX :: int where "I64_MAX = 2 ^ 63 - 1"
definition I64_MIN :: int where "I64_MIN = - (2 ^ 63)"

definition i64_checked :: "int \<Rightarrow> int option" where
  "i64_checked i = (if I64_MIN \<le> i \<and> i \<le> I64_MAX then Some i else None)"

definition i64_saturating_add :: "int \<Rightarrow> int \<Rightarrow> int" where
  "i64_saturating_add a b = max I64_MIN (min I64_MAX (a + b))"

record jwt_claims =
  jc_iat :: int
  jc_exp :: int

definition decode_unverified_claims :: "'v json_api \<Rightarrow> str \<Rightarrow> jwt_claims option" where
  "decode_unverified_claims J token =
     (case str_split [46] token of
        [_, payload, _] \<Rightarrow>
          Option.bind (b64_decode J payload) (\<lambda>decoded.
            map_option (\<lambda>(iat, exp). \<lparr>jc_iat = iat, jc_exp = exp\<rparr>) (js_raw_claims J decoded))
      | _ \<Rightarrow> None)"

definition should_refresh :: "jwt_claims \<Rightarrow> int \<Rightarrow> bool" where
  "should_refresh claims now_secs =
     (case i64_checked (jc_exp claims - jc_iat claims) of
        None \<Rightarrow> False
      | Some ttl \<Rightarrow>
          if ttl \<le> 0 then False
          else
            (case i64_checked (ttl * 4) of
               None \<Rightarrow> False
             | Some scaled_ttl \<Rightarrow>
                 (case i64_checked (jc_iat claims + scaled_ttl div 5) of
                    None \<Rightarrow> False
                  | Some refresh_at \<Rightarrow> now_secs > refresh_at)))"

subsection \<open>Instance capabilities\<close>

record relay_access =
  ra_protocol_version :: u8
  ra_status :: str
  ra_relay_origin :: str
  ra_instance_id :: str
  ra_device_token :: str
  ra_expires_at :: str

definition unverified_payload :: "'v json_api \<Rightarrow> str \<Rightarrow> 'v option" where
  "unverified_payload J token =
     (case str_split [46] token of
        [header, payload, signature] \<Rightarrow>
          if header = [] \<or> signature = [] then None
          else Option.bind (b64_decode J payload) (js_parse J)
      | _ \<Rightarrow> None)"

definition instance_claims :: "'v json_api \<Rightarrow> str \<Rightarrow> str \<Rightarrow> int \<Rightarrow> jwt_claims option" where
  "instance_claims J token instance_id now =
     Option.bind (Option.bind (unverified_payload J token) (js_instance_claims J)) (\<lambda>claims.
       if ic_ver claims \<noteq> 2
          \<or> ic_aud claims \<noteq> ascii ''spl-relay''
          \<or> ic_scope claims \<noteq> ascii ''session.dial''
          \<or> ic_instance_id claims \<noteq> instance_id
          \<or> ic_sub claims \<noteq> ascii ''instance:'' @ instance_id
          \<or> ic_iss claims = []
          \<or> ic_jti claims = []
          \<or> ic_exp claims \<le> now
          \<or> ic_exp claims \<le> ic_iat claims
          \<or> ic_iat claims > i64_saturating_add now 60
       then None
       else Some \<lparr>jc_iat = ic_iat claims, jc_exp = ic_exp claims\<rparr>)"

text \<open>\<open>object.get(key)?.as_str()?\<close>.\<close>

definition js_str :: "'v json_api \<Rightarrow> 'v \<Rightarrow> str \<Rightarrow> str option" where
  "js_str J v key = Option.bind (js_get J v key) (js_as_str J)"

definition legacy_claims :: "'v json_api \<Rightarrow> str \<Rightarrow> str \<Rightarrow> int \<Rightarrow> jwt_claims option" where
  "legacy_claims J token instance_id now =
     Option.bind (unverified_payload J token) (\<lambda>object.
       if \<not> js_is_object J object then None
       else
         Option.bind (Option.bind (js_str J object (ascii ''sub'')) (strip_prefix (ascii ''device:''))) (\<lambda>sub.
         Option.bind (Option.bind (js_str J object (ascii ''device_fp'')) (strip_prefix (ascii ''sha256:''))) (\<lambda>fp.
         Option.bind (decode_unverified_claims J token) (\<lambda>claims.
           if js_get J object (ascii ''ver'') \<noteq> None
              \<or> sub = []
              \<or> length fp \<noteq> 64
              \<or> \<not> list_all is_ascii_hexdigit fp
           then None
           else
             Option.bind (js_str J object (ascii ''instance_id'')) (\<lambda>i. if i \<noteq> instance_id then None else
             Option.bind (js_str J object (ascii ''aud'')) (\<lambda>aud. if aud \<noteq> ascii ''spl-relay'' then None else
             Option.bind (js_str J object (ascii ''scope'')) (\<lambda>scope. if scope \<noteq> ascii ''session.dial'' then None else
             Option.bind (js_str J object (ascii ''iss'')) (\<lambda>iss. if iss = [] then None else
             Option.bind (js_str J object (ascii ''jti'')) (\<lambda>jti. if jti = [] then None else
               if jc_exp claims \<le> now
                  \<or> jc_exp claims \<le> jc_iat claims
                  \<or> jc_iat claims > i64_saturating_add now 60
               then None
               else Some claims)))))))))"

definition renewal_identity :: "'v json_api \<Rightarrow> str \<Rightarrow> int \<Rightarrow> (str \<times> bool) option" where
  "renewal_identity J token now =
     Option.bind (unverified_payload J token) (\<lambda>payload.
     Option.bind (js_str J payload (ascii ''instance_id'')) (\<lambda>inst.
     Option.bind (Option.bind (js_get J payload (ascii ''exp'')) (js_as_i64 J)) (\<lambda>exp.
     Option.bind (Option.bind (js_get J payload (ascii ''iat'')) (js_as_i64 J)) (\<lambda>iat.
       if iat > i64_saturating_add now 60 then None
       else
         Option.bind (i64_checked (exp - 1)) (\<lambda>before_exp.
           let shape_time = min now before_exp in
           (case js_get J payload (ascii ''ver'') of
              Some version \<Rightarrow>
                if js_as_u64 J version = Some 2
                then map_option (\<lambda>_. (inst, True)) (instance_claims J token inst shape_time)
                else None
            | None \<Rightarrow> map_option (\<lambda>_. (inst, False)) (legacy_claims J token inst shape_time)))))))"

definition negotiated_claims ::
  "'v json_api \<Rightarrow> u8 \<Rightarrow> str \<Rightarrow> str \<Rightarrow> str \<Rightarrow> int \<Rightarrow> jwt_claims option" where
  "negotiated_claims J protocol_version token expires_at instance_id now =
     (if protocol_version \<noteq> 2 then None
      else
        Option.bind (instance_claims J token instance_id now) (\<lambda>claims.
        Option.bind (rfc3339_parse J expires_at) (\<lambda>(seconds, nanosecond).
          if seconds \<noteq> jc_exp claims \<or> nanosecond \<noteq> 0 then None else Some claims)))"

definition relay_access_claims :: "'v json_api \<Rightarrow> relay_access \<Rightarrow> str \<Rightarrow> int \<Rightarrow> jwt_claims option" where
  "relay_access_claims J a instance_id now =
     (if ra_status a \<noteq> ascii ''ready'' \<or> ra_instance_id a \<noteq> instance_id then None
      else negotiated_claims J (ra_protocol_version a) (ra_device_token a) (ra_expires_at a) instance_id now)"

subsection \<open>Pair windows\<close>

datatype jid_error = NotP256 | InvalidPoint | MalformedSpki

datatype spki_key_error = OidUnknown | OtherKeyError

text \<open>
  What is used of \<open>hkdf\<close> (sixteen bytes from key material, an optional salt and an info
  string) and of \<open>p256\<close>: parsing a subject public key info and whether its key is whole bytes,
  the public key in it, and the canonical encoding of a key.
\<close>

record ('spki, 'k) key_api =
  hkdf_sha256_16 :: "bytes \<Rightarrow> bytes option \<Rightarrow> bytes \<Rightarrow> bytes"
  spki_from_der :: "bytes \<Rightarrow> 'spki option"
  spki_key_bytes :: "'spki \<Rightarrow> bytes option"
  public_key_try_from :: "'spki \<Rightarrow> spki_key_error + 'k"
  to_public_key_der :: "'k \<Rightarrow> bytes"

definition derive_rk :: "('spki, 'k) key_api \<Rightarrow> bytes \<Rightarrow> bytes" where
  "derive_rk K s = hkdf_sha256_16 K s None (ascii ''spl-pair-window-v1'')"

definition jid_from_public_key :: "('spki, 'k) key_api \<Rightarrow> 'k \<Rightarrow> string + str" where
  "jid_from_public_key K public_key =
     (let raw = hkdf_sha256_16 K (to_public_key_der K public_key) (Some (ascii ''solstone/journal/v1''))
            (ascii ''solstone/jid/uuidv8/v1'');
          raw = raw[6 := (raw ! 6 AND 0x0f) OR 0x80];
          raw = raw[8 := (raw ! 8 AND 0x3f) OR 0x80]
      in uuid_string raw)"

definition jid_from_spki :: "('spki, 'k) key_api \<Rightarrow> bytes \<Rightarrow> jid_error + (string + str)" where
  "jid_from_spki K spki_der =
     bind_res (ok_or (spki_from_der K spki_der) MalformedSpki) (\<lambda>spki.
       if spki_key_bytes K spki = None then Inl MalformedSpki
       else
         (case public_key_try_from K spki of
            Inr public_key \<Rightarrow> Inr (jid_from_public_key K public_key)
          | Inl OidUnknown \<Rightarrow> Inl NotP256
          | Inl OtherKeyError \<Rightarrow> Inl InvalidPoint))"

subsection \<open>Percent encoding\<close>

text \<open>The reference reading of percent-encoded text.\<close>

definition hex_value :: "u8 \<Rightarrow> nat option" where
  "hex_value b = (if 48 \<le> b \<and> b \<le> 57 then Some (unat b - 48)
                  else if 65 \<le> b \<and> b \<le> 70 then Some (unat b - 55) else None)"

fun percent_decode :: "str \<Rightarrow> str option" where
  "percent_decode [] = Some []"
| "percent_decode (b # bs) =
     (if b = 37 then
        (case bs of
           h # l # rest \<Rightarrow>
             (case (hex_value h, hex_value l) of
                (Some x, Some y) \<Rightarrow> map_option (Cons (of_nat (16 * x + y))) (percent_decode rest)
              | _ \<Rightarrow> None)
         | _ \<Rightarrow> None)
      else map_option (Cons b) (percent_decode bs))"

lemma nibble_bounds:
  fixes b :: u8
  shows "unat (drop_bit 4 b) = unat b div 16" "unat (b AND 0x0F) = unat b mod 16"
    "unat b div 16 < 16"
proof -
  have "b AND 0x0F = take_bit 4 b" by (simp add: take_bit_eq_mask mask_eq_exp_minus_1)
  then show "unat (b AND 0x0F) = unat b mod 16"
    by (simp only: unsigned_take_bit_eq) (simp add: take_bit_eq_mod)
  show "unat (drop_bit 4 b) = unat b div 16"
    by (simp add: drop_bit_eq_div unat_div_distrib)
  have "unat b < 16 * 16" using unsigned_less [of b] by simp
  then show "unat b div 16 < 16" by (rule less_mult_imp_div_less)
qed

lemma hex_nibbles:
  "list_all (\<lambda>n. \<exists>h. hex_nibble n = Some h \<and> hex_value h = Some (unat n) \<and> is_unreserved h)
     (map of_nat [0..<16])"
  by (simp add: hex_nibble_def hex_value_def is_unreserved_def is_ascii_alphanumeric_def upt_conv_Cons)

lemma hex_nibble_value:
  fixes n :: u8
  assumes "unat n < 16"
  obtains h where "hex_nibble n = Some h" and "hex_value h = Some (unat n)" and "is_unreserved h"
proof -
  have "n = of_nat (unat n)" by simp
  with assms have "n \<in> set (map of_nat [0..<16])" by (metis atLeastLessThan_iff imageI le0 set_map set_upt)
  with hex_nibbles that show thesis by (auto simp: list_all_iff)
qed

lemma percent_byte_decode:
  "\<exists>e. percent_byte b = Some e \<and> (\<forall>c\<in>set e. is_unreserved c \<or> c = 37)
     \<and> (\<forall>rest. percent_decode (e @ rest) = map_option (Cons b) (percent_decode rest))"
proof (cases "is_unreserved b")
  case True
  then have "b \<noteq> 37" by (auto simp: is_unreserved_def is_ascii_alphanumeric_def)
  with True show ?thesis by (simp add: percent_byte_def)
next
  case False
  obtain h where h: "hex_nibble (drop_bit 4 b) = Some h" "hex_value h = Some (unat b div 16)" "is_unreserved h"
    using hex_nibble_value [of "drop_bit 4 b"] nibble_bounds [of b] by metis
  have "unat b mod 16 < 16" by simp
  then obtain l where l: "hex_nibble (b AND 0x0F) = Some l" "hex_value l = Some (unat b mod 16)" "is_unreserved l"
    using hex_nibble_value [of "b AND 0x0F"] nibble_bounds(2) [of b] by metis
  have "(of_nat (16 * (unat b div 16) + unat b mod 16) :: u8) = b" by (simp only: mult_div_mod_eq) simp
  with False h l show ?thesis by (auto simp: percent_byte_def)
qed

lemma percent_encode_decode:
  "\<exists>e. percent_encode v = Some e \<and> (\<forall>c\<in>set e. is_unreserved c \<or> c = 37) \<and> percent_decode e = Some v"
proof (induction v)
  case (Cons b v)
  then obtain r where "percent_encode v = Some r" "\<forall>c\<in>set r. is_unreserved c \<or> c = 37" "percent_decode r = Some v"
    by blast
  with percent_byte_decode [of b] show ?case by auto
qed simp

subsection \<open>Journal identities\<close>

lemma nth_hex_lower:
  assumes "i < length bs"
  shows "hex_lower bs ! (2 * i) = hex_digit (unat (bs ! i) div 16)"
    and "hex_lower bs ! (2 * i + 1) = hex_digit (unat (bs ! i) mod 16)"
  using assms
proof (induction bs arbitrary: i)
  case (Cons b bs)
  {
    case 1
    then show ?case using Cons(1) [of "i - 1"] by (cases i) (simp_all add: hex_lower_def)
  next
    case 2
    then show ?case using Cons(2) [of "i - 1"] by (cases i) (simp_all add: hex_lower_def)
  }
qed simp_all

text \<open>The version and variant nibbles that are forced into an identity.\<close>

lemma forced_nibbles:
  fixes x :: u8
  shows "unat ((x AND 0x0f) OR 0x80) div 16 = 8"
    and "unat ((x AND 0x3f) OR 0x80) div 16 \<in> {8, 9, 10, 11}"
proof -
  have "drop_bit 4 ((x AND 0x0f) OR 0x80) = (8 :: u8)"
    by (rule bit_word_eqI) (auto simp: bit_simps)
  then show "unat ((x AND 0x0f) OR 0x80) div 16 = 8"
    using nibble_bounds(1) [of "(x AND 0x0f) OR 0x80"] by simp
  define z where "z = take_bit 2 (drop_bit 4 x)"
  have y: "drop_bit 4 ((x AND 0x3f) OR 0x80) = (8 :: u8) OR z"
  proof (rule bit_word_eqI)
    fix n assume "n < LENGTH(8)"
    then show "bit (drop_bit 4 ((x AND 0x3f) OR 0x80)) n = bit ((8 :: u8) OR z) n"
      by (auto simp: z_def bit_simps less_Suc_eq numeral_eq_Suc)
  qed
  have "unat z < 4"
    using take_bit_nat_less_exp [of 2 "unat (drop_bit 4 x)"] by (simp add: z_def unsigned_take_bit_eq)
  then have "unat z \<in> {0, 1, 2, 3}" by auto
  moreover have "z = of_nat (unat z)" by simp
  ultimately have "z = 0 \<or> z = 1 \<or> z = 2 \<or> z = 3" by (auto simp del: of_nat_unat)
  then have "unat ((8 :: u8) OR z) \<in> {8, 9, 10, 11}" by auto
  then show "unat ((x AND 0x3f) OR 0x80) div 16 \<in> {8, 9, 10, 11}"
    using nibble_bounds(1) [of "(x AND 0x3f) OR 0x80"] y by simp
qed

lemma uuid_string_layout:
  assumes "length raw = 16"
  shows "\<exists>u. uuid_string raw = Inr u \<and> length u = 36
    \<and> u ! 8 = 45 \<and> u ! 13 = 45 \<and> u ! 18 = 45 \<and> u ! 23 = 45
    \<and> u ! 14 = hex_digit (unat (raw ! 6) div 16) \<and> u ! 19 = hex_digit (unat (raw ! 8) div 16)"
proof -
  define h where "h = hex_lower raw"
  have len: "length h = 32" using assms by (simp add: h_def)
  have n: "h ! 12 = hex_digit (unat (raw ! 6) div 16)" "h ! 16 = hex_digit (unat (raw ! 8) div 16)"
    using nth_hex_lower(1) [of 6 raw] nth_hex_lower(1) [of 8 raw] assms by (simp_all add: h_def)
  let ?u = "byte_slice 0 8 h @ [45] @ byte_slice 8 12 h @ [45] @ byte_slice 12 16 h @ [45]
             @ byte_slice 16 20 h @ [45] @ byte_slice 20 32 h"
  have "uuid_string raw = Inr ?u" using len by (simp add: uuid_string_def h_def Let_def)
  moreover have "length ?u = 36" using len by simp
  moreover have "?u ! 8 = 45" "?u ! 13 = 45" "?u ! 18 = 45" "?u ! 23 = 45" "?u ! 14 = h ! 12" "?u ! 19 = h ! 16"
    using len by (simp_all add: nth_append byte_slice_def)
  ultimately show ?thesis using n by simp
qed

subsection \<open>Renewal\<close>

text \<open>
  What is relied on of the derived deserialisation of \<open>InstanceClaims\<close>: it reads the fields
  that the generic accessors read, and its integers are \<open>i64\<close> values.
\<close>

definition claims_agree :: "'v json_api \<Rightarrow> bool" where
  "claims_agree J \<longleftrightarrow>
     (\<forall>v c. js_instance_claims J v = Some c \<longrightarrow>
        js_str J v (ascii ''instance_id'') = Some (ic_instance_id c)
        \<and> Option.bind (js_get J v (ascii ''exp'')) (js_as_i64 J) = Some (ic_exp c)
        \<and> Option.bind (js_get J v (ascii ''iat'')) (js_as_i64 J) = Some (ic_iat c)
        \<and> Option.bind (js_get J v (ascii ''ver'')) (js_as_u64 J) = Some (unat (ic_ver c))
        \<and> I64_MIN \<le> ic_iat c \<and> ic_exp c \<le> I64_MAX)"

lemma saturating_mono: "a \<le> b \<Longrightarrow> i64_saturating_add a k \<le> i64_saturating_add b k"
  by (simp add: i64_saturating_add_def)

lemma instance_claims_Some:
  "instance_claims J token inst now = Some k \<longleftrightarrow>
     (\<exists>v c. unverified_payload J token = Some v \<and> js_instance_claims J v = Some c
        \<and> ic_ver c = 2 \<and> ic_aud c = ascii ''spl-relay'' \<and> ic_scope c = ascii ''session.dial''
        \<and> ic_instance_id c = inst \<and> ic_sub c = ascii ''instance:'' @ inst \<and> ic_iss c \<noteq> [] \<and> ic_jti c \<noteq> []
        \<and> now < ic_exp c \<and> ic_iat c < ic_exp c \<and> ic_iat c \<le> i64_saturating_add now 60
        \<and> k = \<lparr>jc_iat = ic_iat c, jc_exp = ic_exp c\<rparr>)"
  by (auto simp: instance_claims_def bind_eq_Some_conv not_le not_less simp del: ascii_simps split: if_splits)

text \<open>A token that was valid at some time is still valid for renewal, at the time that renewal uses.\<close>

lemma once_valid_shape:
  assumes "instance_claims J token inst s = Some k" and "s \<le> now" and "claims_agree J"
    and "jc_exp k - 1 = e"
  shows "\<exists>k'. instance_claims J token inst (min now e) = Some k'"
proof -
  from assms(1) obtain v c where vc: "unverified_payload J token = Some v" "js_instance_claims J v = Some c"
    "ic_ver c = 2" "ic_aud c = ascii ''spl-relay''" "ic_scope c = ascii ''session.dial''"
    "ic_instance_id c = inst" "ic_sub c = ascii ''instance:'' @ inst" "ic_iss c \<noteq> []" "ic_jti c \<noteq> []"
    "s < ic_exp c" "ic_iat c < ic_exp c" "ic_iat c \<le> i64_saturating_add s 60" "k = \<lparr>jc_iat = ic_iat c, jc_exp = ic_exp c\<rparr>"
    unfolding instance_claims_Some by blast
  have e: "e = ic_exp c - 1" using assms(4) vc(13) by simp
  have max: "ic_exp c \<le> I64_MAX" "I64_MIN \<le> ic_iat c" using assms(3) vc(2) by (auto simp: claims_agree_def)
  have "ic_iat c \<le> i64_saturating_add now 60"
    using vc(12) saturating_mono [OF assms(2), of 60] by linarith
  moreover have "ic_iat c \<le> i64_saturating_add e 60"
    using vc(11) max e by (simp add: i64_saturating_add_def)
  ultimately have "ic_iat c \<le> i64_saturating_add (min now e) 60" by (simp add: min_def)
  with vc e show ?thesis unfolding instance_claims_Some by (intro exI conjI) (rule refl | assumption | simp)+
qed

lemma renewal_identity_v2:
  assumes "unverified_payload J token = Some v" and "js_instance_claims J v = Some c" and "claims_agree J"
    and "ic_ver c = 2" and "ic_iat c \<le> i64_saturating_add now 60" and "ic_iat c < ic_exp c"
  shows "renewal_identity J token now =
    map_option (\<lambda>_. (ic_instance_id c, True)) (instance_claims J token (ic_instance_id c) (min now (ic_exp c - 1)))"
proof -
  have agree: "js_str J v (ascii ''instance_id'') = Some (ic_instance_id c)"
    "Option.bind (js_get J v (ascii ''exp'')) (js_as_i64 J) = Some (ic_exp c)"
    "Option.bind (js_get J v (ascii ''iat'')) (js_as_i64 J) = Some (ic_iat c)"
    "Option.bind (js_get J v (ascii ''ver'')) (js_as_u64 J) = Some 2"
    "I64_MIN \<le> ic_iat c" "ic_exp c \<le> I64_MAX"
    using assms(2-4) by (auto simp: claims_agree_def)
  then obtain w where "js_get J v (ascii ''ver'') = Some w" "js_as_u64 J w = Some 2"
    by (auto simp: bind_eq_Some_conv)
  moreover have "i64_checked (ic_exp c - 1) = Some (ic_exp c - 1)"
    using agree(5,6) assms(6) by (simp add: i64_checked_def)
  moreover obtain x where "js_get J v (ascii ''exp'') = Some x" "js_as_i64 J x = Some (ic_exp c)"
    using agree(2) by (auto simp: bind_eq_Some_conv)
  moreover obtain y where "js_get J v (ascii ''iat'') = Some y" "js_as_i64 J y = Some (ic_iat c)"
    using agree(3) by (auto simp: bind_eq_Some_conv)
  ultimately show ?thesis
    using assms(1,5) agree(1) by (simp add: renewal_identity_def Let_def del: ascii_simps)
qed

lemma renewal_of_valid:
  assumes "instance_claims J token inst s = Some k" and "s \<le> now" and "claims_agree J"
  shows "renewal_identity J token now = Some (inst, True)"
proof -
  from assms(1) obtain v c where vc: "unverified_payload J token = Some v" "js_instance_claims J v = Some c"
    "ic_ver c = 2" "ic_instance_id c = inst" "ic_iat c < ic_exp c" "ic_iat c \<le> i64_saturating_add s 60"
    "k = \<lparr>jc_iat = ic_iat c, jc_exp = ic_exp c\<rparr>"
    unfolding instance_claims_Some by blast
  have "ic_iat c \<le> i64_saturating_add now 60"
    using vc(6) saturating_mono [OF assms(2), of 60] by linarith
  moreover obtain k' where "instance_claims J token inst (min now (ic_exp c - 1)) = Some k'"
    using once_valid_shape [OF assms, of "ic_exp c - 1"] vc(7) by auto
  ultimately show ?thesis using renewal_identity_v2 [OF vc(1,2) assms(3) vc(3)] vc(4,5) by simp
qed

lemma valid_of_renewal:
  assumes "renewal_identity J token now = Some (inst, True)"
  shows "\<exists>s \<le> now. \<exists>k. instance_claims J token inst s = Some k"
proof -
  from assms obtain e where "instance_claims J token inst (min now e) \<noteq> None"
    by (auto simp: renewal_identity_def bind_eq_Some_conv Let_def simp del: ascii_simps
      split: if_splits option.splits) blast+
  then show ?thesis by (intro exI [of _ "min now e"]) auto
qed

subsection \<open>An instance of the JSON parameter\<close>

text \<open>A small value type with objects of strings and integers, and the operations on it.\<close>

datatype example_value = EStr str | EInt int | EObj "(str \<times> example_value) list"

fun example_get :: "example_value \<Rightarrow> str \<Rightarrow> example_value option" where
  "example_get (EObj members) key = map_of members key"
| "example_get _ key = None"

fun example_str :: "example_value \<Rightarrow> str option" where
  "example_str (EStr s) = Some s"
| "example_str _ = None"

fun example_i64 :: "example_value \<Rightarrow> int option" where
  "example_i64 (EInt i) = i64_checked i"
| "example_i64 _ = None"

definition example_u64 :: "example_value \<Rightarrow> nat option" where
  "example_u64 v = Option.bind (example_i64 v) (\<lambda>i. if 0 \<le> i then Some (nat i) else None)"

definition example_claims :: "example_value \<Rightarrow> instance_claims_body option" where
  "example_claims v =
     (let text = \<lambda>key. Option.bind (example_get v (ascii key)) example_str;
          number = \<lambda>key. Option.bind (example_get v (ascii key)) example_i64
      in case (text ''iss'', text ''sub'', text ''aud'', text ''scope'',
               Option.bind (example_get v (ascii ''ver'')) example_u64,
               text ''instance_id'', number ''iat'', number ''exp'', text ''jti'') of
           (Some iss, Some sub, Some aud, Some scope, Some ver, Some inst, Some iat, Some exp, Some jti) \<Rightarrow>
             if ver < 256 then
               Some \<lparr>ic_iss = iss, ic_sub = sub, ic_aud = aud, ic_scope = scope, ic_ver = of_nat ver,
                     ic_instance_id = inst, ic_iat = iat, ic_exp = exp, ic_jti = jti\<rparr>
             else None
         | _ \<Rightarrow> None)"

definition example_payload :: example_value where
  "example_payload = EObj
     [(ascii ''iss'', EStr (ascii ''i'')), (ascii ''sub'', EStr (ascii ''instance:home'')),
      (ascii ''aud'', EStr (ascii ''spl-relay'')), (ascii ''scope'', EStr (ascii ''session.dial'')),
      (ascii ''ver'', EInt 2), (ascii ''instance_id'', EStr (ascii ''home'')),
      (ascii ''iat'', EInt 100), (ascii ''exp'', EInt 200), (ascii ''jti'', EStr (ascii ''j''))]"

definition example_json :: "example_value json_api" where
  "example_json = \<lparr>
     js_parse = (\<lambda>bs. if bs = ascii ''p'' then Some example_payload else None),
     js_is_object = (\<lambda>v. case v of EObj _ \<Rightarrow> True | _ \<Rightarrow> False),
     js_get = example_get, js_as_str = example_str, js_as_i64 = example_i64, js_as_u64 = example_u64,
     js_instance_claims = example_claims,
     js_raw_claims = (\<lambda>bs. None),
     b64_decode = Some,
     rfc3339_parse = (\<lambda>s. None)\<rparr>"

lemma example_i64_range: "Option.bind x example_i64 = Some i \<Longrightarrow> I64_MIN \<le> i \<and> i \<le> I64_MAX"
  by (cases x; cases "the x") (auto simp: i64_checked_def split: if_splits)

lemma example_agrees: "claims_agree example_json"
  by (auto simp: claims_agree_def example_json_def example_claims_def Let_def js_str_def unat_of_nat
      dest: example_i64_range simp del: ascii_simps split: option.splits if_splits)

lemma example_claims_payload:
  "instance_claims example_json (ascii ''h.p.s'') (ascii ''home'') 150 = Some \<lparr>jc_iat = 100, jc_exp = 200\<rparr>"
  by code_simp

subsection \<open>Properties\<close>

lemma should_refresh_spec:
  assumes "I64_MIN \<le> iat" and "exp \<le> I64_MAX" and "4 * (exp - iat) \<le> I64_MAX"
  shows "should_refresh \<lparr>jc_iat = iat, jc_exp = exp\<rparr> now \<longleftrightarrow> iat < exp \<and> 4 * (exp - iat) < 5 * (now - iat)"
proof (cases "iat < exp")
  case True
  define ttl where "ttl = exp - iat"
  have ttl: "0 < ttl" "4 * ttl \<le> I64_MAX" using True assms(3) by (simp_all add: ttl_def)
  have fifth: "0 \<le> ttl * 4 div 5" "ttl * 4 div 5 \<le> ttl" using ttl(1) by simp_all
  have "I64_MIN \<le> 0" by (simp add: I64_MIN_def)
  with ttl have "i64_checked ttl = Some ttl" "i64_checked (ttl * 4) = Some (ttl * 4)"
    by (simp_all add: i64_checked_def)
  moreover have "i64_checked (iat + ttl * 4 div 5) = Some (iat + ttl * 4 div 5)"
    using fifth assms(1,2) by (simp add: i64_checked_def ttl_def)
  moreover have "iat + ttl * 4 div 5 < now \<longleftrightarrow> 4 * ttl < 5 * (now - iat)" by presburger
  ultimately show ?thesis using True ttl(1) by (simp add: should_refresh_def flip: ttl_def)
next
  case False
  then show ?thesis by (auto simp: should_refresh_def i64_checked_def)
qed

text \<open>
  C39. Relay URLs. When the relay origin has an accepted scheme, \<open>dial_url\<close> and \<open>tunnel_url\<close>
  return (the nibble printer never panics), the URL is the WebSocket origin, the fixed path and
  an encoded identifier; the encoded identifier holds only unreserved bytes and percent signs,
  so no identifier can add a path segment, a query or a fragment, and it decodes to the
  identifier.
\<close>

theorem relay_urls:
  assumes "ws_origin relay = Inr origin"
  shows "\<exists>e. dial_url relay i = Inr (Some (origin @ ascii ''/session/dial'' @ ascii ''?instance='' @ e))
    \<and> tunnel_url relay i = Inr (Some (origin @ ascii ''/tunnel/'' @ e))
    \<and> list_all (\<lambda>c. is_unreserved c \<or> c = 37) e \<and> percent_decode e = Some i"
proof -
  obtain e where "percent_encode i = Some e" "\<forall>c\<in>set e. is_unreserved c \<or> c = 37" "percent_decode e = Some i"
    using percent_encode_decode by blast
  then show ?thesis
    by (intro exI [of _ e]) (simp add: assms dial_url_def tunnel_url_def relay_url_def list_all_iff del: ascii_simps)
qed

theorem relay_urls_witness:
  "\<exists>e. dial_url (ascii ''https://r/'') (ascii ''a/b'') = Inr (Some (ascii ''wss://r'' @ ascii ''/session/dial'' @ ascii ''?instance='' @ e))
    \<and> percent_decode e = Some (ascii ''a/b'')"
proof -
  have "ws_origin (ascii ''https://r/'') = Inr (ascii ''wss://r'')" by code_simp
  from relay_urls [OF this, of "ascii ''a/b''"] show ?thesis by blast
qed

text \<open>
  Refresh times. For claims whose lifetime can be multiplied by four in an \<open>i64\<close>,
  \<open>should_refresh\<close> answers true exactly when the lifetime is positive and more than four fifths
  of it, in exact rational arithmetic, has passed.
\<close>

theorem should_refresh_exact:
  assumes "I64_MIN \<le> iat" and "exp \<le> I64_MAX" and "4 * (exp - iat) \<le> I64_MAX"
  shows "should_refresh \<lparr>jc_iat = iat, jc_exp = exp\<rparr> now \<longleftrightarrow> iat < exp \<and> 4 * (exp - iat) < 5 * (now - iat)"
  using assms by (rule should_refresh_spec)

theorem should_refresh_exact_witness:
  "should_refresh \<lparr>jc_iat = 100, jc_exp = 203\<rparr> 183 \<and> \<not> should_refresh \<lparr>jc_iat = 100, jc_exp = 203\<rparr> 182"
  using should_refresh_exact [of 100 203 183] should_refresh_exact [of 100 203 182]
  by (simp add: I64_MIN_def I64_MAX_def)



text \<open>
  Journal identifiers. When the key derivation gives the sixteen bytes it is asked for,
  \<open>jid_from_public_key\<close> does not panic and its text has the shape of a version 8 UUID:
  36 characters, hyphens at 8, 13, 18 and 23, the version digit 8 and a variant digit 8, 9, a
  or b.
\<close>

theorem jid_is_uuid_v8:
  assumes "length (hkdf_sha256_16 K (to_public_key_der K pk) (Some (ascii ''solstone/journal/v1''))
            (ascii ''solstone/jid/uuidv8/v1'')) = 16"
  shows "\<exists>u. jid_from_public_key K pk = Inr u \<and> length u = 36
    \<and> u ! 8 = 45 \<and> u ! 13 = 45 \<and> u ! 18 = 45 \<and> u ! 23 = 45
    \<and> u ! 14 = hex_digit 8 \<and> u ! 19 \<in> hex_digit ` {8, 9, 10, 11}"
proof -
  define raw where "raw = hkdf_sha256_16 K (to_public_key_der K pk) (Some (ascii ''solstone/journal/v1''))
            (ascii ''solstone/jid/uuidv8/v1'')"
  define raw' where "raw' = raw[6 := (raw ! 6 AND 0x0f) OR 0x80, 8 := (raw ! 8 AND 0x3f) OR 0x80]"
  have len: "length raw = 16" using assms by (simp add: raw_def)
  have "jid_from_public_key K pk = uuid_string raw'"
    by (simp add: jid_from_public_key_def Let_def raw'_def flip: raw_def del: ascii_simps)
  moreover have "unat (raw' ! 6) div 16 = 8" "unat (raw' ! 8) div 16 \<in> {8, 9, 10, 11}"
    using len forced_nibbles by (simp_all add: raw'_def)
  moreover have "length raw' = 16" by (simp add: raw'_def len)
  ultimately show ?thesis using uuid_string_layout [of raw'] by (metis image_eqI)
qed

definition example_keys :: "(bytes, bytes) key_api" where
  "example_keys = \<lparr>
     hkdf_sha256_16 = (\<lambda>ikm salt info. map of_nat [16..<32]),
     spki_from_der = Some, spki_key_bytes = Some, public_key_try_from = Inr, to_public_key_der = id\<rparr>"

theorem jid_is_uuid_v8_witness:
  "\<exists>u. jid_from_public_key example_keys [1, 2] = Inr u \<and> length u = 36 \<and> u ! 14 = 56"
proof -
  have "length (hkdf_sha256_16 example_keys (to_public_key_der example_keys [1, 2])
      (Some (ascii ''solstone/journal/v1'')) (ascii ''solstone/jid/uuidv8/v1'')) = 16"
    by (simp add: example_keys_def)
  from jid_is_uuid_v8 [OF this] show ?thesis by (auto simp: hex_digit_def)
qed

end
