(* ===== verification/Spl_Mark.thy ===== *)
theory Spl_Mark
  imports Spl_Relay
begin

text \<open>
  The journal mark (\<open>crates/spl-core/src/mark.rs\<close>): reading a journal identifier, and the
  choice of two icons, two colours, two rotations and two words from its digest. The parsed asset
  tables and Argon2id come from other crates and are the parameter \<open>mark_api\<close>. An index or a
  remainder that would panic in the source is a \<open>Panic\<close> here.
\<close>

subsection \<open>Data\<close>

record mark_color =
  mc_name :: str
  mc_hex :: str

record mark_icon_spec =
  mi_name :: str
  mi_svg :: str
  mi_color :: mark_color
  mi_rot :: u16

record mark_render_spec =
  mr_icon1 :: mark_icon_spec
  mr_icon2 :: mark_icon_spec
  mr_words :: "str \<times> str"

record mark =
  mk_icon1 :: mark_icon_spec
  mk_icon2 :: mark_icon_spec
  mk_words :: "str \<times> str"

datatype 'e mark_error = AssetError str | Argon2Error 'e | InvalidJid str

record mark_assets =
  ma_glyphs :: "(str \<times> str) list"
  ma_colors :: "mark_color list"
  ma_words :: "str list"

text \<open>
  The three asset tables as \<open>serde_json\<close> reads them (an error is its text), and Argon2id with
  its memory, time, lane and output parameters, the password and the salt.
\<close>

record 'e mark_api =
  glyphs_json :: "str + (str \<times> str) list"
  colors_json :: "str + (str \<times> str) list"
  words_json :: "str + str list"
  argon2id :: "nat \<Rightarrow> nat \<Rightarrow> nat \<Rightarrow> nat \<Rightarrow> bytes \<Rightarrow> bytes \<Rightarrow> 'e + bytes"

definition ICON_COUNT :: nat where "ICON_COUNT = 60"
definition COLOR_COUNT :: nat where "COLOR_COUNT = 16"
definition WORD_COUNT :: nat where "WORD_COUNT = 7776"
definition MARK_ARGON2_SALT :: bytes where "MARK_ARGON2_SALT = ascii ''solstone-journal-mark-v1''"

subsection \<open>Operations\<close>

definition to_render_spec :: "mark \<Rightarrow> mark_render_spec" where
  "to_render_spec m = \<lparr>mr_icon1 = mk_icon1 m, mr_icon2 = mk_icon2 m, mr_words = mk_words m\<rparr>"

definition digest_words :: "bytes \<Rightarrow> u32 list" where
  "digest_words digest =
     map (\<lambda>index. let offset = index * 4
                 in u32_from_be_bytes (digest ! offset) (digest ! (offset + 1)) (digest ! (offset + 2)) (digest ! (offset + 3)))
       [0..<7]"

definition pick :: "u32 \<Rightarrow> nat \<Rightarrow> 'e fault + nat" where
  "pick word count = (if count = 0 then Inl (Panic ''remainder by zero'') else Inr (unat word mod count))"

definition pick_distinct :: "u32 \<Rightarrow> nat \<Rightarrow> nat \<Rightarrow> 'e fault + nat" where
  "pick_distinct word count excluded =
     (if count = 0 then Inl (Panic ''subtract with overflow'')
      else if count - 1 = 0 then Inl (Panic ''remainder by zero'')
      else let index = unat word mod (count - 1) in Inr (if index \<ge> excluded then index + 1 else index))"

definition nibble :: "u8 \<Rightarrow> 'e mark_error + u8" where
  "nibble byte =
     (if 48 \<le> byte \<and> byte \<le> 57 then Inr (byte - 48)
      else if 97 \<le> byte \<and> byte \<le> 102 then Inr (byte - 97 + 10)
      else if 65 \<le> byte \<and> byte \<le> 70 then Inr (byte - 65 + 10)
      else Inl (InvalidJid (ascii ''UUID contains a non-hexadecimal digit'')))"

definition hex_byte :: "u8 \<Rightarrow> u8 \<Rightarrow> 'e mark_error + u8" where
  "hex_byte high low =
     bind_res (nibble high) (\<lambda>h. bind_res (nibble low) (\<lambda>l. Inr (push_bit 4 h OR l)))"

text \<open>The loop of \<open>parse_jid_bytes\<close>; \<open>out\<close> holds \<open>bytes[..output]\<close>.\<close>

fun jid_loop :: "bytes \<Rightarrow> bytes \<Rightarrow> 'e mark_error fault + bytes" where
  "jid_loop [] out = Inr out"
| "jid_loop [high] out =
     (if high = 45 then Inr out
      else Inl (Err (InvalidJid (ascii ''expected an even number of hexadecimal digits''))))"
| "jid_loop (high # low # input) out =
     (if high = 45 then jid_loop (low # input) out
      else
        (case hex_byte high low of
           Inl e \<Rightarrow> Inl (Err e)
         | Inr b \<Rightarrow>
             if 16 \<le> length out then Inl (Panic ''index out of bounds'')
             else jid_loop input (out @ [b])))"

definition parse_jid_bytes :: "str \<Rightarrow> 'e mark_error fault + bytes" where
  "parse_jid_bytes jid =
     (if length jid \<noteq> 36 \<or> jid ! 8 \<noteq> 45 \<or> jid ! 13 \<noteq> 45 \<or> jid ! 18 \<noteq> 45 \<or> jid ! 23 \<noteq> 45
      then Inl (Err (InvalidJid (ascii ''expected a hyphenated 36-character UUID'')))
      else
        bind_res (jid_loop jid []) (\<lambda>bytes.
          if length bytes \<noteq> 16 then Inl (Err (InvalidJid (ascii ''expected exactly 16 UUID bytes'')))
          else Inr bytes))"

definition asset_size :: "str \<Rightarrow> str \<Rightarrow> nat \<Rightarrow> nat \<Rightarrow> 'e mark_error + unit" where
  "asset_size file noun expected found =
     (if found \<noteq> expected
      then Inl (AssetError (file @ ascii '' must contain '' @ dec_string expected @ ascii '' '' @ noun
             @ ascii ''; found '' @ dec_string found))
      else Inr ())"

definition assets_load :: "'e mark_api \<Rightarrow> 'e mark_error + mark_assets" where
  "assets_load A =
     bind_res (map_sum (\<lambda>e. AssetError (ascii ''glyphs.json: '' @ e)) id (glyphs_json A)) (\<lambda>glyphs.
     bind_res (asset_size (ascii ''glyphs.json'') (ascii ''icons'') ICON_COUNT (length glyphs)) (\<lambda>_.
     bind_res (map_sum (\<lambda>e. AssetError (ascii ''colors.json: '' @ e)) id (colors_json A)) (\<lambda>colors.
     bind_res (asset_size (ascii ''colors.json'') (ascii ''colors'') COLOR_COUNT (length colors)) (\<lambda>_.
     bind_res (map_sum (\<lambda>e. AssetError (ascii ''words.json: '' @ e)) id (words_json A)) (\<lambda>words.
     bind_res (asset_size (ascii ''words.json'') (ascii ''words'') WORD_COUNT (length words)) (\<lambda>_.
       Inr \<lparr>ma_glyphs = glyphs,
            ma_colors = map (\<lambda>(name, hex). \<lparr>mc_name = name, mc_hex = hex\<rparr>) colors,
            ma_words = words\<rparr>))))))"

text \<open>An indexed read, with the bounds check of the source.\<close>

definition index :: "'a list \<Rightarrow> nat \<Rightarrow> 'e fault + 'a" where
  "index xs i = (if i < length xs then Inr (xs ! i) else Inl (Panic ''index out of bounds''))"

definition derive_mark :: "'e mark_api \<Rightarrow> bytes \<Rightarrow> mark_assets \<Rightarrow> 'e mark_error fault + mark" where
  "derive_mark A jid assets =
     bind_res (map_sum (\<lambda>e. Err (Argon2Error e)) id (argon2id A 65536 3 1 32 jid MARK_ARGON2_SALT)) (\<lambda>digest.
     let words = digest_words digest in
     bind_res (pick (words ! 0) (length (ma_glyphs assets))) (\<lambda>icon1_index.
     bind_res (pick_distinct (words ! 1) (length (ma_glyphs assets)) icon1_index) (\<lambda>icon2_index.
     bind_res (pick (words ! 2) (length (ma_colors assets))) (\<lambda>color1_index.
     bind_res (pick_distinct (words ! 3) (length (ma_colors assets)) color1_index) (\<lambda>color2_index.
     bind_res (pick (words ! 4) (length (ma_words assets))) (\<lambda>word1_index.
     bind_res (pick_distinct (words ! 5) (length (ma_words assets)) word1_index) (\<lambda>word2_index.
     bind_res (index (ma_glyphs assets) icon1_index) (\<lambda>(icon1_name, icon1_svg).
     bind_res (index (ma_glyphs assets) icon2_index) (\<lambda>(icon2_name, icon2_svg).
     bind_res (index (ma_colors assets) color1_index) (\<lambda>color1.
     bind_res (index (ma_colors assets) color2_index) (\<lambda>color2.
     bind_res (index (ma_words assets) word1_index) (\<lambda>word1.
     bind_res (index (ma_words assets) word2_index) (\<lambda>word2.
       Inr \<lparr>mk_icon1 = \<lparr>mi_name = icon1_name, mi_svg = icon1_svg, mi_color = color1,
                          mi_rot = (if words ! 6 AND 1 = 0 then 0 else 45)\<rparr>,
            mk_icon2 = \<lparr>mi_name = icon2_name, mi_svg = icon2_svg, mi_color = color2,
                          mi_rot = (if drop_bit 1 (words ! 6) AND 1 = 0 then 0 else 45)\<rparr>,
            mk_words = (word1, word2)\<rparr>)))))))))))))"

definition mark_from_jid :: "'e mark_api \<Rightarrow> str \<Rightarrow> 'e mark_error fault + mark" where
  "mark_from_jid A jid =
     bind_res (map_sum Err id (assets_load A)) (\<lambda>assets.
     bind_res (parse_jid_bytes jid) (\<lambda>raw. derive_mark A raw assets))"

subsection \<open>Reading an identifier\<close>

text \<open>The byte functions, over natural numbers.\<close>

lemma nibble_unat:
  "nibble c = (let k = unat c in
     if 48 \<le> k \<and> k \<le> 57 then Inr (of_nat (k - 48))
     else if 97 \<le> k \<and> k \<le> 102 then Inr (of_nat (k - 87))
     else if 65 \<le> k \<and> k \<le> 70 then Inr (of_nat (k - 55))
     else Inl (InvalidJid (ascii ''UUID contains a non-hexadecimal digit'')))"
  by (simp add: nibble_def Let_def word_le_nat_alt of_nat_diff del: ascii_simps)

lemma lower_unat: "unat (ascii_lower_byte c) = (if 65 \<le> unat c \<and> unat c \<le> 90 then unat c + 32 else unat c)"
  by (auto simp: ascii_lower_byte_def word_le_nat_alt unat_plus_if')

lemma hex_digit_unat: "n < 16 \<Longrightarrow> unat (hex_digit n) = (if n < 10 then 48 + n else 87 + n)"
  by (simp add: hex_digit_def unat_of_nat)

lemma hex_digits_inj: "m < 16 \<Longrightarrow> n < 16 \<Longrightarrow> hex_digit m = hex_digit n \<longleftrightarrow> m = n"
  by (auto simp: word_unat_eq_iff hex_digit_unat split: if_splits)

lemma nibble_Inr:
  "nibble c = Inr n \<longleftrightarrow> unat n < 16 \<and> ascii_lower_byte c = hex_digit (unat n)"
proof
  assume "nibble c = Inr n"
  then have "unat n < 16 \<and> unat (ascii_lower_byte c) = (if unat n < 10 then 48 + unat n else 87 + unat n)"
    by (auto simp: nibble_unat Let_def lower_unat unat_sub word_le_nat_alt split: if_splits)
  then show "unat n < 16 \<and> ascii_lower_byte c = hex_digit (unat n)"
    by (simp add: word_unat_eq_iff hex_digit_unat)
next
  assume n: "unat n < 16 \<and> ascii_lower_byte c = hex_digit (unat n)"
  then have "(if 65 \<le> unat c \<and> unat c \<le> 90 then unat c + 32 else unat c) = (if unat n < 10 then 48 + unat n else 87 + unat n)"
    by (simp add: hex_digit_unat flip: lower_unat)
  then have "nibble c = Inr (of_nat (unat n))"
    using conjunct1 [OF n] by (auto simp: nibble_unat Let_def simp del: of_nat_diff of_nat_unat split: if_splits)
  then show "nibble c = Inr n" by simp
qed

lemma join_nibbles:
  fixes h l :: u8
  assumes "unat h < 16" and "unat l < 16"
  shows "unat (push_bit 4 h OR l) = 16 * unat h + unat l"
proof -
  have l: "take_bit 4 l = l" using assms(2) by (simp add: word_unat_eq_iff unsigned_take_bit_eq take_bit_nat_eq_self)
  have "push_bit 4 h AND l = push_bit 4 h AND take_bit 4 l" by (simp add: l)
  also have "\<dots> = 0" by (rule bit_word_eqI) (simp add: bit_simps)
  finally have "push_bit 4 h OR l = push_bit 4 h + l" by (simp add: disjunctive_add_eq_or)
  then show ?thesis using assms by (simp add: push_bit_eq_mult unat_word_ariths)
qed

lemma hex_byte_Inr:
  "hex_byte h l = (Inr b :: 'e mark_error + u8) \<longleftrightarrow>
     ascii_lower_byte h = hex_digit (unat b div 16) \<and> ascii_lower_byte l = hex_digit (unat b mod 16)"
proof
  assume "hex_byte h l = (Inr b :: 'e mark_error + u8)"
  then obtain x y where "nibble h = (Inr x :: 'e mark_error + u8)" "nibble l = (Inr y :: 'e mark_error + u8)"
    and b: "b = push_bit 4 x OR y"
    by (auto simp: hex_byte_def bind_res_Inr_iff)
  then have "unat x < 16" "ascii_lower_byte h = hex_digit (unat x)" "unat y < 16" "ascii_lower_byte l = hex_digit (unat y)"
    by (simp_all add: nibble_Inr)
  with join_nibbles [of x y] b
  show "ascii_lower_byte h = hex_digit (unat b div 16) \<and> ascii_lower_byte l = hex_digit (unat b mod 16)" by simp
next
  assume d: "ascii_lower_byte h = hex_digit (unat b div 16) \<and> ascii_lower_byte l = hex_digit (unat b mod 16)"
  let ?x = "of_nat (unat b div 16) :: u8" and ?y = "of_nat (unat b mod 16) :: u8"
  have x: "unat ?x = unat b div 16" and y: "unat ?y = unat b mod 16"
    using nibble_bounds(3) [of b] by (simp_all add: unat_of_nat)
  have "unat ?x < 16" "unat ?y < 16" using nibble_bounds(3) [of b] by (simp_all add: x y)
  then have "nibble h = (Inr ?x :: 'e mark_error + u8)" "nibble l = (Inr ?y :: 'e mark_error + u8)" "unat (push_bit 4 ?x OR ?y) = unat b"
    using d by (simp_all add: nibble_Inr x y join_nibbles)
  then show "hex_byte h l = (Inr b :: 'e mark_error + u8)" by (simp add: hex_byte_def word_unat_eq_iff)
qed

lemma hyphen_no_digit: "nibble 45 \<noteq> Inr n"
  by (simp add: nibble_def)

lemma jid_loop_hyphen:
  "jid_loop (xs @ 45 # ys) out = (Inr r :: 'e mark_error fault + bytes)
     \<longleftrightarrow> (\<exists>m. jid_loop xs out = (Inr m :: 'e mark_error fault + bytes) \<and> jid_loop ys m = (Inr r :: 'e mark_error fault + bytes))"
proof (induction xs out rule: jid_loop.induct [where 'e = 'e])
  case (1 out)
  then show ?case by (cases ys) simp_all
next
  case (2 high out)
  have "hex_byte high 45 \<noteq> (Inr b :: 'e mark_error + u8)" for b
    using hyphen_no_digit by (auto simp: hex_byte_def bind_res_Inr_iff)
  then obtain e where "hex_byte high 45 = (Inl e :: 'e mark_error + u8)" by (meson sum.exhaust)
  then show ?case by (cases ys) simp_all
next
  case (3 high low input out)
  then show ?case by (auto split: sum.split)
qed

lemma jid_loop_count:
  "jid_loop xs out = (Inr m :: 'e mark_error fault + bytes) \<Longrightarrow> \<exists>bs. m = out @ bs \<and> 2 * length bs \<le> length xs
     \<and> (2 * length bs = length xs \<longrightarrow> to_ascii_lowercase xs = hex_lower bs)"
proof (induction xs out rule: jid_loop.induct [where 'e = 'e])
  case (1 out)
  then show ?case by (simp add: to_ascii_lowercase_def hex_lower_def)
next
  case (2 high out)
  then show ?case by (simp split: if_splits)
next
  case (3 high low input out)
  show ?case
  proof (cases "high = 45")
    case True
    with 3 show ?thesis by fastforce
  next
    case False
    with "3.prems" obtain b where b: "hex_byte high low = (Inr b :: 'e mark_error + u8)"
      "jid_loop input (out @ [b]) = (Inr m :: 'e mark_error fault + bytes)" "length out < 16"
      by (auto split: sum.splits if_splits)
    have "\<not> 16 \<le> length out" using b(3) by simp
    from "3.IH"(2) [OF False b(1) this b(2)] obtain bs where "m = (out @ [b]) @ bs" "2 * length bs \<le> length input"
      "2 * length bs = length input \<longrightarrow> to_ascii_lowercase input = hex_lower bs" by blast
    with b(1) show ?thesis
      by (intro exI [of _ "b # bs"]) (simp add: hex_byte_Inr to_ascii_lowercase_def hex_lower_def)
  qed
qed

lemma jid_loop_digits:
  "to_ascii_lowercase xs = hex_lower bs \<Longrightarrow> length out + length bs \<le> 16 \<Longrightarrow> jid_loop xs out = (Inr (out @ bs) :: 'e mark_error fault + bytes)"
proof (induction bs arbitrary: xs out)
  case Nil
  then show ?case by (simp add: to_ascii_lowercase_def hex_lower_def)
next
  case (Cons b bs)
  then obtain h l ys where xs: "xs = h # l # ys" "ascii_lower_byte h = hex_digit (unat b div 16)"
    "ascii_lower_byte l = hex_digit (unat b mod 16)" "to_ascii_lowercase ys = hex_lower bs"
    by (auto simp: to_ascii_lowercase_def hex_lower_def map_eq_Cons_conv)
  then have "hex_byte h l = (Inr b :: 'e mark_error + u8)" by (simp add: hex_byte_Inr)
  moreover from this have "h \<noteq> 45" by (auto simp: hex_byte_def bind_res_Inr_iff nibble_def)
  ultimately show ?case using Cons.IH [OF xs(4), of "out @ [b]"] Cons.prems(2) xs(1) by simp
qed

text \<open>Reading cannot run off the array: at most 32 of the 36 bytes are digits.\<close>

lemma jid_loop_no_panic:
  "length (filter (\<lambda>b. b \<noteq> 45) xs) div 2 + length out \<le> 16 \<Longrightarrow> jid_loop xs out \<noteq> (Inl (Panic s) :: 'e mark_error fault + bytes)"
proof (induction xs out rule: jid_loop.induct [where 'e = 'e])
  case (3 high low input out)
  show ?case
  proof (cases "hex_byte high low :: 'e mark_error + u8")
    case (Inr b)
    have "low \<noteq> 45" using Inr hyphen_no_digit by (auto simp: hex_byte_def bind_res_Inr_iff)
    with 3 Inr show ?thesis by auto
  qed (use 3 in auto)
qed simp_all

lemma drop_slice: "i \<le> j \<Longrightarrow> drop i xs = byte_slice i j xs @ drop j xs"
  using append_take_drop_id [of "j - i" "drop i xs"] by (simp add: byte_slice_def)

lemma uuid_parts:
  assumes "length jid = 36" and "jid ! 8 = 45" and "jid ! 13 = 45" and "jid ! 18 = 45" and "jid ! 23 = 45"
  obtains a b c d e where "jid = a @ 45 # b @ 45 # c @ 45 # d @ 45 # e"
    and "length a = 8" and "length b = 4" and "length c = 4" and "length d = 4" and "length e = 12"
proof -
  have cut: "drop i jid = byte_slice i j jid @ jid ! j # drop (Suc j) jid" if "i \<le> j" "j < 36" for i j
    using that assms(1) drop_slice [of i j jid] by (simp add: Cons_nth_drop_Suc)
  have "jid = byte_slice 0 8 jid @ 45 # byte_slice 9 13 jid @ 45 # byte_slice 14 18 jid @ 45 # byte_slice 19 23 jid @ 45 # drop 24 jid"
    using cut [of 0 8] cut [of 9 13] cut [of 14 18] cut [of 19 23] assms by simp
  then show ?thesis by (rule that) (simp_all add: assms(1))
qed

lemma hex_lower_append [simp]: "hex_lower (xs @ ys) = hex_lower xs @ hex_lower ys"
  by (simp add: hex_lower_def)

lemma uuid_string_parts:
  assumes "length a = 4" and "length b = 2" and "length c = 2" and "length d = 2" and "length e = 6"
  shows "uuid_string (a @ b @ c @ d @ e) =
    Inr (hex_lower a @ 45 # hex_lower b @ 45 # hex_lower c @ 45 # hex_lower d @ 45 # hex_lower e)"
  using assms by (simp add: uuid_string_def byte_slice_def Let_def)

lemma lower_hyphen: "ascii_lower_byte c = 45 \<longleftrightarrow> c = 45"
  by (simp add: word_unat_eq_iff lower_unat)

lemma length_lowercase [simp]: "length (to_ascii_lowercase xs) = length xs"
  by (simp add: to_ascii_lowercase_def)

lemma jid_loop_sound:
  assumes "length jid = 36" and "jid ! 8 = 45" and "jid ! 13 = 45" and "jid ! 18 = 45" and "jid ! 23 = 45"
    and "jid_loop jid [] = (Inr raw :: 'e mark_error fault + bytes)" and "length raw = 16"
  shows "uuid_string raw = Inr (to_ascii_lowercase jid)"
proof -
  obtain a b c d e where jid: "jid = a @ 45 # b @ 45 # c @ 45 # d @ 45 # e"
    and len: "length a = 8" "length b = 4" "length c = 4" "length d = 4" "length e = 12"
    using uuid_parts [OF assms(1-5)] .
  from assms(6) obtain m1 m2 m3 m4 where runs: "jid_loop a [] = (Inr m1 :: 'e mark_error fault + bytes)"
    "jid_loop b m1 = (Inr m2 :: 'e mark_error fault + bytes)" "jid_loop c m2 = (Inr m3 :: 'e mark_error fault + bytes)"
    "jid_loop d m3 = (Inr m4 :: 'e mark_error fault + bytes)" "jid_loop e m4 = (Inr raw :: 'e mark_error fault + bytes)"
    unfolding jid jid_loop_hyphen by blast
  obtain A where A: "m1 = A" "2 * length A \<le> 8" "2 * length A = 8 \<longrightarrow> to_ascii_lowercase a = hex_lower A"
    using jid_loop_count [OF runs(1)] len by auto
  obtain B where B: "m2 = m1 @ B" "2 * length B \<le> 4" "2 * length B = 4 \<longrightarrow> to_ascii_lowercase b = hex_lower B"
    using jid_loop_count [OF runs(2)] len by auto
  obtain C where C: "m3 = m2 @ C" "2 * length C \<le> 4" "2 * length C = 4 \<longrightarrow> to_ascii_lowercase c = hex_lower C"
    using jid_loop_count [OF runs(3)] len by auto
  obtain D where D: "m4 = m3 @ D" "2 * length D \<le> 4" "2 * length D = 4 \<longrightarrow> to_ascii_lowercase d = hex_lower D"
    using jid_loop_count [OF runs(4)] len by auto
  obtain E where E: "raw = m4 @ E" "2 * length E \<le> 12" "2 * length E = 12 \<longrightarrow> to_ascii_lowercase e = hex_lower E"
    using jid_loop_count [OF runs(5)] len by auto
  have raw: "raw = A @ B @ C @ D @ E" using A B C D E by simp
  then have "length A + length B + length C + length D + length E = 16" using assms(7) by simp
  then have "length A = 4" "length B = 2" "length C = 2" "length D = 2" "length E = 6"
    using A(2) B(2) C(2) D(2) E(2) by linarith+
  then show ?thesis
    using A(3) B(3) C(3) D(3) E(3)
    by (simp add: raw uuid_string_parts jid to_ascii_lowercase_def ascii_lower_byte_def)
qed

lemma uuid_raw_parts:
  assumes "length raw = 16"
  obtains a b c d e where "raw = a @ b @ c @ d @ e"
    and "length a = 4" and "length b = 2" and "length c = 2" and "length d = 2" and "length e = 6"
proof (rule that)
  show "raw = take 4 raw @ byte_slice 4 6 raw @ byte_slice 6 8 raw @ byte_slice 8 10 raw @ drop 10 raw"
    using drop_slice [of 4 6 raw] drop_slice [of 6 8 raw] drop_slice [of 8 10 raw] append_take_drop_id [of 4 raw]
    by simp
qed (simp_all add: assms)

lemma jid_loop_complete:
  assumes "length raw = 16" and "uuid_string raw = Inr (to_ascii_lowercase jid)"
  shows "length jid = 36" and "jid ! 8 = 45" and "jid ! 13 = 45" and "jid ! 18 = 45" and "jid ! 23 = 45"
    and "jid_loop jid [] = (Inr raw :: 'e mark_error fault + bytes)"
proof -
  obtain A B C D E where raw: "raw = A @ B @ C @ D @ E"
    and len: "length A = 4" "length B = 2" "length C = 2" "length D = 2" "length E = 6"
    using uuid_raw_parts [OF assms(1)] .
  have low: "to_ascii_lowercase jid =
      hex_lower A @ 45 # hex_lower B @ 45 # hex_lower C @ 45 # hex_lower D @ 45 # hex_lower E" (is "_ = ?h")
    using assms(2) len by (simp add: raw uuid_string_parts)
  show length: "length jid = 36" using arg_cong [OF low, of length] len by simp
  have at: "jid ! i = 45" if "i < 36" "?h ! i = 45" for i
    using that length low lower_hyphen [of "jid ! i"] by (metis nth_map to_ascii_lowercase_def)
  show pos: "jid ! 8 = 45" "jid ! 13 = 45" "jid ! 18 = 45" "jid ! 23 = 45"
    using len by (auto intro!: at simp: nth_append)
  obtain a b c d e where jid: "jid = a @ 45 # b @ 45 # c @ 45 # d @ 45 # e"
    and l: "length a = 8" "length b = 4" "length c = 4" "length d = 4" "length e = 12"
    using uuid_parts [OF length pos] .
  have parts: "to_ascii_lowercase a = hex_lower A" "to_ascii_lowercase b = hex_lower B"
    "to_ascii_lowercase c = hex_lower C" "to_ascii_lowercase d = hex_lower D" "to_ascii_lowercase e = hex_lower E"
    using low len l unfolding jid to_ascii_lowercase_def by simp_all
  show "jid_loop jid [] = (Inr raw :: 'e mark_error fault + bytes)"
    unfolding jid jid_loop_hyphen
    using jid_loop_digits [where 'e = 'e and out = "[]", OF parts(1)] jid_loop_digits [where 'e = 'e and out = A, OF parts(2)]
      jid_loop_digits [where 'e = 'e and out = "A @ B", OF parts(3)] jid_loop_digits [where 'e = 'e and out = "A @ B @ C", OF parts(4)]
      jid_loop_digits [where 'e = 'e and out = "A @ B @ C @ D", OF parts(5)] len raw
    by simp
qed

lemma parse_jid_iff:
  "parse_jid_bytes jid = (Inr raw :: 'e mark_error fault + bytes)
     \<longleftrightarrow> length raw = 16 \<and> uuid_string raw = Inr (to_ascii_lowercase jid)"
proof
  assume "parse_jid_bytes jid = (Inr raw :: 'e mark_error fault + bytes)"
  then have "length jid = 36 \<and> jid ! 8 = 45 \<and> jid ! 13 = 45 \<and> jid ! 18 = 45 \<and> jid ! 23 = 45"
    "jid_loop jid [] = (Inr raw :: 'e mark_error fault + bytes)" "length raw = 16"
    by (auto simp: parse_jid_bytes_def bind_res_Inr_iff split: if_splits)
  then show "length raw = 16 \<and> uuid_string raw = Inr (to_ascii_lowercase jid)"
    using jid_loop_sound by blast
next
  assume "length raw = 16 \<and> uuid_string raw = Inr (to_ascii_lowercase jid)"
  with jid_loop_complete(1-5) [of raw jid] jid_loop_complete(6) [where 'e = 'e and raw = raw and jid = jid] show "parse_jid_bytes jid = (Inr raw :: 'e mark_error fault + bytes)"
    by (simp add: parse_jid_bytes_def)
qed

lemma parse_jid_no_panic: "parse_jid_bytes jid \<noteq> (Inl (Panic s) :: 'e mark_error fault + bytes)"
proof (cases "length jid = 36 \<and> jid ! 8 = 45 \<and> jid ! 13 = 45 \<and> jid ! 18 = 45 \<and> jid ! 23 = 45")
  case True
  then obtain a b c d e where jid: "jid = a @ 45 # b @ 45 # c @ 45 # d @ 45 # e"
    and len: "length a = 8" "length b = 4" "length c = 4" "length d = 4" "length e = 12"
    using uuid_parts [of jid] by blast
  have "length (filter (\<lambda>b. b \<noteq> 45) jid) \<le> 32"
    using len length_filter_le [of "\<lambda>b. b \<noteq> 45" a] length_filter_le [of "\<lambda>b. b \<noteq> 45" b]
      length_filter_le [of "\<lambda>b. b \<noteq> 45" c] length_filter_le [of "\<lambda>b. b \<noteq> 45" d] length_filter_le [of "\<lambda>b. b \<noteq> 45" e]
    by (simp add: jid)
  then have "jid_loop jid [] \<noteq> (Inl (Panic s) :: 'e mark_error fault + bytes)"
    by (intro jid_loop_no_panic) simp
  then show ?thesis by (auto simp: parse_jid_bytes_def bind_res_Inl_iff)
qed (simp add: parse_jid_bytes_def)

subsection \<open>The choice\<close>

lemma pick_pair:
  assumes "2 \<le> n"
  shows "\<exists>i j. pick w n = (Inr i :: 'e fault + nat) \<and> pick_distinct w' n i = (Inr j :: 'e fault + nat)
    \<and> i < n \<and> j < n \<and> i \<noteq> j"
proof -
  define i j where "i = unat w mod n" and "j = unat w' mod (n - 1)"
  have "i < n" "j < n - 1" using assms by (simp_all add: i_def j_def)
  then show ?thesis
    by (auto simp: pick_def pick_distinct_def Let_def simp del: One_nat_def simp flip: i_def j_def)
qed

lemma index_Inr: "i < length xs \<Longrightarrow> index xs i = Inr (xs ! i)"
  by (simp add: index_def)

lemma derive_mark_ok:
  assumes "argon2id A 65536 3 1 32 jid MARK_ARGON2_SALT = Inr digest"
    and "2 \<le> length (ma_glyphs assets)" and "2 \<le> length (ma_colors assets)" and "2 \<le> length (ma_words assets)"
  shows "\<exists>m. derive_mark A jid assets = (Inr m :: 'e mark_error fault + mark)
    \<and> (distinct (map fst (ma_glyphs assets)) \<longrightarrow> mi_name (mk_icon1 m) \<noteq> mi_name (mk_icon2 m))
    \<and> (distinct (ma_colors assets) \<longrightarrow> mi_color (mk_icon1 m) \<noteq> mi_color (mk_icon2 m))
    \<and> (distinct (ma_words assets) \<longrightarrow> fst (mk_words m) \<noteq> snd (mk_words m))
    \<and> mi_rot (mk_icon1 m) \<in> {0, 45} \<and> mi_rot (mk_icon2 m) \<in> {0, 45}"
proof -
  let ?w = "digest_words digest"
  obtain i i' where i: "pick (?w ! 0) (length (ma_glyphs assets)) = (Inr i :: 'e mark_error fault + nat)"
    "pick_distinct (?w ! 1) (length (ma_glyphs assets)) i = (Inr i' :: 'e mark_error fault + nat)"
    "i < length (ma_glyphs assets)" "i' < length (ma_glyphs assets)" "i \<noteq> i'"
    using pick_pair [OF assms(2)] by blast
  obtain j j' where j: "pick (?w ! 2) (length (ma_colors assets)) = (Inr j :: 'e mark_error fault + nat)"
    "pick_distinct (?w ! 3) (length (ma_colors assets)) j = (Inr j' :: 'e mark_error fault + nat)"
    "j < length (ma_colors assets)" "j' < length (ma_colors assets)" "j \<noteq> j'"
    using pick_pair [OF assms(3)] by blast
  obtain k k' where k: "pick (?w ! 4) (length (ma_words assets)) = (Inr k :: 'e mark_error fault + nat)"
    "pick_distinct (?w ! 5) (length (ma_words assets)) k = (Inr k' :: 'e mark_error fault + nat)"
    "k < length (ma_words assets)" "k' < length (ma_words assets)" "k \<noteq> k'"
    using pick_pair [OF assms(4)] by blast
  have "distinct (map fst (ma_glyphs assets)) \<Longrightarrow> fst (ma_glyphs assets ! i) \<noteq> fst (ma_glyphs assets ! i')"
    using i by (metis length_map nth_eq_iff_index_eq nth_map)
  moreover have "distinct (ma_colors assets) \<Longrightarrow> ma_colors assets ! j \<noteq> ma_colors assets ! j'"
    using j by (simp add: nth_eq_iff_index_eq)
  moreover have "distinct (ma_words assets) \<Longrightarrow> ma_words assets ! k \<noteq> ma_words assets ! k'"
    using k by (simp add: nth_eq_iff_index_eq)
  ultimately show ?thesis
    by (simp add: derive_mark_def assms(1) Let_def i j k index_Inr split_beta del: One_nat_def)
qed

lemma assets_load_ok:
  assumes "glyphs_json A = Inr gs" and "length gs = ICON_COUNT" and "colors_json A = Inr cs"
    and "length cs = COLOR_COUNT" and "words_json A = Inr ws" and "length ws = WORD_COUNT"
  shows "assets_load A = Inr \<lparr>ma_glyphs = gs, ma_colors = map (\<lambda>(name, hex). \<lparr>mc_name = name, mc_hex = hex\<rparr>) cs, ma_words = ws\<rparr>"
  using assms by (simp add: assets_load_def asset_size_def del: ascii_simps)

lemma assets_load_sizes:
  assumes "assets_load A = Inr assets"
  shows "length (ma_glyphs assets) = ICON_COUNT" and "length (ma_colors assets) = COLOR_COUNT"
    and "length (ma_words assets) = WORD_COUNT"
  using assms by (auto simp: assets_load_def asset_size_def bind_res_Inr_iff simp del: ascii_simps split: if_splits)

lemmas mark_counts = ICON_COUNT_def COLOR_COUNT_def WORD_COUNT_def

lemma uuid_string_lower:
  assumes "length raw = 16" and "uuid_string raw = Inr u"
  shows "to_ascii_lowercase u = u"
proof -
  have low: "ascii_lower_byte (hex_digit n) = hex_digit n" if "n < 16" for n
    using that by (simp add: word_unat_eq_iff lower_unat hex_digit_unat)
  have hex: "map ascii_lower_byte (hex_lower bs) = hex_lower bs" for bs
    using nibble_bounds(3) by (induction bs) (simp_all add: hex_lower_def low)
  obtain a b c d e where "raw = a @ b @ c @ d @ e"
    "length a = 4" "length b = 2" "length c = 2" "length d = 2" "length e = 6"
    using uuid_raw_parts [OF assms(1)] .
  with assms(2) show ?thesis
    by (auto simp: uuid_string_parts to_ascii_lowercase_def hex ascii_lower_byte_def)
qed

subsection \<open>Properties\<close>

text \<open>
  Reading journal identifiers. \<open>parse_jid_bytes\<close> never panics, whatever the text, and it
  accepts exactly the UUID texts in any case: the result is \<open>raw\<close> if and only if \<open>raw\<close> has
  sixteen bytes and the text, in lower case, is their \<open>uuid_string\<close>.
\<close>

theorem jid_text_exact:
  "parse_jid_bytes jid \<noteq> (Inl (Panic s) :: 'e mark_error fault + bytes)
   \<and> (parse_jid_bytes jid = (Inr raw :: 'e mark_error fault + bytes)
       \<longleftrightarrow> length raw = 16 \<and> uuid_string raw = Inr (to_ascii_lowercase jid))"
  using parse_jid_no_panic parse_jid_iff by blast

text \<open>
  C38. Journal marks. With asset tables of the locked sizes and distinct entries, and with key
  derivation and Argon2id delivering, every P-256 key has a journal identifier that has a mark:
  no index or remainder panics, the two glyphs differ, the two colours differ, the two words
  differ and both rotations are 0 or 45.
\<close>

theorem journal_mark:
  fixes A :: "'e mark_api"
  assumes "length (hkdf_sha256_16 K (to_public_key_der K pk) (Some (ascii ''solstone/journal/v1''))
            (ascii ''solstone/jid/uuidv8/v1'')) = 16"
    and "glyphs_json A = Inr gs" and "length gs = ICON_COUNT" and "distinct (map fst gs)"
    and "colors_json A = Inr cs" and "length cs = COLOR_COUNT" and "distinct cs"
    and "words_json A = Inr ws" and "length ws = WORD_COUNT" and "distinct ws"
    and argon: "\<And>jid. \<exists>digest. argon2id A 65536 3 1 32 jid MARK_ARGON2_SALT = Inr digest"
  shows "\<exists>u m. jid_from_public_key K pk = Inr u \<and> mark_from_jid A u = Inr m
    \<and> mi_name (mk_icon1 m) \<noteq> mi_name (mk_icon2 m) \<and> mi_color (mk_icon1 m) \<noteq> mi_color (mk_icon2 m)
    \<and> fst (mk_words m) \<noteq> snd (mk_words m) \<and> mi_rot (mk_icon1 m) \<in> {0, 45} \<and> mi_rot (mk_icon2 m) \<in> {0, 45}"
proof -
  let ?colors = "map (\<lambda>(name, hex). \<lparr>mc_name = name, mc_hex = hex\<rparr>) cs"
  obtain raw u where u: "jid_from_public_key K pk = Inr u" "uuid_string raw = Inr u" "length raw = 16"
    using assms(1) uuid_string_layout by (simp add: jid_from_public_key_def Let_def del: ascii_simps) (metis length_list_update)
  have "parse_jid_bytes u = (Inr raw :: 'e mark_error fault + bytes)"
    using u(2,3) uuid_string_lower by (simp add: parse_jid_iff)
  moreover have "assets_load A = Inr \<lparr>ma_glyphs = gs, ma_colors = ?colors, ma_words = ws\<rparr>"
    using assms by (intro assets_load_ok)
  ultimately have "mark_from_jid A u = derive_mark A raw \<lparr>ma_glyphs = gs, ma_colors = ?colors, ma_words = ws\<rparr>"
    by (simp add: mark_from_jid_def)
  moreover have "distinct ?colors"
    using assms(7) by (auto simp: distinct_map inj_on_def)
  moreover obtain digest where "argon2id A 65536 3 1 32 raw MARK_ARGON2_SALT = Inr digest" using argon by blast
  ultimately show ?thesis
    using derive_mark_ok [of A raw digest "\<lparr>ma_glyphs = gs, ma_colors = ?colors, ma_words = ws\<rparr>"] assms(3,4,6,9,10) u(1)
    by (auto simp: mark_counts)
qed

definition example_marks :: "unit mark_api" where
  "example_marks = \<lparr>
     glyphs_json = Inr (map (\<lambda>i. (dec_string i, [])) [0..<60]),
     colors_json = Inr (map (\<lambda>i. (dec_string i, [])) [0..<16]),
     words_json = Inr (map dec_string [0..<7776]),
     argon2id = (\<lambda>m t p n pw salt. Inr (replicate n 7))\<rparr>"

lemma dec_string_inj: "inj_on dec_string {0..<n}"
  by (rule inj_onI) (metis atLeastLessThan_iff less_imp_le option.inject parse_dec_string)

theorem journal_mark_witness:
  "\<exists>u m. jid_from_public_key example_keys [4] = Inr u \<and> mark_from_jid example_marks u = Inr m
    \<and> fst (mk_words m) \<noteq> snd (mk_words m)"
proof -
  have names: "distinct (map dec_string [0..<n])" for n using dec_string_inj by (simp add: distinct_map)
  have pairs: "distinct (map (\<lambda>i. (dec_string i, [] :: str)) [0..<n])" for n
    using names [of n] by (auto simp: distinct_map inj_on_def)
  have "\<exists>u m. jid_from_public_key example_keys [4] = Inr u \<and> mark_from_jid example_marks u = Inr m
    \<and> mi_name (mk_icon1 m) \<noteq> mi_name (mk_icon2 m) \<and> mi_color (mk_icon1 m) \<noteq> mi_color (mk_icon2 m)
    \<and> fst (mk_words m) \<noteq> snd (mk_words m) \<and> mi_rot (mk_icon1 m) \<in> {0, 45} \<and> mi_rot (mk_icon2 m) \<in> {0, 45}"
    by (rule journal_mark [where gs = "map (\<lambda>i. (dec_string i, [])) [0..<60]"
          and cs = "map (\<lambda>i. (dec_string i, [])) [0..<16]" and ws = "map dec_string [0..<7776]"])
      (simp_all add: example_keys_def example_marks_def mark_counts names pairs comp_def)
  then show ?thesis by blast
qed

end
