(* ===== verification/Spl_Bridge.thy ===== *)
theory Spl_Bridge
  imports Spl_Relay "HOL-Library.Multiset"
begin

text \<open>
  The pure transforms of the local journal bridge (\<open>crates/spl-core/src/bridge.rs\<close>): request
  heads and their framing, authorization of a local caller, the headers passed to the journal and
  back to the browser, redirects, and one-time bootstrap tokens.
\<close>

subsection \<open>Strings\<close>

text \<open>\<open>str::split_whitespace\<close>: the non-empty pieces between whitespace characters.\<close>

fun split_chars :: "(str \<Rightarrow> bool) \<Rightarrow> str \<Rightarrow> str list \<Rightarrow> str list" where
  "split_chars p cur [] = [cur]"
| "split_chars p cur (c # cs) = (if p c then cur # split_chars p [] cs else split_chars p (cur @ c) cs)"

definition split_whitespace :: "str \<Rightarrow> str list" where
  "split_whitespace s = filter (\<lambda>w. w \<noteq> []) (split_chars (\<lambda>c. c \<in> set ws_chars) [] (chars s))"

text \<open>\<open>find\<close> with a set of ASCII characters: the offset of the first of them.\<close>

fun find_any :: "u8 list \<Rightarrow> str \<Rightarrow> nat option" where
  "find_any set_of [] = None"
| "find_any set_of (b # s) = (if b \<in> set set_of then Some 0 else map_option Suc (find_any set_of s))"

text \<open>\<open>rsplit_once\<close> at an ASCII character: the parts around its last occurrence.\<close>

definition rsplit_once :: "u8 \<Rightarrow> str \<Rightarrow> (str \<times> str) option" where
  "rsplit_once c s =
     map_option (\<lambda>(after, before). (rev before, rev after)) (split_once [c] (rev s))"

text \<open>\<open>trim_end_matches\<close> with an ASCII character.\<close>

definition trim_end_matches :: "u8 \<Rightarrow> str \<Rightarrow> str" where
  "trim_end_matches c s = rev (dropWhile (\<lambda>b. b = c) (rev s))"

text \<open>\<open>join\<close>.\<close>

fun str_join :: "str \<Rightarrow> str list \<Rightarrow> str" where
  "str_join sep [] = []"
| "str_join sep [s] = s"
| "str_join sep (s # t # ss) = s @ sep @ str_join sep (t # ss)"

subsection \<open>Request heads\<close>

definition BOOTSTRAP_ROUTE :: str where "BOOTSTRAP_ROUTE = ascii ''/_bridge/bootstrap''"
definition MAX_REQUEST_HEAD_BYTES :: nat where "MAX_REQUEST_HEAD_BYTES = 65536"

record bridge_names =
  capability_cookie_name :: str
  upstream_cookie_prefix :: str
  observer_header_name :: str
  protocol_version_header_name :: str

definition HOP_BY_HOP :: "str list" where
  "HOP_BY_HOP = map ascii
     [''connection'', ''keep-alive'', ''proxy-authenticate'', ''proxy-authorization'', ''te'',
      ''trailer'', ''transfer-encoding'', ''upgrade'']"

record request_head =
  rh_method :: str
  rh_target :: str
  rh_headers :: "(str \<times> str) list"

record validated_request_head =
  vr_head :: request_head
  vr_content_length :: nat

datatype request_framing_error =
    HeadTooLarge | MissingTerminator | InvalidEncoding | InvalidRequestLine | InvalidHeader
  | TransferEncoding | DuplicateContentLength | InvalidContentLength | Expectation

definition head_host :: "request_head \<Rightarrow> str option" where
  "head_host h = map_option snd (find (\<lambda>(name, _). name = ascii ''host'') (rh_headers h))"

definition head_path :: "request_head \<Rightarrow> str" where
  "head_path h = (case split_once [63] (rh_target h) of Some (path, _) \<Rightarrow> path | None \<Rightarrow> rh_target h)"

definition head_query :: "request_head \<Rightarrow> str option" where
  "head_query h = map_option snd (split_once [63] (rh_target h))"

text \<open>The inner and the outer loop of \<open>cookie\<close>.\<close>

fun cookie_in :: "str \<Rightarrow> str list \<Rightarrow> str option" where
  "cookie_in name [] = None"
| "cookie_in name (part # parts) =
     (case split_once [61] (trim part) of
        None \<Rightarrow> cookie_in name parts
      | Some (cookie_name, cookie_value) \<Rightarrow>
          if cookie_name = name then Some cookie_value else cookie_in name parts)"

fun cookie_values :: "str \<Rightarrow> str list \<Rightarrow> str option" where
  "cookie_values name [] = None"
| "cookie_values name (value # values) =
     (case cookie_in name (str_split [59] value) of
        Some v \<Rightarrow> Some v
      | None \<Rightarrow> cookie_values name values)"

definition head_cookie :: "request_head \<Rightarrow> str \<Rightarrow> str option" where
  "head_cookie h name =
     cookie_values name (map snd (filter (\<lambda>(key, _). key = ascii ''cookie'') (rh_headers h)))"

fun fold_length :: "nat \<Rightarrow> str \<Rightarrow> request_framing_error + nat" where
  "fold_length acc [] = Inr acc"
| "fold_length acc (b # bs) =
     bind_res (ok_or (Option.bind (usize_checked_mul acc 10) (\<lambda>m. usize_checked_add m (unat (b - 48)))) InvalidContentLength)
       (\<lambda>n. fold_length n bs)"

definition parse_content_length :: "str \<Rightarrow> request_framing_error + nat" where
  "parse_content_length value =
     (if value = [] \<or> \<not> list_all (\<lambda>b. 48 \<le> b \<and> b \<le> 57) value then Inl InvalidContentLength
      else fold_length 0 value)"

text \<open>The header loop; its state is the four local variables.\<close>

record header_scan =
  sc_headers :: "(str \<times> str) list"
  sc_content_lengths :: "str list"
  sc_transfer_encoding :: bool
  sc_expectation :: bool

definition scan_new :: header_scan where
  "scan_new = \<lparr>sc_headers = [], sc_content_lengths = [], sc_transfer_encoding = False, sc_expectation = False\<rparr>"

definition scan_add :: "header_scan \<Rightarrow> str \<Rightarrow> str \<Rightarrow> header_scan" where
  "scan_add sc key val =
     (let sc = (if key = ascii ''content-length''
                then sc\<lparr>sc_content_lengths := sc_content_lengths sc @ [val]\<rparr>
                else if key = ascii ''transfer-encoding'' then sc\<lparr>sc_transfer_encoding := True\<rparr>
                else if key = ascii ''expect'' then sc\<lparr>sc_expectation := True\<rparr>
                else sc)
      in sc\<lparr>sc_headers := sc_headers sc @ [(key, val)]\<rparr>)"

definition scan_line :: "header_scan \<Rightarrow> str \<Rightarrow> request_framing_error + header_scan" where
  "scan_line sc line =
     bind_res (ok_or (find_subsequence line [58]) InvalidHeader) (\<lambda>colon.
       let key = to_ascii_lowercase (trim (take colon line)) in
       if key = [] then Inl InvalidHeader else Inr (scan_add sc key (trim (drop (colon + 1) line))))"

fun scan_lines :: "header_scan \<Rightarrow> str list \<Rightarrow> request_framing_error + header_scan" where
  "scan_lines sc [] = Inr sc"
| "scan_lines sc (line # lines) = bind_res (scan_line sc line) (\<lambda>sc. scan_lines sc lines)"

text \<open>\<open>parts.next().filter(|part| !part.is_empty())\<close>.\<close>

definition next_part :: "str list \<Rightarrow> request_framing_error + (str \<times> str list)" where
  "next_part parts =
     (case parts of
        part # rest \<Rightarrow> if part \<noteq> [] then Inr (part, rest) else Inl InvalidRequestLine
      | [] \<Rightarrow> Inl InvalidRequestLine)"

definition finish_head :: "str \<Rightarrow> str \<Rightarrow> header_scan \<Rightarrow> request_framing_error + validated_request_head" where
  "finish_head method target sc =
     (if sc_transfer_encoding sc then Inl TransferEncoding
      else if length (sc_content_lengths sc) > 1 then Inl DuplicateContentLength
      else
        bind_res (case sc_content_lengths sc of v # _ \<Rightarrow> parse_content_length v | [] \<Rightarrow> Inr 0) (\<lambda>content_length.
          if sc_expectation sc then Inl Expectation
          else Inr \<lparr>vr_head = \<lparr>rh_method = method, rh_target = target, rh_headers = sc_headers sc\<rparr>,
                    vr_content_length = content_length\<rparr>))"

definition parse_request_head :: "bytes \<Rightarrow> request_framing_error + validated_request_head" where
  "parse_request_head raw =
     (case find_subsequence raw (CRLF @ CRLF) of
        None \<Rightarrow> Inl (if length raw > MAX_REQUEST_HEAD_BYTES then HeadTooLarge else MissingTerminator)
      | Some split \<Rightarrow>
          if split + 4 > MAX_REQUEST_HEAD_BYTES then Inl HeadTooLarge
          else
            bind_res (ok_or (from_utf8 (take split raw)) InvalidEncoding) (\<lambda>text.
            (case str_split CRLF text of
               [] \<Rightarrow> Inl InvalidRequestLine
             | request_line # lines \<Rightarrow>
                 bind_res (next_part (split_whitespace request_line)) (\<lambda>(method, parts).
                 bind_res (next_part parts) (\<lambda>(target, _).
                 bind_res (scan_lines scan_new lines) (finish_head method target))))))"

subsection \<open>Authorization\<close>

datatype reject_reason = BadHost | BadMethod | BadCapability

definition reject_token :: "reject_reason \<Rightarrow> str" where
  "reject_token r =
     (case r of BadHost \<Rightarrow> ascii ''bad_host'' | BadMethod \<Rightarrow> ascii ''bad_method'' | BadCapability \<Rightarrow> ascii ''bad_capability'')"

definition ct_eq :: "bytes \<Rightarrow> bytes \<Rightarrow> bool" where
  "ct_eq a b =
     (if length a \<noteq> length b then False
      else fold (\<lambda>(left, right) acc. acc OR (left XOR right)) (zip a b) 0 = 0)"

definition check_loopback_host :: "request_head \<Rightarrow> u16 \<Rightarrow> reject_reason + unit" where
  "check_loopback_host h port =
     (if head_host h \<noteq> Some (ascii ''127.0.0.1:'' @ dec_string (unat port)) then Inl BadHost else Inr ())"

definition check_capability_cookie :: "request_head \<Rightarrow> bytes \<Rightarrow> bridge_names \<Rightarrow> reject_reason + unit" where
  "check_capability_cookie h expected_cap names =
     (case head_cookie h (capability_cookie_name names) of
        Some cap \<Rightarrow> if ct_eq cap expected_cap then Inr () else Inl BadCapability
      | None \<Rightarrow> Inl BadCapability)"

definition authorize :: "request_head \<Rightarrow> bytes \<Rightarrow> u16 \<Rightarrow> bridge_names \<Rightarrow> reject_reason + unit" where
  "authorize h expected_cap port names =
     bind_res (check_loopback_host h port) (\<lambda>_. check_capability_cookie h expected_cap names)"

subsection \<open>Headers\<close>

definition is_reserved_request_header :: "str \<Rightarrow> bridge_names \<Rightarrow> bool" where
  "is_reserved_request_header name names \<longleftrightarrow>
     eq_ignore_ascii_case name (ascii ''authorization'')
     \<or> eq_ignore_ascii_case name (observer_header_name names)
     \<or> eq_ignore_ascii_case name (protocol_version_header_name names)
     \<or> eq_ignore_ascii_case name (ascii ''host'')
     \<or> eq_ignore_ascii_case name (ascii ''content-length'')
     \<or> list_ex (eq_ignore_ascii_case name) HOP_BY_HOP"

text \<open>The closure of \<open>upstream_cookie_header\<close>, then the header.\<close>

definition upstream_cookie :: "bridge_names \<Rightarrow> str \<Rightarrow> str option" where
  "upstream_cookie names part =
     (case split_once [61] part of
        None \<Rightarrow> None
      | Some (name, cookie_value) \<Rightarrow>
          let name = trim name in
          if name = capability_cookie_name names then None
          else
            map_option (\<lambda>upstream_name. upstream_name @ [61] @ trim cookie_value)
              (strip_prefix (upstream_cookie_prefix names) name))"

definition upstream_cookie_header :: "str \<Rightarrow> bridge_names \<Rightarrow> str option" where
  "upstream_cookie_header value names =
     (let cookies = List.map_filter (upstream_cookie names)
            (filter (\<lambda>part. part \<noteq> []) (map trim (str_split [59] value)))
      in if cookies \<noteq> [] then Some (str_join (ascii ''; '') cookies) else None)"

definition upstream_header :: "bridge_names \<Rightarrow> str \<times> str \<Rightarrow> (str \<times> str) list" where
  "upstream_header names = (\<lambda>(name, value).
     if name = ascii ''cookie'' then
       (case upstream_cookie_header value names of Some cookie \<Rightarrow> [(name, cookie)] | None \<Rightarrow> [])
     else if is_reserved_request_header name names then []
     else [(name, value)])"

definition upstream_request_headers :: "request_head \<Rightarrow> bridge_names \<Rightarrow> (str \<times> str) list" where
  "upstream_request_headers h names = concat (map (upstream_header names) (rh_headers h))"

definition should_preserve_response_header :: "str \<Rightarrow> bool" where
  "should_preserve_response_header name \<longleftrightarrow>
     name \<in> set (map ascii
       [''content-type'', ''content-encoding'', ''cache-control'', ''etag'', ''last-modified'', ''expires'',
        ''vary'', ''accept-ranges'', ''content-range'', ''www-authenticate'', ''retry-after'',
        ''content-security-policy'', ''content-security-policy-report-only'', ''referrer-policy'',
        ''x-content-type-options'', ''x-frame-options'', ''x-xss-protection'', ''permissions-policy'',
        ''cross-origin-opener-policy'', ''cross-origin-resource-policy'', ''cross-origin-embedder-policy'',
        ''strict-transport-security''])"

text \<open>The name of a cookie attribute, and whether the attribute is kept.\<close>

definition attr_name :: "str \<Rightarrow> str" where
  "attr_name attr = trim (case split_once [61] attr of Some (name, _) \<Rightarrow> name | None \<Rightarrow> attr)"

definition keeps_attr :: "str \<Rightarrow> bool" where
  "keeps_attr attr \<longleftrightarrow>
     attr \<noteq> [] \<and> \<not> (eq_ignore_ascii_case (attr_name attr) (ascii ''domain'')
                    \<or> eq_ignore_ascii_case (attr_name attr) (ascii ''secure''))"

definition rewrite_set_cookie :: "str \<Rightarrow> bridge_names \<Rightarrow> str" where
  "rewrite_set_cookie value names =
     (case map trim (str_split [59] value) of
        [] \<Rightarrow> []
      | first # attrs \<Rightarrow>
          let first = (case split_once [61] first of
                         Some (name, cookie_value) \<Rightarrow> upstream_cookie_prefix names @ trim name @ [61] @ cookie_value
                       | None \<Rightarrow> first)
          in str_join (ascii ''; '') (first # filter keeps_attr attrs))"

subsection \<open>Redirects\<close>

definition split_http_url :: "str \<Rightarrow> (str \<times> str \<times> str) option" where
  "split_http_url location =
     (case split_once (ascii ''://'') location of
        None \<Rightarrow> None
      | Some (scheme, rest) \<Rightarrow>
          if \<not> eq_ignore_ascii_case scheme (ascii ''http'') \<and> \<not> eq_ignore_ascii_case scheme (ascii ''https'') then None
          else
            let authority_end = (case find_any [47, 63, 35] rest of Some i \<Rightarrow> i | None \<Rightarrow> length rest)
            in Some (scheme, take authority_end rest, drop authority_end rest))"

definition default_port :: "str \<Rightarrow> u16 option" where
  "default_port scheme =
     (if eq_ignore_ascii_case scheme (ascii ''http'') then Some 80
      else if eq_ignore_ascii_case scheme (ascii ''https'') then Some 443
      else None)"

definition parse_u16 :: "str \<Rightarrow> u16 option" where
  "parse_u16 s = map_option of_nat (from_str_radix 10 U16_MAX s)"

definition split_authority :: "str \<Rightarrow> str \<times> u16 option" where
  "split_authority authority =
     (let host_port = (case rsplit_once 64 authority of Some (_, after) \<Rightarrow> after | None \<Rightarrow> authority);
          plain = (case rsplit_once 58 host_port of
                     Some (host, p) \<Rightarrow>
                       if find_subsequence host [58] = None then (to_ascii_lowercase host, parse_u16 p)
                       else (to_ascii_lowercase host_port, None)
                   | None \<Rightarrow> (to_ascii_lowercase host_port, None))
      in case strip_prefix [91] host_port of
           Some after_bracket \<Rightarrow>
             (case find_subsequence after_bracket [93] of
                Some e \<Rightarrow>
                  (to_ascii_lowercase (take e after_bracket),
                   Option.bind (strip_prefix [58] (drop (e + 1) after_bracket)) parse_u16)
              | None \<Rightarrow> plain)
         | None \<Rightarrow> plain)"

definition option_or :: "'a option \<Rightarrow> 'a option \<Rightarrow> 'a option" where
  "option_or a b = (case a of Some x \<Rightarrow> Some x | None \<Rightarrow> b)"

definition authority_matches :: "str \<Rightarrow> str \<Rightarrow> str \<Rightarrow> bool" where
  "authority_matches location_scheme location_authority known =
     (let (location_host, location_port) = split_authority location_authority;
          location_effective_port = option_or location_port (default_port location_scheme);
          (known_scheme, known_authority) =
            (case split_http_url known of
               Some (scheme, authority, _) \<Rightarrow> (Some scheme, authority)
             | None \<Rightarrow> (None, known));
          (known_host, known_port) = split_authority known_authority
      in if location_host \<noteq> known_host then False
         else
           (case option_or known_port (Option.bind known_scheme default_port) of
              Some p \<Rightarrow> location_effective_port = Some p
            | None \<Rightarrow> True))"

definition rewrite_redirect :: "str \<Rightarrow> str list \<Rightarrow> str \<Rightarrow> str" where
  "rewrite_redirect location journal_hosts loopback_origin =
     (case split_http_url location of
        None \<Rightarrow> location
      | Some (scheme, authority, suffix) \<Rightarrow>
          if list_ex (authority_matches scheme authority) journal_hosts
          then trim_end_matches 47 loopback_origin @ suffix
          else location)"

definition response_header_of :: "str list \<Rightarrow> str \<Rightarrow> bridge_names \<Rightarrow> str \<times> str \<Rightarrow> (str \<times> str) list" where
  "response_header_of journal_hosts loopback_origin names = (\<lambda>(raw_name, value).
     let name = to_ascii_lowercase raw_name in
     if name = ascii ''content-length'' \<or> name \<in> set HOP_BY_HOP then []
     else if name = ascii ''set-cookie'' then [(name, rewrite_set_cookie value names)]
     else if name = ascii ''location'' then [(name, rewrite_redirect value journal_hosts loopback_origin)]
     else if should_preserve_response_header name then [(name, value)]
     else [])"

definition response_headers :: "(str \<times> str) list \<Rightarrow> str list \<Rightarrow> str \<Rightarrow> bridge_names \<Rightarrow> (str \<times> str) list" where
  "response_headers upstream journal_hosts loopback_origin names =
     concat (map (response_header_of journal_hosts loopback_origin names) upstream)"

subsection \<open>Bootstrap\<close>

definition query_value :: "str \<Rightarrow> str \<Rightarrow> str option" where
  "query_value key pair =
     (case split_once [61] pair of
        None \<Rightarrow> None
      | Some (name, value) \<Rightarrow> if name = key then Some value else None)"

fun find_map :: "('a \<Rightarrow> 'b option) \<Rightarrow> 'a list \<Rightarrow> 'b option" where
  "find_map f [] = None"
| "find_map f (x # xs) = (case f x of Some y \<Rightarrow> Some y | None \<Rightarrow> find_map f xs)"

definition bootstrap_query_value :: "str \<Rightarrow> str \<Rightarrow> str option" where
  "bootstrap_query_value target key =
     (case split_once [63] target of
        None \<Rightarrow> None
      | Some (path, query) \<Rightarrow>
          if path \<noteq> BOOTSTRAP_ROUTE then None else find_map (query_value key) (str_split [38] query))"

definition bootstrap_cap :: "str \<Rightarrow> str option" where
  "bootstrap_cap target = bootstrap_query_value target (ascii ''cap'')"

definition bootstrap_token :: "str \<Rightarrow> str option" where
  "bootstrap_token target = bootstrap_query_value target (ascii ''token'')"

definition bootstrap_cookie_attributes :: str where
  "bootstrap_cookie_attributes = ascii ''Path=/; HttpOnly; SameSite=Strict''"

text \<open>
  Pending tokens with the times at which they expire. A \<open>u128\<close> is a natural number; the addition
  in \<open>issue\<close> overflows, and so panics, only beyond its limit.
\<close>

record bootstrap_tokens =
  bt_pending :: "(str \<times> nat) list"

definition tokens_default :: bootstrap_tokens where
  "tokens_default = \<lparr>bt_pending = []\<rparr>"

definition retain_live :: "nat \<Rightarrow> (str \<times> nat) list \<Rightarrow> (str \<times> nat) list" where
  "retain_live now_millis = filter (\<lambda>(_, expires). now_millis < expires)"

definition issue :: "bootstrap_tokens \<Rightarrow> str \<Rightarrow> nat \<Rightarrow> string + bootstrap_tokens" where
  "issue b token now_millis =
     (let pending = retain_live now_millis (bt_pending b) in
      if now_millis + 30000 < 2 ^ 128
      then Inr (b\<lparr>bt_pending := pending @ [(token, now_millis + 30000)]\<rparr>)
      else Inl ''attempt to add with overflow'')"

text \<open>\<open>Iterator::position\<close> and \<open>Vec::swap_remove\<close>.\<close>

fun position_of :: "('a \<Rightarrow> bool) \<Rightarrow> 'a list \<Rightarrow> nat option" where
  "position_of p [] = None"
| "position_of p (x # xs) = (if p x then Some 0 else map_option Suc (position_of p xs))"

definition swap_remove :: "nat \<Rightarrow> 'a list \<Rightarrow> 'a list" where
  "swap_remove i xs = butlast (xs[i := last xs])"

definition token_consume :: "bootstrap_tokens \<Rightarrow> str \<Rightarrow> nat \<Rightarrow> bool \<times> bootstrap_tokens" where
  "token_consume b token now_millis =
     (let pending = retain_live now_millis (bt_pending b) in
      case position_of (\<lambda>(value, _). ct_eq value token) pending of
        None \<Rightarrow> (False, b\<lparr>bt_pending := pending\<rparr>)
      | Some index \<Rightarrow> (True, b\<lparr>bt_pending := swap_remove index pending\<rparr>))"

datatype failure_category = LocalBind | LocalCapabilityReject | UpstreamUnreachable | UpstreamCredential

definition failure_token :: "failure_category \<Rightarrow> str" where
  "failure_token c =
     (case c of
        LocalBind \<Rightarrow> ascii ''local_bind_fail''
      | LocalCapabilityReject \<Rightarrow> ascii ''local_capability_reject''
      | UpstreamUnreachable \<Rightarrow> ascii ''upstream_unreachable''
      | UpstreamCredential \<Rightarrow> ascii ''upstream_credential'')"

subsection \<open>Comparison\<close>

lemma fold_difference: "fold (\<lambda>(l, r) acc. acc OR (l XOR r)) ps (d :: u8) = 0 \<longleftrightarrow> d = 0 \<and> (\<forall>(l, r)\<in>set ps. l = r)"
proof (induction ps arbitrary: d)
  case (Cons p ps)
  have "fst p XOR snd p = 0 \<longleftrightarrow> fst p = snd p" by (auto simp: bit_eq_iff bit_simps)
  then have "d OR (fst p XOR snd p) = 0 \<longleftrightarrow> d = 0 \<and> fst p = snd p" by (simp add: or_eq_0_iff)
  with Cons show ?case by (auto simp: split_beta)
qed simp

lemma ct_eq_iff [simp]: "ct_eq a b \<longleftrightarrow> a = b"
proof
  assume "ct_eq a b"
  then show "a = b" by (auto simp: ct_eq_def fold_difference list_eq_iff_zip_eq split: if_splits)
next
  assume "a = b"
  then show "ct_eq a b" by (auto simp: ct_eq_def fold_difference in_set_zip)
qed

lemma authorize_iff:
  "authorize h cap port names = Inr () \<longleftrightarrow>
     head_host h = Some (ascii ''127.0.0.1:'' @ dec_string (unat port))
     \<and> head_cookie h (capability_cookie_name names) = Some cap"
  by (auto simp: authorize_def check_loopback_host_def check_capability_cookie_def simp del: ascii_simps
      split: option.splits if_splits)

subsection \<open>Request cookies and headers\<close>

text \<open>A name and a value as they stand in a header.\<close>

definition cookie_text :: "str \<times> str \<Rightarrow> str" where
  "cookie_text = (\<lambda>(n, v). n @ [61] @ v)"

lemma upstream_cookie_Some:
  assumes "upstream_cookie names part = Some c"
  shows "\<exists>n v. c = n @ [61] @ v \<and> upstream_cookie_prefix names @ n \<noteq> capability_cookie_name names"
proof -
  from assms obtain name cookie_value n where "split_once [61] part = Some (name, cookie_value)"
    "trim name \<noteq> capability_cookie_name names" "strip_prefix (upstream_cookie_prefix names) (trim name) = Some n"
    "c = n @ [61] @ trim cookie_value"
    by (auto simp: upstream_cookie_def Let_def split: option.splits if_splits)
  moreover from this have "trim name = upstream_cookie_prefix names @ n"
    by (auto simp: strip_prefix_def split: if_splits) (metis append_take_drop_id)
  ultimately show ?thesis by auto
qed

lemma upstream_cookie_header_Some:
  assumes "upstream_cookie_header value names = Some v"
  shows "\<exists>cs. v = str_join (ascii ''; '') (map cookie_text cs) \<and> cs \<noteq> []
    \<and> list_all (\<lambda>(n, x). upstream_cookie_prefix names @ n \<noteq> capability_cookie_name names) cs"
proof -
  define cookies where "cookies = List.map_filter (upstream_cookie names)
    (filter (\<lambda>part. part \<noteq> []) (map trim (str_split [59] value)))"
  have v: "v = str_join (ascii ''; '') cookies" "cookies \<noteq> []"
    using assms by (auto simp: upstream_cookie_header_def Let_def simp del: ascii_simps simp flip: cookies_def split: if_splits)
  have all: "\<forall>c\<in>set cookies. \<exists>part. upstream_cookie names part = Some c"
    by (auto simp: cookies_def map_filter_def)
  have "\<exists>cs. cookies = map cookie_text cs
    \<and> list_all (\<lambda>(n, x). upstream_cookie_prefix names @ n \<noteq> capability_cookie_name names) cs"
    using all
  proof (induction cookies)
    case (Cons c cookies)
    then obtain cs n x where "cookies = map cookie_text cs"
      "list_all (\<lambda>(n, x). upstream_cookie_prefix names @ n \<noteq> capability_cookie_name names) cs"
      "c = n @ [61] @ x" "upstream_cookie_prefix names @ n \<noteq> capability_cookie_name names"
      using upstream_cookie_Some [of names] by (metis list.set_intros)
    then show ?case by (intro exI [of _ "(n, x) # cs"]) (simp add: cookie_text_def)
  qed simp
  with v show ?thesis by blast
qed

lemma upstream_header_cases:
  assumes "(n, v) \<in> set (upstream_request_headers h names)"
  shows "if n = ascii ''cookie'' then
       \<exists>cs. v = str_join (ascii ''; '') (map cookie_text cs)
         \<and> list_all (\<lambda>(n, x). upstream_cookie_prefix names @ n \<noteq> capability_cookie_name names) cs
     else (n, v) \<in> set (rh_headers h) \<and> \<not> is_reserved_request_header n names"
proof -
  from assms obtain n' v' where h: "(n', v') \<in> set (rh_headers h)" "(n, v) \<in> set (upstream_header names (n', v'))"
    by (auto simp: upstream_request_headers_def)
  show ?thesis
  proof (cases "n' = ascii ''cookie''")
    case True
    with h(2) have "n = ascii ''cookie''" "upstream_cookie_header v' names = Some v"
      by (auto simp: upstream_header_def simp del: ascii_simps split: option.splits)
    then show ?thesis using upstream_cookie_header_Some [of v' names v] by auto
  next
    case False
    with h show ?thesis by (auto simp: upstream_header_def simp del: ascii_simps split: if_splits)
  qed
qed

subsection \<open>Framing\<close>

lemma lower_lower [simp]: "ascii_lower_byte (ascii_lower_byte b) = ascii_lower_byte b"
  by (auto simp: ascii_lower_byte_def word_le_nat_alt unat_plus_if')

lemma lowercase_lowercase [simp]: "to_ascii_lowercase (to_ascii_lowercase s) = to_ascii_lowercase s"
  by (simp add: to_ascii_lowercase_def)

definition scan_inv :: "header_scan \<Rightarrow> bool" where
  "scan_inv sc \<longleftrightarrow>
     (sc_transfer_encoding sc \<longleftrightarrow> ascii ''transfer-encoding'' \<in> fst ` set (sc_headers sc))
     \<and> (sc_expectation sc \<longleftrightarrow> ascii ''expect'' \<in> fst ` set (sc_headers sc))
     \<and> sc_content_lengths sc = map snd (filter (\<lambda>(k, _). k = ascii ''content-length'') (sc_headers sc))
     \<and> (\<forall>(k, _)\<in>set (sc_headers sc). k \<noteq> [] \<and> to_ascii_lowercase k = k)"

lemma scan_inv_new: "scan_inv scan_new"
  by (simp add: scan_inv_def scan_new_def)

lemma header_names_differ:
  "ascii ''content-length'' \<noteq> ascii ''transfer-encoding''" "ascii ''content-length'' \<noteq> ascii ''expect''"
  "ascii ''transfer-encoding'' \<noteq> ascii ''expect''"
  by simp_all

lemma scan_add_inv:
  assumes "scan_inv sc" and "key \<noteq> []" and "to_ascii_lowercase key = key"
  shows "scan_inv (scan_add sc key val)"
  using assms header_names_differ by (auto simp: scan_inv_def scan_add_def Let_def simp del: ascii_simps)

lemma scan_line_inv: "scan_line sc line = Inr sc' \<Longrightarrow> scan_inv sc \<Longrightarrow> scan_inv sc'"
  by (auto simp: scan_line_def bind_res_Inr_iff Let_def intro: scan_add_inv split: if_splits)

lemma scan_lines_inv: "scan_lines sc lines = Inr sc' \<Longrightarrow> scan_inv sc \<Longrightarrow> scan_inv sc'"
  by (induction lines arbitrary: sc) (auto simp: bind_res_Inr_iff scan_line_inv)

text \<open>The checked fold reads the decimal number, or fails when it does not fit.\<close>

lemma fold_length_digits:
  "list_all (\<lambda>b. 48 \<le> b \<and> b \<le> 57) value \<Longrightarrow>
     fold_length acc value = ok_or (parse_digits 10 USIZE_MAX acc value) InvalidContentLength"
proof (induction "value" arbitrary: acc)
  case (Cons b bs)
  then have b: "48 \<le> unat b" "unat b \<le> 57" by (simp_all add: word_le_nat_alt)
  then have d: "digit_value 10 b = Some (unat b - 48)" "unat (b - 48) = unat b - 48"
    by (simp_all add: digit_value_def word_le_nat_alt unat_sub Let_def)
  show ?case
  proof (cases "acc * 10 + (unat b - 48) \<le> USIZE_MAX")
    case True
    then have "Option.bind (usize_checked_mul acc 10) (\<lambda>m. usize_checked_add m (unat b - 48)) = Some (acc * 10 + (unat b - 48))"
      by (simp add: bind_eq_Some_conv USIZE_MAX_def)
    with Cons True d show ?thesis by simp
  next
    case False
    then have "Option.bind (usize_checked_mul acc 10) (\<lambda>m. usize_checked_add m (unat b - 48)) = None"
      by (auto simp: USIZE_MAX_def usize_checked_mul_def)
    with d False show ?thesis by simp
  qed
qed simp

lemma parse_request_head_Inr:
  assumes "parse_request_head raw = Inr r"
  shows "\<exists>split sc. find_subsequence raw (CRLF @ CRLF) = Some split \<and> split + 4 \<le> MAX_REQUEST_HEAD_BYTES
    \<and> scan_inv sc \<and> rh_headers (vr_head r) = sc_headers sc
    \<and> \<not> sc_transfer_encoding sc \<and> \<not> sc_expectation sc
    \<and> (case sc_content_lengths sc of
         [] \<Rightarrow> vr_content_length r = 0
       | [v] \<Rightarrow> parse_content_length v = Inr (vr_content_length r)
       | _ \<Rightarrow> False)"
proof -
  from assms obtain split where split: "find_subsequence raw (CRLF @ CRLF) = Some split" "split + 4 \<le> MAX_REQUEST_HEAD_BYTES"
    by (auto simp: parse_request_head_def split: option.splits if_splits)
  with assms obtain body request_line lines where "str_split CRLF body = request_line # lines"
    "bind_res (next_part (split_whitespace request_line)) (\<lambda>(method, parts).
       bind_res (next_part parts) (\<lambda>(target, _). bind_res (scan_lines scan_new lines) (finish_head method target))) = Inr r"
    by (auto simp: parse_request_head_def bind_res_Inr_iff neq_Nil_conv split: list.split_asm)
  then obtain sc meth tgt where sc: "scan_lines scan_new lines = Inr sc" and "finish_head meth tgt sc = Inr r"
    by (auto simp: bind_res_Inr_iff)
  then obtain n where n: "\<not> sc_transfer_encoding sc" "\<not> 1 < length (sc_content_lengths sc)"
    "(case sc_content_lengths sc of v # _ \<Rightarrow> parse_content_length v | [] \<Rightarrow> Inr 0) = Inr n" "\<not> sc_expectation sc"
    "r = \<lparr>vr_head = \<lparr>rh_method = meth, rh_target = tgt, rh_headers = sc_headers sc\<rparr>, vr_content_length = n\<rparr>"
    by (auto simp: finish_head_def bind_res_Inr_iff simp del: One_nat_def split: if_split_asm)
  have "scan_inv sc" using sc scan_inv_new by (rule scan_lines_inv)
  moreover have "case sc_content_lengths sc of [] \<Rightarrow> vr_content_length r = 0
       | [v] \<Rightarrow> parse_content_length v = Inr (vr_content_length r) | _ \<Rightarrow> False"
    using n(2,3,5) by (auto split: list.splits)
  ultimately show ?thesis using split n by auto
qed

lemma parse_content_length_Inr:
  "parse_content_length v = Inr n \<longleftrightarrow>
     v \<noteq> [] \<and> list_all (\<lambda>b. 48 \<le> b \<and> b \<le> 57) v \<and> parse_digits 10 USIZE_MAX 0 v = Some n"
  by (auto simp: parse_content_length_def fold_length_digits)

subsection \<open>One-time tokens\<close>

text \<open>
  Operations on the pending tokens in the order in which the caller serializes them, with the
  answers of the redemptions. A run that would panic is not continued.
\<close>

datatype token_op = IssueOp str nat | ConsumeOp str nat

fun token_run :: "bootstrap_tokens \<Rightarrow> token_op list \<Rightarrow> (token_op \<times> bool) list" where
  "token_run b [] = []"
| "token_run b (IssueOp t now # ops) =
     (case issue b t now of
        Inl _ \<Rightarrow> []
      | Inr b \<Rightarrow> (IssueOp t now, True) # token_run b ops)"
| "token_run b (ConsumeOp t now # ops) =
     (let (ok, b) = token_consume b t now in (ConsumeOp t now, ok) # token_run b ops)"

definition issued :: "str \<Rightarrow> (token_op \<times> bool) list \<Rightarrow> nat" where
  "issued t trace = length (filter (\<lambda>(op, ok). ok \<and> (\<exists>n. op = IssueOp t n)) trace)"

definition redeemed :: "str \<Rightarrow> (token_op \<times> bool) list \<Rightarrow> nat" where
  "redeemed t trace = length (filter (\<lambda>(op, ok). ok \<and> (\<exists>n. op = ConsumeOp t n)) trace)"

definition count_token :: "str \<Rightarrow> (str \<times> nat) list \<Rightarrow> nat" where
  "count_token t ps = length (filter (\<lambda>(x, _). x = t) ps)"

lemma position_of_Some:
  "position_of p xs = Some i \<Longrightarrow> i < length xs \<and> p (xs ! i)"
  by (induction xs arbitrary: i) (auto split: if_splits)

lemma position_of_None: "position_of p xs = None \<longleftrightarrow> (\<forall>x\<in>set xs. \<not> p x)"
  by (induction xs) auto

lemma mset_butlast: "xs \<noteq> [] \<Longrightarrow> mset (butlast xs) = mset xs - {#last xs#}"
  by (cases xs rule: rev_cases) auto

lemma mset_swap_remove:
  assumes "i < length xs"
  shows "mset (swap_remove i xs) = mset xs - {#xs ! i#}"
proof -
  have ne: "xs[i := last xs] \<noteq> []" "xs \<noteq> []" using assms by auto
  have "last (xs[i := last xs]) = last xs"
    using ne assms by (auto simp: last_list_update)
  then show ?thesis
    using assms ne by (simp add: swap_remove_def mset_butlast mset_update)
qed

lemma count_token_mset: "count_token t ps = size (filter_mset (\<lambda>(x, _). x = t) (mset ps))"
  by (simp add: count_token_def flip: mset_filter)

lemma count_retain: "count_token t (retain_live now ps) \<le> count_token t ps"
  by (induction ps) (auto simp: count_token_def retain_live_def)

lemma consume_cases:
  assumes "token_consume b t now = (ok, b')"
  shows "if ok then \<exists>e. now < e \<and> (t, e) \<in> set (bt_pending b)
             \<and> mset (bt_pending b') = mset (retain_live now (bt_pending b)) - {#(t, e)#}
           else bt_pending b' = retain_live now (bt_pending b) \<and> (\<forall>e. now < e \<longrightarrow> (t, e) \<notin> set (bt_pending b))"
proof (cases "position_of (\<lambda>(x, _). ct_eq x t) (retain_live now (bt_pending b))")
  case None
  then have "ok = False" "bt_pending b' = retain_live now (bt_pending b)"
    using assms by (auto simp: token_consume_def Let_def)
  then show ?thesis using None by (auto simp: position_of_None retain_live_def)
next
  case (Some i)
  let ?p = "retain_live now (bt_pending b)"
  obtain e where e: "i < length ?p" "?p ! i = (t, e)"
    using position_of_Some [OF Some] by (cases "?p ! i") auto
  then have "(t, e) \<in> set ?p" by (metis nth_mem)
  moreover have "ok = True" "bt_pending b' = swap_remove i ?p"
    using assms Some by (auto simp: token_consume_def Let_def)
  ultimately show ?thesis using e by (auto simp: mset_swap_remove retain_live_def)
qed

lemma retain_retain: "m \<le> now \<Longrightarrow> retain_live now (retain_live m ps) = retain_live now ps"
  by (induction ps) (auto simp: retain_live_def)

lemma count_token_simps [simp]:
  "count_token t [] = 0"
  "count_token t (ps @ qs) = count_token t ps + count_token t qs"
  "count_token t ((x, e) # ps) = (if x = t then 1 else 0) + count_token t ps"
  by (simp_all add: count_token_def)

lemma trace_count_simps [simp]:
  "issued t [] = 0" "redeemed t [] = 0"
  "issued t ((IssueOp x n, ok) # tr) = (if ok \<and> x = t then 1 else 0) + issued t tr"
  "issued t ((ConsumeOp x n, ok) # tr) = issued t tr"
  "redeemed t ((IssueOp x n, ok) # tr) = redeemed t tr"
  "redeemed t ((ConsumeOp x n, ok) # tr) = (if ok \<and> x = t then 1 else 0) + redeemed t tr"
  by (simp_all add: issued_def redeemed_def)

text \<open>A redemption takes one occurrence of its token.\<close>

lemma consume_count:
  assumes "token_consume b x m = (True, b')" and "m \<le> now"
  shows "count_token t (retain_live now (bt_pending b)) \<le> count_token t (retain_live now (bt_pending b')) + (if x = t then 1 else 0)"
    and "count_token t (bt_pending b') + (if x = t then 1 else 0) \<le> count_token t (bt_pending b)"
proof -
  let ?p = "retain_live m (bt_pending b)"
  obtain e where e: "m < e" "(x, e) \<in> set (bt_pending b)" "mset (bt_pending b') = mset ?p - {#(x, e)#}"
    using consume_cases [OF assms(1)] by auto
  then have mem: "(x, e) \<in># mset ?p" by (simp add: retain_live_def)
  with e(3) have split: "mset ?p = add_mset (x, e) (mset (bt_pending b'))" by simp
  have "count_token t (bt_pending b') + (if x = t then 1 else 0) = count_token t ?p"
    unfolding count_token_mset split by simp
  with count_retain [of t m "bt_pending b"]
  show "count_token t (bt_pending b') + (if x = t then 1 else 0) \<le> count_token t (bt_pending b)" by linarith
  have live: "mset (retain_live now q) = filter_mset (\<lambda>(_, e). now < e) (mset q)" for q
    by (simp add: retain_live_def)
  have "count_token t (retain_live now ?p) \<le> count_token t (retain_live now (bt_pending b')) + (if x = t then 1 else 0)"
    unfolding count_token_mset live split by simp
  then show "count_token t (retain_live now (bt_pending b)) \<le> count_token t (retain_live now (bt_pending b')) + (if x = t then 1 else 0)"
    using assms(2) by (simp add: retain_retain)
qed

lemma redeemed_le_issued:
  "redeemed t (token_run b ops) \<le> count_token t (bt_pending b) + issued t (token_run b ops)"
proof (induction b ops rule: token_run.induct)
  case (2 b x now ops)
  show ?case
  proof (cases "issue b x now")
    case (Inr b')
    then have "bt_pending b' = retain_live now (bt_pending b) @ [(x, now + 30000)]"
      by (auto simp: issue_def Let_def split: if_splits)
    with 2 [OF Inr] Inr count_retain [of t now "bt_pending b"] show ?thesis by auto
  qed simp
next
  case (3 b x now ops)
  obtain ok b' where c: "token_consume b x now = (ok, b')" by fastforce
  show ?case
  proof (cases ok)
    case True
    with 3 [OF c [symmetric] refl] c consume_count(2) [of b x now b' now t] show ?thesis by auto
  next
    case False
    with c have "bt_pending b' = retain_live now (bt_pending b)" using consume_cases [OF c] by simp
    with 3 [OF c [symmetric] refl] c False count_retain [of t now "bt_pending b"] show ?thesis by auto
  qed
qed simp

lemma redeemed_in_time:
  assumes "token_run b ops = pre @ (ConsumeOp t now, True) # post"
  shows "(\<exists>e. (t, e) \<in> set (bt_pending b) \<and> now < e) \<or> (\<exists>m. (IssueOp t m, True) \<in> set pre \<and> now < m + 30000)"
  using assms
proof (induction b ops arbitrary: pre rule: token_run.induct)
  case (2 b x n ops)
  then obtain b' where b': "issue b x n = Inr b'" by (cases "issue b x n") auto
  with "2.prems" obtain pre' where pre: "pre = (IssueOp x n, True) # pre'"
    "token_run b' ops = pre' @ (ConsumeOp t now, True) # post" by (cases pre) auto
  have "bt_pending b' = retain_live n (bt_pending b) @ [(x, n + 30000)]"
    using b' by (auto simp: issue_def Let_def split: if_splits)
  with "2.IH" [OF b' pre(2)] pre(1) show ?case by (auto simp: retain_live_def)
next
  case (3 b x n ops)
  obtain ok b' where c: "token_consume b x n = (ok, b')" by fastforce
  show ?case
  proof (cases pre)
    case Nil
    with "3.prems" c consume_cases [OF c] show ?thesis by auto
  next
    case (Cons y pre')
    with "3.prems" c have "token_run b' ops = pre' @ (ConsumeOp t now, True) # post" by auto
    from "3.IH" [OF c [symmetric] refl this] Cons
    have "(\<exists>e. (t, e) \<in> set (bt_pending b') \<and> now < e) \<or> (\<exists>m. (IssueOp t m, True) \<in> set pre \<and> now < m + 30000)" by auto
    moreover have "set (bt_pending b') \<subseteq> set (bt_pending b)"
    proof (cases ok)
      case True
      with consume_cases [OF c] obtain e where "mset (bt_pending b') = mset (retain_live n (bt_pending b)) - {#(x, e)#}" by auto
      then have "set_mset (mset (bt_pending b')) \<subseteq> set_mset (mset (retain_live n (bt_pending b)))"
        by (metis in_diffD subsetI)
      then show ?thesis by (auto simp: retain_live_def)
    qed (use consume_cases [OF c] in \<open>auto simp: retain_live_def\<close>)
    ultimately show ?thesis by blast
  qed
qed simp

fun op_time :: "token_op \<Rightarrow> nat" where
  "op_time (IssueOp t n) = n"
| "op_time (ConsumeOp t n) = n"

definition live_issued :: "str \<Rightarrow> nat \<Rightarrow> (token_op \<times> bool) list \<Rightarrow> nat" where
  "live_issued t now trace =
     length (filter (\<lambda>(op, ok). ok \<and> (case op of IssueOp x m \<Rightarrow> x = t \<and> now < m + 30000 | _ \<Rightarrow> False)) trace)"

lemma live_issued_simps [simp]:
  "live_issued t now [] = 0"
  "live_issued t now ((IssueOp x m, ok) # tr) = (if ok \<and> x = t \<and> now < m + 30000 then 1 else 0) + live_issued t now tr"
  "live_issued t now ((ConsumeOp x m, ok) # tr) = live_issued t now tr"
  by (simp_all add: live_issued_def)

lemma refused_all_spent:
  assumes "token_run b ops = pre @ (ConsumeOp t now, False) # post" and "list_all (\<lambda>(op, _). op_time op \<le> now) pre"
  shows "count_token t (retain_live now (bt_pending b)) + live_issued t now pre \<le> redeemed t pre"
  using assms
proof (induction b ops arbitrary: pre rule: token_run.induct)
  case (2 b x n ops)
  then obtain b' where b': "issue b x n = Inr b'" by (cases "issue b x n") auto
  with "2.prems" obtain pre' where pre: "pre = (IssueOp x n, True) # pre'"
    "token_run b' ops = pre' @ (ConsumeOp t now, False) # post" by (cases pre) auto
  have "bt_pending b' = retain_live n (bt_pending b) @ [(x, n + 30000)]"
    using b' by (auto simp: issue_def Let_def split: if_splits)
  moreover have "n \<le> now" "list_all (\<lambda>(op, _). op_time op \<le> now) pre'" using "2.prems"(2) pre(1) by auto
  moreover have "retain_live now (ps @ qs) = retain_live now ps @ retain_live now qs" for ps qs
    by (simp add: retain_live_def)
  moreover have "count_token t (retain_live now [(x, n + 30000)]) = (if x = t \<and> now < n + 30000 then 1 else 0)"
    by (simp add: retain_live_def)
  ultimately show ?case
    using "2.IH" [OF b' pre(2)] pre(1) by (simp add: retain_retain)
next
  case (3 b x n ops)
  obtain ok b' where c: "token_consume b x n = (ok, b')" by fastforce
  show ?case
  proof (cases pre)
    case Nil
    with "3.prems" c have "\<forall>e. now < e \<longrightarrow> (t, e) \<notin> set (bt_pending b)" using consume_cases [OF c] by auto
    then have "count_token t (retain_live now (bt_pending b)) = 0"
      by (auto simp: count_token_def retain_live_def filter_empty_conv)
    with Nil show ?thesis by simp
  next
    case (Cons y pre')
    with "3.prems" c have run: "token_run b' ops = pre' @ (ConsumeOp t now, False) # post"
      and y: "y = (ConsumeOp x n, ok)" "n \<le> now" "list_all (\<lambda>(op, _). op_time op \<le> now) pre'" by auto
    note IH = "3.IH" [OF c [symmetric] refl run y(3)]
    show ?thesis
    proof (cases ok)
      case True
      with IH Cons y consume_count(1) [of b x n b' now t] c show ?thesis by auto
    next
      case False
      then have "bt_pending b' = retain_live n (bt_pending b)" using consume_cases [OF c] by simp
      with IH Cons y False show ?thesis by (simp add: retain_retain)
    qed
  qed
qed simp

subsection \<open>Cookies there and back\<close>

text \<open>Bytes that a cookie name or value may hold: visible ASCII without the semicolon.\<close>

definition cookie_byte :: "u8 \<Rightarrow> bool" where
  "cookie_byte b \<longleftrightarrow> 33 \<le> b \<and> b \<le> 126 \<and> b \<noteq> 59"

lemma find_byte_None: "c \<notin> set s \<Longrightarrow> find_subsequence s [c] = None"
  by (induction s) auto

lemma find_byte: "c \<notin> set s \<Longrightarrow> find_subsequence (s @ c # rest) [c] = Some (length s)"
  by (induction s) auto

lemma split_once_byte: "c \<notin> set s \<Longrightarrow> split_once [c] (s @ c # rest) = Some (s, rest)"
  by (simp add: split_once_def find_byte)

lemma str_split_byte:
  "c \<notin> set s \<Longrightarrow> str_split [c] s = [s]"
  "c \<notin> set s \<Longrightarrow> str_split [c] (s @ c # rest) = s # str_split [c] rest"
  by (simp_all add: str_split.simps [of _ s] str_split.simps [of _ "s @ c # rest"] find_byte_None find_byte)

lemma ws_heads: "list_all (\<lambda>w. w \<noteq> [] \<and> \<not> cookie_byte (hd w) \<and> \<not> cookie_byte (last w)) ws_chars"
  by (simp add: ws_chars_def cookie_byte_def)

lemma visible_ws:
  assumes "list_all cookie_byte s" and "s \<noteq> []"
  shows "ws_prefix s = 0" and "ws_suffix s = 0"
proof -
  have ends: "cookie_byte (hd s)" "cookie_byte (hd (rev s))"
    using assms by (auto simp: list_all_iff hd_rev)
  have "take (length w) s \<noteq> w" "take (length w) (rev s) \<noteq> rev w" if "w \<in> set ws_chars" for w
  proof -
    have w: "w \<noteq> []" "\<not> cookie_byte (hd w)" "\<not> cookie_byte (hd (rev w))"
      using ws_heads that by (auto simp: list_all_iff hd_rev)
    have "hd (take (length w) s) = hd s" "hd (take (length w) (rev s)) = hd (rev s)"
      using w(1) by (auto simp: hd_take)
    with w ends show "take (length w) s \<noteq> w" "take (length w) (rev s) \<noteq> rev w" by metis+
  qed
  then show "ws_prefix s = 0" "ws_suffix s = 0"
    by (auto simp: ws_prefix_def ws_suffix_def find_None_iff split: option.splits dest: find_Some_iff [THEN iffD1])
qed

lemma trim_visible:
  assumes "list_all cookie_byte s"
  shows "trim s = s" and "trim (32 # s) = s"
proof -
  show t: "trim s = s"
    using visible_ws [OF assms] by (cases "s = []") (simp_all add: trim_def trim_start.simps trim_end.simps)
  have "ws_prefix (32 # s) = 1" by (simp add: ws_prefix_def ws_chars_def)
  then have "trim_start (32 # s) = trim_start s" by (simp add: trim_start.simps [of "32 # s"])
  with t show "trim (32 # s) = s" by (simp add: trim_def)
qed

definition cookie_ok :: "str \<times> str \<Rightarrow> bool" where
  "cookie_ok = (\<lambda>(n, v). list_all cookie_byte n \<and> list_all cookie_byte v \<and> 61 \<notin> set n)"

lemma cookie_ok_text:
  assumes "cookie_ok c"
  shows "list_all cookie_byte (cookie_text c)" and "59 \<notin> set (cookie_text c)" and "cookie_text c \<noteq> []"
    and "split_once [61] (cookie_text c) = Some c"
  using assms split_once_byte [of 61 "fst c" "snd c"]
  by (auto simp: cookie_ok_def cookie_text_def cookie_byte_def list_all_iff split_beta)

lemma join_trimmed:
  assumes "list_all cookie_ok cs" and "cs \<noteq> []"
  shows "filter (\<lambda>part. part \<noteq> []) (map trim (str_split [59] (str_join (ascii ''; '') (map cookie_text cs))))
    = map cookie_text cs"
proof -
  have pieces: "str_split [59] (pre @ str_join (ascii ''; '') (map cookie_text (c # cs))) =
      (pre @ cookie_text c) # map (\<lambda>c. 32 # cookie_text c) cs"
    if "59 \<notin> set pre" "list_all cookie_ok (c # cs)" for pre c cs
    using that
  proof (induction cs arbitrary: pre c)
    case Nil
    then show ?case using cookie_ok_text(2) [of c] by (simp add: str_split_byte)
  next
    case (Cons d cs)
    have "str_split [59] ((pre @ cookie_text c) @ 59 # ([32] @ str_join (ascii ''; '') (map cookie_text (d # cs)))) =
        (pre @ cookie_text c) # ([32] @ cookie_text d) # map (\<lambda>c. 32 # cookie_text c) cs"
      using Cons.prems Cons.IH [of "[32]" d] cookie_ok_text(2) [of c] by (subst str_split_byte) auto
    then show ?case by simp
  qed
  obtain c cs' where cs: "cs = c # cs'" using assms(2) by (cases cs) auto
  have "map trim (map (\<lambda>c. 32 # cookie_text c) cs') = map cookie_text cs'"
    using assms(1) cs cookie_ok_text(1) by (auto simp: list_all_iff trim_visible)
  moreover have "trim (cookie_text c) = cookie_text c"
    using assms(1) cs cookie_ok_text(1) by (simp add: trim_visible)
  moreover have "\<forall>s\<in>set (map cookie_text cs). s \<noteq> []"
    using assms(1) cookie_ok_text(3) by (auto simp: list_all_iff)
  ultimately show ?thesis using pieces [of "[]" c cs'] assms(1) by (simp add: cs)
qed

lemma upstream_cookie_text:
  assumes "cookie_ok (n, v)"
  shows "upstream_cookie names (cookie_text (n, v)) =
    (if n = capability_cookie_name names then None
     else map_option (\<lambda>u. cookie_text (u, v)) (strip_prefix (upstream_cookie_prefix names) n))"
  using assms cookie_ok_text(4) [OF assms]
  by (auto simp: upstream_cookie_def cookie_ok_def cookie_text_def trim_visible Let_def)

lemma strip_prefix_append [simp]: "strip_prefix p (p @ s) = Some s"
  by (simp add: strip_prefix_def)

lemma upstream_cookies_back:
  assumes "list_all cookie_ok cs" and "cs \<noteq> []" and "list_all cookie_byte (upstream_cookie_prefix names)"
    and "61 \<notin> set (upstream_cookie_prefix names)" and "cookie_ok (capability_cookie_name names, secret)"
    and "list_all (\<lambda>(n, v). upstream_cookie_prefix names @ n \<noteq> capability_cookie_name names) cs"
  shows "upstream_cookie_header (str_join (ascii ''; '')
      (map cookie_text ((capability_cookie_name names, secret) # map (\<lambda>(n, v). (upstream_cookie_prefix names @ n, v)) cs))) names
    = Some (str_join (ascii ''; '') (map cookie_text cs))"
proof -
  let ?local = "map (\<lambda>(n, v). (upstream_cookie_prefix names @ n, v)) cs"
  have ok: "list_all cookie_ok ?local" using assms(1,3,4) by (induction cs) (auto simp: cookie_ok_def)
  have "List.map_filter (upstream_cookie names) (map cookie_text ?local) = map cookie_text cs"
    using ok assms(6)
    by (induction cs) (auto simp: upstream_cookie_text map_filter_simps)
  moreover have "upstream_cookie names (cookie_text (capability_cookie_name names, secret)) = None"
    using assms(5) by (simp add: upstream_cookie_text)
  ultimately show ?thesis
    using join_trimmed [of "(capability_cookie_name names, secret) # ?local"] ok assms(2,5)
    by (simp add: upstream_cookie_header_def Let_def map_filter_simps del: ascii_simps)
qed

lemma set_cookie_rewritten:
  assumes "cookie_ok (n, v)" and "list_all (\<lambda>a. 59 \<notin> set a) attrs"
  shows "rewrite_set_cookie (cookie_text (n, v) @ concat (map (Cons 59) attrs)) names =
    str_join (ascii ''; '') (cookie_text (upstream_cookie_prefix names @ n, v) # filter keeps_attr (map trim attrs))"
proof -
  have split: "str_split [59] (s @ concat (map (Cons 59) attrs)) = s # attrs" if "59 \<notin> set s" for s
    using that assms(2)
  proof (induction attrs arbitrary: s)
    case (Cons a attrs)
    then show ?case by (simp add: str_split_byte)
  qed (simp add: str_split_byte)
  have "trim (cookie_text (n, v)) = cookie_text (n, v)" "trim n = n"
    using assms(1) cookie_ok_text(1) by (auto simp: trim_visible cookie_ok_def)
  then show ?thesis
    using split [OF cookie_ok_text(2) [OF assms(1)]] cookie_ok_text(4) [OF assms(1)]
    by (simp add: rewrite_set_cookie_def Let_def cookie_text_def del: ascii_simps)
qed

subsection \<open>Properties\<close>


text \<open>
  C36. Bootstrap tokens. In every sequence of issues and redemptions a token is redeemed at most
  as often as it was issued. A redemption that succeeds follows an issue of that token, less than
  thirty seconds old. A redemption that is refused, at a time that no earlier operation is later
  than, finds every issue of its token that is less than thirty seconds old already redeemed.
\<close>

theorem bootstrap_single_use:
  "redeemed t (token_run tokens_default ops) \<le> issued t (token_run tokens_default ops)
   \<and> (token_run tokens_default ops = pre @ (ConsumeOp t now, True) # post
        \<longrightarrow> (\<exists>m. (IssueOp t m, True) \<in> set pre \<and> now < m + 30000))
   \<and> (token_run tokens_default ops = pre @ (ConsumeOp t now, False) # post
        \<longrightarrow> list_all (\<lambda>(op, _). op_time op \<le> now) pre \<longrightarrow> live_issued t now pre \<le> redeemed t pre)"
  using redeemed_le_issued [of t tokens_default ops] redeemed_in_time [of tokens_default ops pre t now post]
    refused_all_spent [of tokens_default ops pre t now post]
  by (simp add: tokens_default_def retain_live_def)

theorem bootstrap_single_use_witness:
  "live_issued [7] 200 [(IssueOp [7] 100, True), (ConsumeOp [7] 150, True)]
     \<le> redeemed [7] [(IssueOp [7] 100, True), (ConsumeOp [7] 150, True)]
   \<and> token_run tokens_default [IssueOp [7] 100, ConsumeOp [7] 150, ConsumeOp [7] 200]
     = [(IssueOp [7] 100, True), (ConsumeOp [7] 150, True), (ConsumeOp [7] 200, False)]"
proof -
  have run: "token_run tokens_default [IssueOp [7] 100, ConsumeOp [7] 150, ConsumeOp [7] 200]
     = [(IssueOp [7] 100, True), (ConsumeOp [7] 150, True)] @ (ConsumeOp [7] 200, False) # []"
    by (simp add: tokens_default_def issue_def token_consume_def retain_live_def swap_remove_def Let_def)
  from bootstrap_single_use [of "[7]" "[IssueOp [7] 100, ConsumeOp [7] 150, ConsumeOp [7] 200]"
      "[(IssueOp [7] 100, True), (ConsumeOp [7] 150, True)]" 200 "[]"] run
  show ?thesis by simp
qed

text \<open>
  C37. Cookies there and back. A \<open>Set-Cookie\<close> of the journal reaches the browser under the
  prefixed name, without its \<open>Domain\<close> and \<open>Secure\<close> attributes. When the browser then sends the
  local capability and all cookies it was given, the journal receives exactly the cookies it had
  set, in order, and not the capability.
\<close>

theorem cookie_round_trip:
  assumes "list_all cookie_ok cs" and "cs \<noteq> []" and "list_all cookie_byte (upstream_cookie_prefix names)"
    and "61 \<notin> set (upstream_cookie_prefix names)" and "cookie_ok (capability_cookie_name names, secret)"
    and "list_all (\<lambda>(n, v). upstream_cookie_prefix names @ n \<noteq> capability_cookie_name names) cs"
    and "(n, v) \<in> set cs" and "list_all (\<lambda>a. 59 \<notin> set a) attrs"
  shows "rewrite_set_cookie (cookie_text (n, v) @ concat (map (Cons 59) attrs)) names =
      str_join (ascii ''; '') (cookie_text (upstream_cookie_prefix names @ n, v) # filter keeps_attr (map trim attrs))
    \<and> upstream_cookie_header (str_join (ascii ''; '')
        (map cookie_text ((capability_cookie_name names, secret) # map (\<lambda>(n, v). (upstream_cookie_prefix names @ n, v)) cs))) names
      = Some (str_join (ascii ''; '') (map cookie_text cs))"
  using set_cookie_rewritten [OF _ assms(8), of n v names] upstream_cookies_back [OF assms(1-6)] assms(1,7)
  by (auto simp: list_all_iff simp del: ascii_simps)

definition example_names :: bridge_names where
  "example_names = \<lparr>capability_cookie_name = ascii ''cap'', upstream_cookie_prefix = ascii ''j_'',
     observer_header_name = ascii ''x-observer'', protocol_version_header_name = ascii ''x-version''\<rparr>"

theorem cookie_round_trip_witness:
  "upstream_cookie_header (str_join (ascii ''; '') (map cookie_text
      [(ascii ''cap'', ascii ''s''), (ascii ''j_a'', ascii ''1'')])) example_names = Some (ascii ''a=1'')"
proof -
  have "list_all cookie_ok [(ascii ''a'', ascii ''1'')]" "cookie_ok (ascii ''cap'', ascii ''s'')"
    "list_all cookie_byte (ascii ''j_'')"
    by (simp_all add: cookie_ok_def cookie_byte_def)
  then show ?thesis
    using cookie_round_trip [of "[(ascii ''a'', ascii ''1'')]" example_names "ascii ''s''" "ascii ''a''" "ascii ''1''" "[]"]
    by (simp add: example_names_def cookie_text_def)
qed

definition example_request :: bytes where
  "example_request = ascii ''GET / H'' @ CRLF @ ascii ''Cookie: cap=s'' @ CRLF @ CRLF"

lemma example_request_head:
  "parse_request_head example_request =
     Inr \<lparr>vr_head = \<lparr>rh_method = ascii ''GET'', rh_target = ascii ''/'', rh_headers = [(ascii ''cookie'', ascii ''cap=s'')]\<rparr>,
          vr_content_length = 0\<rparr>"
proof -
  have find: "find_subsequence example_request (CRLF @ CRLF) = Some 22"
    by (simp add: example_request_def CRLF_def)
  have body: "take 22 example_request = ascii ''GET / H'' @ CRLF @ ascii ''Cookie: cap=s''"
    by (simp add: example_request_def CRLF_def)
  have utf8: "from_utf8 (ascii ''GET / H'' @ CRLF @ ascii ''Cookie: cap=s'') = Some (ascii ''GET / H'' @ CRLF @ ascii ''Cookie: cap=s'')"
    by (simp add: from_utf8_def utf8_valid_ascii CRLF_def)
  have split: "str_split CRLF (ascii ''GET / H'' @ CRLF @ ascii ''Cookie: cap=s'') = [ascii ''GET / H'', ascii ''Cookie: cap=s'']"
    by (simp add: str_split.simps CRLF_def)
  have words: "split_whitespace (ascii ''GET / H'') = [ascii ''GET'', ascii ''/'', ascii ''H'']"
    by (simp add: split_whitespace_def chars_ascii ws_chars_def)
  have trims: "trim (ascii ''Cookie'') = ascii ''Cookie''" "trim (ascii '' cap=s'') = ascii ''cap=s''"
    using trim_visible [of "ascii ''Cookie''"] trim_visible(2) [of "ascii ''cap=s''"] by (simp_all add: cookie_byte_def)
  have "scan_lines scan_new [ascii ''Cookie: cap=s''] = Inr (scan_new\<lparr>sc_headers := [(ascii ''cookie'', ascii ''cap=s'')]\<rparr>)"
    using trims
    by (simp add: scan_line_def scan_add_def scan_new_def Let_def to_ascii_lowercase_def ascii_lower_byte_def)
  moreover have "ascii ''GET'' \<noteq> []" "ascii ''/'' \<noteq> []" by simp_all
  ultimately show ?thesis
    using find body utf8 split words
    by (simp add: parse_request_head_def MAX_REQUEST_HEAD_BYTES_def next_part_def finish_head_def scan_new_def del: ascii_simps)
qed


end
