(* ===== verification/Spl_Stream_Table.thy ===== *)
theory Spl_Stream_Table
  imports Spl_Prelude "HOL-Library.AList"
begin

text \<open>
  Tables of live streams. The sources keep them in a \<open>HashMap<u32, _>\<close> and use it through
  lookup, insertion, removal and the number of entries. The interface below says what its
  users rely on; an association list with distinct keys provides it.
\<close>

type_synonym 'v table = "(u32 \<times> 'v) list"

definition table_get :: "'v table \<Rightarrow> u32 \<Rightarrow> 'v option" where
  "table_get t k = map_of t k"

definition table_put :: "'v table \<Rightarrow> u32 \<Rightarrow> 'v \<Rightarrow> 'v table" where
  "table_put t k v = AList.update k v t"

definition table_del :: "'v table \<Rightarrow> u32 \<Rightarrow> 'v table" where
  "table_del t k = AList.delete k t"

definition table_ok :: "'v table \<Rightarrow> bool" where
  "table_ok t \<longleftrightarrow> distinct (map fst t)"

locale stream_table =
  fixes empty :: "'t"
    and get :: "'t \<Rightarrow> u32 \<Rightarrow> 'v option"
    and put :: "'t \<Rightarrow> u32 \<Rightarrow> 'v \<Rightarrow> 't"
    and del :: "'t \<Rightarrow> u32 \<Rightarrow> 't"
    and count :: "'t \<Rightarrow> nat"
    and valid :: "'t \<Rightarrow> bool"
  assumes get_empty: "get empty k = None"
    and get_put: "get (put t k v) = (get t)(k \<mapsto> v)"
    and get_del: "get (del t k) = (get t)(k := None)"
    and count_empty: "count empty = 0"
    and count_put: "valid t \<Longrightarrow> count (put t k v) = (if get t k = None then count t + 1 else count t)"
    and count_del: "valid t \<Longrightarrow> count (del t k) = (if get t k = None then count t else count t - 1)"
    and valid_empty: "valid empty"
    and valid_put: "valid t \<Longrightarrow> valid (put t k v)"
    and valid_del: "valid t \<Longrightarrow> valid (del t k)"
begin

text \<open>The laws as the clients use them.\<close>

lemma get_put_same: "get (put t k v) k = Some v"
  by (simp add: get_put)

lemma get_put_other: "j \<noteq> k \<Longrightarrow> get (put t k v) j = get t j"
  by (simp add: get_put)

lemma count_put_known: "valid t \<Longrightarrow> get t k = Some w \<Longrightarrow> count (put t k v) = count t"
  by (simp add: count_put)

lemma count_del_le: "valid t \<Longrightarrow> count (del t k) \<le> count t"
  by (simp add: count_del)

text \<open>
  A property of all entries survives an update with an entry that has it, and a removal.
\<close>

lemma all_put:
  "(\<And>j w. get t j = Some w \<Longrightarrow> P j w) \<Longrightarrow> P k v \<Longrightarrow> get (put t k v) j = Some w \<Longrightarrow> P j w"
  by (auto simp: get_put split: if_splits)

lemma all_del: "(\<And>j w. get t j = Some w \<Longrightarrow> P j w) \<Longrightarrow> get (del t k) j = Some w \<Longrightarrow> P j w"
  by (auto simp: get_del split: if_splits)

end

lemma length_alist_update:
  "length (AList.update k v t) = (if map_of t k = None then length t + 1 else length t)"
  by (induction t) auto

lemma length_alist_delete:
  "distinct (map fst t) \<Longrightarrow> length (AList.delete k t) = (if map_of t k = None then length t else length t - 1)"
proof (induction t)
  case (Cons p t)
  show ?case
  proof (cases "fst p = k")
    case True
    with Cons.prems have "map_of t k = None" by (auto simp: map_of_eq_None_iff)
    with True Cons show ?thesis by (cases p) (simp add: AList.delete_eq)
  next
    case False
    with Cons show ?thesis
      by (cases p) (cases t, auto simp: AList.delete_eq split: if_splits)
  qed
qed (simp add: AList.delete_eq)

interpretation st: stream_table "[]" table_get table_put table_del length table_ok
proof unfold_locales
  fix t :: "'a table" and k v
  show "table_get (table_put t k v) = (table_get t)(k \<mapsto> v)"
    by (rule ext) (simp add: table_get_def table_put_def update_conv')
  show "table_get (table_del t k) = (table_get t)(k := None)"
    by (rule ext) (simp add: table_get_def table_del_def delete_conv')
  show "table_ok t \<Longrightarrow> length (table_del t k) = (if table_get t k = None then length t else length t - 1)"
    by (simp add: table_ok_def table_get_def table_del_def length_alist_delete)
qed (simp_all add: table_ok_def table_get_def table_put_def table_del_def length_alist_update
    distinct_update distinct_delete)

lemma table_put_put [simp]: "table_put (table_put t k v) k w = table_put t k w"
  unfolding table_put_def by (induction t) auto

lemma table_del_put [simp]: "table_del (table_put t k v) k = table_del t k"
  unfolding table_del_def table_put_def by (induction t) (auto simp: AList.delete_eq)

declare st.get_empty [simp] st.get_put [simp] st.get_del [simp] st.valid_empty [simp]
  st.valid_put [simp] st.valid_del [simp]

end
