(* ===== verification/Spl_Mux_Acceptor.thy ===== *)
theory Spl_Mux_Acceptor
  imports Spl_Recv_Window Spl_Stream_Table
begin

text \<open>
  The listener side of the mux, \<open>crates/spl-home/src/mux.rs\<close> with the errors of
  \<open>error.rs\<close> and the limits of \<open>config.rs\<close>: a \<open>MuxAcceptor\<close> takes the carrier's bytes one by
  one, keeps the undecoded ones bounded, and turns frames into stream events, RESET and
  WINDOW frames and refusals. Functions that take \<open>&mut self\<close> and \<open>&mut output\<close> return both.
\<close>

subsection \<open>Errors, limits and reset reasons\<close>

datatype config_error = ZeroConcurrentStreamCap | DecoderBelowMaximumFrame

datatype pair_window_refusal = WrongRelayKey | Consumed | Expired

datatype refusal_class = ClassProtocol | ClassStreamLimit | ClassFlowControl | ClassInternal

record refusal =
  rf_class :: refusal_class
  rf_violation :: "frame_violation option"

datatype home_error =
    Tls
  | TlsConfig
  | PairWindowCaIdentity
  | PairWindowRefused pair_window_refusal
  | Config config_error
  | HomeFrame frame_error
  | Refused refusal
  | PeerGoneError
  | StreamIdExhausted
  | Closed

record mux_limits =
  max_concurrent_streams :: nat
  decoder_buffer_bytes :: nat

definition DEFAULT_MAX_CONCURRENT_STREAMS :: nat where "DEFAULT_MAX_CONCURRENT_STREAMS = 256"

definition DEFAULT_DECODER_BUFFER_BYTES :: nat where "DEFAULT_DECODER_BUFFER_BYTES = 16777223"

definition limits_default :: mux_limits where
  "limits_default = \<lparr>max_concurrent_streams = DEFAULT_MAX_CONCURRENT_STREAMS,
     decoder_buffer_bytes = DEFAULT_DECODER_BUFFER_BYTES\<rparr>"

definition limits_validate :: "mux_limits \<Rightarrow> config_error + unit" where
  "limits_validate l =
     (if max_concurrent_streams l = 0 then Inl ZeroConcurrentStreamCap
      else if decoder_buffer_bytes l < HEADER_LEN + MAX_PAYLOAD then Inl DecoderBelowMaximumFrame
      else Inr ())"

lemma limits_default_valid: "limits_validate limits_default = Inr ()"
  by (simp add: limits_validate_def limits_default_def DEFAULT_MAX_CONCURRENT_STREAMS_def
      DEFAULT_DECODER_BUFFER_BYTES_def HEADER_LEN_def MAX_PAYLOAD_def)

datatype home_reset_reason =
    ProtocolError | FlowControlError | StreamLimitExceeded | InternalError | Cancel | Unspecified

fun reset_reason_code :: "home_reset_reason \<Rightarrow> u8" where
  "reset_reason_code ProtocolError = RESET_PROTOCOL_ERROR"
| "reset_reason_code FlowControlError = RESET_FLOW_CONTROL_ERROR"
| "reset_reason_code StreamLimitExceeded = RESET_STREAM_LIMIT_EXCEEDED"
| "reset_reason_code InternalError = RESET_INTERNAL_ERROR"
| "reset_reason_code Cancel = RESET_CANCEL"
| "reset_reason_code Unspecified = RESET_UNSPECIFIED"

definition from_wire :: "u8 \<Rightarrow> home_reset_reason" where
  "from_wire code =
     (if code = RESET_PROTOCOL_ERROR then ProtocolError
      else if code = RESET_FLOW_CONTROL_ERROR then FlowControlError
      else if code = RESET_STREAM_LIMIT_EXCEEDED then StreamLimitExceeded
      else if code = RESET_INTERNAL_ERROR then InternalError
      else if code = RESET_CANCEL then Cancel
      else Unspecified)"

fun from_class :: "refusal_class \<Rightarrow> home_reset_reason" where
  "from_class ClassProtocol = ProtocolError"
| "from_class ClassStreamLimit = StreamLimitExceeded"
| "from_class ClassFlowControl = FlowControlError"
| "from_class ClassInternal = InternalError"

definition class_reset_code :: "refusal_class \<Rightarrow> u8" where
  "class_reset_code c = reset_reason_code (from_class c)"

subsection \<open>Why a carrier ended\<close>

datatype carrier_close =
    CarrierOpen | PeerEof bool | PeerReadFailed | AcceptorRefused | WriteFailed | OwnerGone | LocalClose

fun close_code :: "carrier_close \<Rightarrow> u8" where
  "close_code CarrierOpen = 0"
| "close_code (PeerEof truncated) = (if truncated then 2 else 1)"
| "close_code PeerReadFailed = 3"
| "close_code AcceptorRefused = 4"
| "close_code WriteFailed = 5"
| "close_code OwnerGone = 6"
| "close_code LocalClose = 7"

definition close_from_code :: "u8 \<Rightarrow> carrier_close" where
  "close_from_code code =
     (if code = 1 then PeerEof False
      else if code = 2 then PeerEof True
      else if code = 3 then PeerReadFailed
      else if code = 4 then AcceptorRefused
      else if code = 5 then WriteFailed
      else if code = 6 then OwnerGone
      else if code = 7 then LocalClose
      else CarrierOpen)"

fun is_abnormal :: "carrier_close \<Rightarrow> bool" where
  "is_abnormal (PeerEof truncated) \<longleftrightarrow> truncated"
| "is_abnormal PeerReadFailed \<longleftrightarrow> True"
| "is_abnormal AcceptorRefused \<longleftrightarrow> True"
| "is_abnormal WriteFailed \<longleftrightarrow> True"
| "is_abnormal c \<longleftrightarrow> False"

definition carrier_gaps :: "nat \<Rightarrow> nat \<Rightarrow> nat \<Rightarrow> nat \<Rightarrow> nat option \<times> nat option" where
  "carrier_gaps pings_answered now_elapsed_ms last_answer_elapsed_ms longest_completed_gap_ms =
     (if pings_answered = 0 then (None, None)
      else
        let current = now_elapsed_ms - last_answer_elapsed_ms
        in (Some current, Some (max longest_completed_gap_ms current)))"

subsection \<open>Refusal counters\<close>

record refusal_counts =
  rc_stream_limit :: nat
  rc_flow_control :: nat
  rc_protocol :: nat
  rc_internal :: nat

definition refusal_counts_default :: refusal_counts where
  "refusal_counts_default = \<lparr>rc_stream_limit = 0, rc_flow_control = 0, rc_protocol = 0, rc_internal = 0\<rparr>"

definition U64_MAX :: nat where "U64_MAX = 2 ^ 64 - 1"

definition saturating_inc :: "nat \<Rightarrow> nat" where
  "saturating_inc n = min (n + 1) U64_MAX"

fun record_refusal :: "refusal_counts \<Rightarrow> refusal_class \<Rightarrow> refusal_counts" where
  "record_refusal c ClassStreamLimit = c\<lparr>rc_stream_limit := saturating_inc (rc_stream_limit c)\<rparr>"
| "record_refusal c ClassFlowControl = c\<lparr>rc_flow_control := saturating_inc (rc_flow_control c)\<rparr>"
| "record_refusal c ClassProtocol = c\<lparr>rc_protocol := saturating_inc (rc_protocol c)\<rparr>"
| "record_refusal c ClassInternal = c\<lparr>rc_internal := saturating_inc (rc_internal c)\<rparr>"

definition refusal_counts_is_empty :: "refusal_counts \<Rightarrow> bool" where
  "refusal_counts_is_empty c \<longleftrightarrow> c = refusal_counts_default"

subsection \<open>Events, output and state\<close>

datatype mux_event =
    Opened u32
  | Data u32 bytes
  | ReadClosed u32
  | Reset u32 home_reset_reason
  | PeerGone bool

record mux_output =
  mo_frames :: "frame list"
  mo_events :: "mux_event list"
  mo_refusals :: "refusal list"
  mo_writable_streams :: "u32 list"

definition mux_output_default :: mux_output where
  "mux_output_default = \<lparr>mo_frames = [], mo_events = [], mo_refusals = [], mo_writable_streams = []\<rparr>"

record stream_state =
  ss_receive_window :: recv_window
  ss_debited_not_consumed :: nat
  ss_send_credit :: nat
  ss_peer_closed :: bool
  ss_local_closed :: bool

record mux_acceptor =
  ac_limits :: mux_limits
  ac_decoder :: frame_decoder
  ac_decoder_buffered_bytes :: nat
  ac_header_buffer :: bytes
  ac_payload_remaining :: "nat option"
  ac_discarded_payload_remaining :: "nat option"
  ac_peer_high_water :: "u32 option"
  ac_streams :: "stream_state table"
  ac_refusals :: refusal_counts

definition MAX_SEND_CREDIT :: nat where "MAX_SEND_CREDIT = 2 ^ 31 - 1"

definition acceptor_new :: "mux_limits \<Rightarrow> home_error + mux_acceptor" where
  "acceptor_new limits =
     bind_res (map_sum Config id (limits_validate limits)) (\<lambda>_. Inr
       \<lparr>ac_limits = limits, ac_decoder = decoder_new, ac_decoder_buffered_bytes = 0,
        ac_header_buffer = [], ac_payload_remaining = None, ac_discarded_payload_remaining = None,
        ac_peer_high_water = None, ac_streams = [], ac_refusals = refusal_counts_default\<rparr>)"

definition put_frame :: "mux_output \<Rightarrow> frame \<Rightarrow> mux_output" where
  "put_frame out f = out\<lparr>mo_frames := mo_frames out @ [f]\<rparr>"

definition put_event :: "mux_output \<Rightarrow> mux_event \<Rightarrow> mux_output" where
  "put_event out e = out\<lparr>mo_events := mo_events out @ [e]\<rparr>"

definition ac_get :: "mux_acceptor \<Rightarrow> u32 \<Rightarrow> stream_state option" where
  "ac_get a sid = table_get (ac_streams a) sid"

definition ac_put :: "mux_acceptor \<Rightarrow> u32 \<Rightarrow> stream_state \<Rightarrow> mux_acceptor" where
  "ac_put a sid s = a\<lparr>ac_streams := table_put (ac_streams a) sid s\<rparr>"

definition ac_remove_stream :: "mux_acceptor \<Rightarrow> u32 \<Rightarrow> mux_acceptor" where
  "ac_remove_stream a sid = a\<lparr>ac_streams := table_del (ac_streams a) sid\<rparr>"

definition frame_violation_home :: "frame \<Rightarrow> frame_violation" where
  "frame_violation_home f =
     \<lparr>fv_stream_id = stream_id f, fv_flags = flags f, fv_length = length (payload f)\<rparr>"

subsection \<open>Frame handlers\<close>

type_synonym 'a handler = "mux_acceptor \<Rightarrow> mux_output \<Rightarrow> 'a"

definition refuse_violation ::
  "frame_violation \<Rightarrow> refusal_class \<Rightarrow> (mux_acceptor \<times> mux_output) handler" where
  "refuse_violation v class a out =
     (let a1 = a\<lparr>ac_refusals := record_refusal (ac_refusals a) class\<rparr>;
          sid = fv_stream_id v;
          out1 = put_frame out (reset_frame sid (class_reset_code class));
          out2 = out1\<lparr>mo_refusals := mo_refusals out1 @ [\<lparr>rf_class = class, rf_violation = Some v\<rparr>]\<rparr>
      in if ac_get a1 sid \<noteq> None
         then (ac_remove_stream a1 sid, put_event out2 (Reset sid (from_class class)))
         else (a1, out2))"

definition refuse :: "frame \<Rightarrow> refusal_class \<Rightarrow> (mux_acceptor \<times> mux_output) handler" where
  "refuse f class a out = refuse_violation (frame_violation_home f) class a out"

definition mark_peer_closed :: "u32 \<Rightarrow> (mux_acceptor \<times> mux_output) handler" where
  "mark_peer_closed sid a out =
     (case ac_get a sid of
        None \<Rightarrow> (a, out)
      | Some s \<Rightarrow>
          (let a1 = ac_put a sid (s\<lparr>ss_peer_closed := True\<rparr>);
               out1 = put_event out (ReadClosed sid)
           in if ss_local_closed s then (ac_remove_stream a1 sid, out1) else (a1, out1)))"

definition handle_open :: "frame \<Rightarrow> (mux_acceptor \<times> mux_output) handler" where
  "handle_open f a out =
     (let sid = stream_id f;
          valid_id = (unat sid mod 2 = 1
            \<and> (case ac_peer_high_water a of None \<Rightarrow> True | Some highest \<Rightarrow> sid > highest))
      in if \<not> valid_id then refuse f ClassProtocol a out
         else
           let a1 = a\<lparr>ac_peer_high_water := Some sid\<rparr> in
           if length (ac_streams a1) \<ge> max_concurrent_streams (ac_limits a1)
           then refuse f ClassStreamLimit a1 out
           else if length (payload f) > INITIAL_WINDOW then refuse f ClassFlowControl a1 out
           else
             (case debit recv_new (length (payload f)) of
                (Inl _, _) \<Rightarrow> refuse f ClassFlowControl a1 out
              | (Inr _, w) \<Rightarrow>
                  let s = \<lparr>ss_receive_window = w, ss_debited_not_consumed = length (payload f),
                           ss_send_credit = INITIAL_WINDOW, ss_peer_closed = False,
                           ss_local_closed = False\<rparr>;
                      a2 = ac_put a1 sid s;
                      out1 = put_event out (Opened sid);
                      out2 = (if payload f \<noteq> [] \<or> flags f AND FLAG_DATA \<noteq> 0
                              then put_event out1 (Data sid (payload f)) else out1)
                  in if flags f AND FLAG_CLOSE \<noteq> 0 then mark_peer_closed sid a2 out2 else (a2, out2)))"

definition handle_data :: "frame \<Rightarrow> bool \<Rightarrow> (mux_acceptor \<times> mux_output) handler" where
  "handle_data f closes_stream a out =
     (let sid = stream_id f in
      case ac_get a sid of
        None \<Rightarrow> refuse f ClassFlowControl a out
      | Some s \<Rightarrow>
          if ss_peer_closed s then refuse f ClassProtocol a out
          else
            (case debit (ss_receive_window s) (length (payload f)) of
               (Inl _, _) \<Rightarrow> refuse f ClassFlowControl a out
             | (Inr _, w) \<Rightarrow>
                 let s1 = s\<lparr>ss_receive_window := w\<rparr>; a1 = ac_put a sid s1 in
                 (case usize_checked_add (ss_debited_not_consumed s1) (length (payload f)) of
                    None \<Rightarrow> refuse f ClassInternal a1 out
                  | Some next_debited \<Rightarrow>
                      let a2 = ac_put a1 sid (s1\<lparr>ss_debited_not_consumed := next_debited\<rparr>);
                          out1 = put_event out (Data sid (payload f))
                      in if closes_stream then mark_peer_closed sid a2 out1 else (a2, out1))))"

definition handle_close :: "frame \<Rightarrow> (mux_acceptor \<times> mux_output) handler" where
  "handle_close f a out =
     (if payload f \<noteq> [] then handle_data f True a out else mark_peer_closed (stream_id f) a out)"

definition handle_reset :: "frame \<Rightarrow> (mux_acceptor \<times> mux_output) handler" where
  "handle_reset f a out =
     (case payload f of
        [code] \<Rightarrow>
          (ac_remove_stream a (stream_id f), put_event out (Reset (stream_id f) (from_wire code)))
      | _ \<Rightarrow> refuse f ClassProtocol a out)"

definition handle_window :: "frame \<Rightarrow> (mux_acceptor \<times> mux_output) handler" where
  "handle_window f a out =
     (case window_credit f of
        None \<Rightarrow> refuse f ClassProtocol a out
      | Some credit \<Rightarrow>
          (case ac_get a (stream_id f) of
             None \<Rightarrow> refuse f ClassFlowControl a out
           | Some s \<Rightarrow>
               (case usize_checked_add (ss_send_credit s) (unat credit) of
                  None \<Rightarrow> refuse f ClassFlowControl a out
                | Some next \<Rightarrow>
                    (if next > MAX_SEND_CREDIT then refuse f ClassFlowControl a out
                     else (ac_put a (stream_id f) (s\<lparr>ss_send_credit := next\<rparr>),
                           out\<lparr>mo_writable_streams := mo_writable_streams out @ [stream_id f]\<rparr>)))))"

definition handle_control :: "frame \<Rightarrow> mux_output \<Rightarrow> home_error + mux_output" where
  "handle_control f out =
     (case (if flags f = FLAG_PING \<and> length (payload f) = CONTROL_NONCE_LEN
            then control_pong f else None) of
        Some pong \<Rightarrow> Inr (put_frame out pong)
      | None \<Rightarrow>
          if flags f = FLAG_PONG \<and> length (payload f) = CONTROL_NONCE_LEN then Inr out
          else Inl (Refused \<lparr>rf_class = ClassProtocol, rf_violation = Some (frame_violation_home f)\<rparr>))"

definition handle_frame :: "frame \<Rightarrow> ((home_error + unit) \<times> mux_acceptor \<times> mux_output) handler" where
  "handle_frame f a out =
     (if stream_id f = 0 then
        (case handle_control f out of Inl e \<Rightarrow> (Inl e, a, out) | Inr out1 \<Rightarrow> (Inr (), a, out1))
      else
        (Inr (),
         (if \<not> flags_valid (flags f) then refuse f ClassProtocol a out
          else if flags f AND (FLAG_PING OR FLAG_PONG) \<noteq> 0 then refuse f ClassProtocol a out
          else if flags f AND FLAG_OPEN \<noteq> 0 then handle_open f a out
          else
            let known = ac_get a (stream_id f) \<noteq> None in
            if \<not> known \<and> flags f AND (FLAG_CLOSE OR FLAG_RESET) \<noteq> 0 then (a, out)
            else if \<not> known then refuse f ClassProtocol a out
            else if flags f = FLAG_DATA OR FLAG_CLOSE then handle_data f True a out
            else if flags f = FLAG_DATA then handle_data f False a out
            else if flags f = FLAG_CLOSE then handle_close f a out
            else if flags f = FLAG_RESET then handle_reset f a out
            else if flags f = FLAG_WINDOW then handle_window f a out
            else refuse f ClassProtocol a out)))"

subsection \<open>Carrier input\<close>

definition internal_refusal :: home_error where
  "internal_refusal = Refused \<lparr>rf_class = ClassInternal, rf_violation = None\<rparr>"

text \<open>\<open>drain_decoder\<close>: frames are handled until the decoder has no complete one left.\<close>

lemma handle_frame_decoder:
  assumes "handle_frame f a out = (r, a', out')"
  shows "ac_decoder a' = ac_decoder a"
proof -
  have refuse: "ac_decoder (fst (refuse f c b o')) = ac_decoder b" for c b o'
    by (simp add: refuse_def refuse_violation_def Let_def ac_remove_stream_def)
  have mark: "ac_decoder (fst (mark_peer_closed x b o')) = ac_decoder b" for x b o'
    by (simp add: mark_peer_closed_def Let_def ac_put_def ac_remove_stream_def split: option.split)
  have data: "ac_decoder (fst (handle_data f c b o')) = ac_decoder b" for c b o'
    by (simp add: handle_data_def Let_def refuse mark ac_put_def split: option.split prod.split sum.split)
  have "ac_decoder (fst (handle_open f a out)) = ac_decoder a"
    by (simp add: handle_open_def Let_def refuse mark ac_put_def split: option.split prod.split sum.split)
  moreover have "ac_decoder (fst (handle_close f a out)) = ac_decoder a"
    by (simp add: handle_close_def data mark)
  moreover have "ac_decoder (fst (handle_reset f a out)) = ac_decoder a"
    by (simp add: handle_reset_def refuse ac_remove_stream_def split: list.split)
  moreover have "ac_decoder (fst (handle_window f a out)) = ac_decoder a"
    by (simp add: handle_window_def refuse ac_put_def split: option.split)
  ultimately have "ac_decoder (fst (snd (handle_frame f a out))) = ac_decoder a"
    by (simp add: handle_frame_def Let_def refuse data split: sum.split)
  with assms show ?thesis by simp
qed

function drain_decoder :: "((home_error + unit) \<times> mux_acceptor \<times> mux_output) handler" where
  "drain_decoder a out =
     (case next_frame (ac_decoder a) of
        (Inl e, d) \<Rightarrow> (Inl (HomeFrame e), a\<lparr>ac_decoder := d\<rparr>, out)
      | (Inr None, d) \<Rightarrow> (Inr (), a\<lparr>ac_decoder := d\<rparr>, out)
      | (Inr (Some f), d) \<Rightarrow>
          (case usize_checked_sub (ac_decoder_buffered_bytes a) (HEADER_LEN + length (payload f)) of
             None \<Rightarrow> (Inl internal_refusal, a\<lparr>ac_decoder := d\<rparr>, out)
           | Some n \<Rightarrow>
               (case handle_frame f (a\<lparr>ac_decoder := d, ac_decoder_buffered_bytes := n\<rparr>) out of
                  (Inl e, a', out') \<Rightarrow> (Inl e, a', out')
                | (Inr _, a', out') \<Rightarrow> drain_decoder a' out')))"
  by pat_completeness auto
termination
  by (relation "measure (\<lambda>(a, out). length (buf (ac_decoder a)))")
    (auto dest!: next_frame_decreases [OF sym] handle_frame_decoder [OF sym])

declare drain_decoder.simps [simp del]

definition feed_byte :: "u8 \<Rightarrow> ((home_error + unit) \<times> mux_acceptor \<times> mux_output) handler" where
  "feed_byte byte a out =
     (case ac_discarded_payload_remaining a of
        Some remaining \<Rightarrow>
          (Inr (), a\<lparr>ac_discarded_payload_remaining :=
                       (if remaining > 1 then Some (remaining - 1) else None)\<rparr>, out)
      | None \<Rightarrow>
          if ac_decoder_buffered_bytes a \<ge> decoder_buffer_bytes (ac_limits a)
          then (Inl (Refused \<lparr>rf_class = ClassFlowControl, rf_violation = None\<rparr>), a, out)
          else
            (case usize_checked_add (ac_decoder_buffered_bytes a) 1 of
               None \<Rightarrow> (Inl internal_refusal, a, out)
             | Some n \<Rightarrow>
                 let a1 = a\<lparr>ac_decoder_buffered_bytes := n\<rparr> in
                 (case ac_payload_remaining a1 of
                    None \<Rightarrow>
                      let h = ac_header_buffer a1 @ [byte]; a2 = a1\<lparr>ac_header_buffer := h\<rparr> in
                      if length h \<noteq> HEADER_LEN then (Inr (), a2, out)
                      else
                        let sid = u32_from_be_bytes (h ! 0) (h ! 1) (h ! 2) (h ! 3);
                            fl = h ! 4;
                            payload_length = u24_value (h ! 5) (h ! 6) (h ! 7);
                            remaining = (if payload_length > 0 then Some payload_length else None)
                        in if fl AND FLAG_RESERVED_MASK \<noteq> 0 then
                             let v = \<lparr>fv_stream_id = sid, fv_flags = fl, fv_length = payload_length\<rparr>;
                                 a3 = a2\<lparr>ac_header_buffer := []\<rparr>
                             in (case usize_checked_sub (ac_decoder_buffered_bytes a3) HEADER_LEN of
                                   None \<Rightarrow> (Inl internal_refusal, a3, out)
                                 | Some k \<Rightarrow>
                                     let a4 = a3\<lparr>ac_decoder_buffered_bytes := k,
                                                 ac_discarded_payload_remaining := remaining\<rparr>
                                     in if sid = 0
                                        then (Inl (Refused \<lparr>rf_class = ClassProtocol, rf_violation = Some v\<rparr>), a4, out)
                                        else (Inr (), refuse_violation v ClassProtocol a4 out))
                           else
                             drain_decoder
                               (a2\<lparr>ac_decoder := decoder_feed (ac_decoder a2) h, ac_header_buffer := [],
                                   ac_payload_remaining := remaining\<rparr>) out
                  | Some remaining \<Rightarrow>
                      drain_decoder
                        (a1\<lparr>ac_decoder := decoder_feed (ac_decoder a1) [byte],
                            ac_payload_remaining := (if remaining > 1 then Some (remaining - 1) else None)\<rparr>)
                        out)))"

fun feed_bytes :: "bytes \<Rightarrow> ((home_error + unit) \<times> mux_acceptor \<times> mux_output) handler" where
  "feed_bytes [] a out = (Inr (), a, out)"
| "feed_bytes (byte # bytes) a out =
     (case feed_byte byte a out of
        (Inl e, a', out') \<Rightarrow> (Inl e, a', out')
      | (Inr _, a', out') \<Rightarrow> feed_bytes bytes a' out')"

definition acceptor_feed :: "mux_acceptor \<Rightarrow> bytes \<Rightarrow> (home_error + mux_output) \<times> mux_acceptor" where
  "acceptor_feed a bs =
     (case feed_bytes bs a mux_output_default of
        (Inl e, a', out) \<Rightarrow> (Inl e, a')
      | (Inr _, a', out) \<Rightarrow> (Inr out, a'))"

subsection \<open>Local operations\<close>

definition acceptor_consume ::
  "mux_acceptor \<Rightarrow> u32 \<Rightarrow> nat \<Rightarrow> (home_error fault + mux_output) \<times> mux_acceptor" where
  "acceptor_consume a sid n =
     (case ac_get a sid of
        None \<Rightarrow> (Inl (Err Closed), a)
      | Some s \<Rightarrow>
          if n > ss_debited_not_consumed s then (Inl (Err internal_refusal), a)
          else
            (case consume (ss_receive_window s) n of
               Inl p \<Rightarrow> (Inl (Panic p), a)
             | Inr (g, w) \<Rightarrow>
                 let s1 = s\<lparr>ss_receive_window := w\<rparr> in
                 (case usize_checked_sub (ss_debited_not_consumed s1) n of
                    None \<Rightarrow> (Inl (Err internal_refusal), ac_put a sid s1)
                  | Some k \<Rightarrow>
                      (Inr (case g of
                              None \<Rightarrow> mux_output_default
                            | Some credit \<Rightarrow> put_frame mux_output_default (window_frame sid credit)),
                       ac_put a sid (s1\<lparr>ss_debited_not_consumed := k\<rparr>)))))"

definition try_send_data ::
  "mux_acceptor \<Rightarrow> u32 \<Rightarrow> bytes \<Rightarrow> (home_error + mux_output option) \<times> mux_acceptor" where
  "try_send_data a sid bs =
     (if length bs > RECOMMENDED_CHUNK then (Inl internal_refusal, a)
      else
        (case ac_get a sid of
           None \<Rightarrow> (Inl Closed, a)
         | Some s \<Rightarrow>
             if ss_local_closed s then (Inl Closed, a)
             else if length bs > ss_send_credit s then (Inr None, a)
             else
               (case usize_checked_sub (ss_send_credit s) (length bs) of
                  None \<Rightarrow> (Inl internal_refusal, a)
                | Some k \<Rightarrow>
                    (Inr (Some (put_frame mux_output_default (frame_new sid FLAG_DATA bs))),
                     ac_put a sid (s\<lparr>ss_send_credit := k\<rparr>)))))"

definition close_write :: "mux_acceptor \<Rightarrow> u32 \<Rightarrow> (home_error + mux_output) \<times> mux_acceptor" where
  "close_write a sid =
     (case ac_get a sid of
        None \<Rightarrow> (Inl Closed, a)
      | Some s \<Rightarrow>
          if ss_local_closed s then (Inl Closed, a)
          else
            let a1 = ac_put a sid (s\<lparr>ss_local_closed := True\<rparr>);
                out = put_frame mux_output_default (frame_new sid FLAG_CLOSE [])
            in (Inr out, if ss_peer_closed s then ac_remove_stream a1 sid else a1))"

definition acceptor_reset ::
  "mux_acceptor \<Rightarrow> u32 \<Rightarrow> home_reset_reason \<Rightarrow> (home_error + mux_output) \<times> mux_acceptor" where
  "acceptor_reset a sid reason =
     (if ac_get a sid = None then (Inl Closed, a)
      else (Inr (put_frame mux_output_default (reset_frame sid (reset_reason_code reason))),
            ac_remove_stream a sid))"

definition acceptor_finish_eof :: "mux_acceptor \<Rightarrow> mux_output \<times> mux_acceptor" where
  "acceptor_finish_eof a =
     (put_event mux_output_default (PeerGone (ac_decoder_buffered_bytes a \<noteq> 0)),
      a\<lparr>ac_streams := []\<rparr>)"

end
