(* ===== verification/Spl_Acceptor_Inv.thy ===== *)
theory Spl_Acceptor_Inv
  imports Spl_Mux_Acceptor
begin

text \<open>
  The invariant of the listener's mux acceptor, its preservation by every handler, and the
  synchronisation of the byte-wise input with the frame decoder.
\<close>

subsection \<open>Streams\<close>

lemma ac_get_simps [simp]:
  "ac_get (ac_put a k s) = (ac_get a)(k \<mapsto> s)"
  "ac_get (ac_remove_stream a k) = (ac_get a)(k := None)"
  "ac_get (a\<lparr>ac_refusals := r\<rparr>) = ac_get a"
  "ac_get (a\<lparr>ac_peer_high_water := h\<rparr>) = ac_get a"
  by (simp_all add: ac_get_def ac_put_def ac_remove_stream_def fun_eq_iff)

definition stream_state_ok :: "stream_state \<Rightarrow> bool" where
  "stream_state_ok s \<longleftrightarrow>
     recv_ok (ss_receive_window s) \<and> outstanding (ss_receive_window s) = ss_debited_not_consumed s
     \<and> ss_send_credit s \<le> MAX_SEND_CREDIT \<and> \<not> (ss_peer_closed s \<and> ss_local_closed s)"

definition high_water :: "mux_acceptor \<Rightarrow> nat" where
  "high_water a = (case ac_peer_high_water a of None \<Rightarrow> 0 | Some h \<Rightarrow> unat h)"

definition acceptor_ok :: "mux_acceptor \<Rightarrow> bool" where
  "acceptor_ok a \<longleftrightarrow>
     limits_validate (ac_limits a) = Inr () \<and> table_ok (ac_streams a)
     \<and> length (ac_streams a) \<le> max_concurrent_streams (ac_limits a)
     \<and> (\<forall>sid s. ac_get a sid = Some s \<longrightarrow>
          stream_state_ok s \<and> odd (unat sid) \<and> unat sid \<le> high_water a)"

lemma acceptor_okD:
  "acceptor_ok a \<Longrightarrow> ac_get a sid = Some s \<Longrightarrow> stream_state_ok s \<and> odd (unat sid) \<and> unat sid \<le> high_water a"
  by (simp add: acceptor_ok_def)

lemma acceptor_okI:
  assumes "limits_validate (ac_limits a) = Inr ()" and "table_ok (ac_streams a)"
    and "length (ac_streams a) \<le> max_concurrent_streams (ac_limits a)"
    and "\<And>sid s. ac_get a sid = Some s \<Longrightarrow> stream_state_ok s \<and> odd (unat sid) \<and> unat sid \<le> high_water a"
  shows "acceptor_ok a"
  using assms by (simp add: acceptor_ok_def)

lemma high_water_simps [simp]:
  "high_water (ac_put a k s) = high_water a"
  "high_water (ac_remove_stream a k) = high_water a"
  "high_water (a\<lparr>ac_refusals := r\<rparr>) = high_water a"
  "high_water (a\<lparr>ac_peer_high_water := Some h\<rparr>) = unat h"
  by (simp_all add: high_water_def ac_put_def ac_remove_stream_def)

lemma ac_remove_put [simp]: "ac_remove_stream (ac_put a k s) k = ac_remove_stream a k"
  by (simp add: ac_remove_stream_def ac_put_def)

lemma ac_put_put [simp]: "ac_put (ac_put a k s) k s' = ac_put a k s'"
  by (simp add: ac_put_def)

lemma acceptor_ok_remove [inv_intros]:
  assumes "acceptor_ok a"
  shows "acceptor_ok (ac_remove_stream a sid)"
proof (rule acceptor_okI)
  have "length (table_del (ac_streams a) sid) \<le> length (ac_streams a)"
    using assms st.count_del_le [of "ac_streams a" sid] by (simp add: acceptor_ok_def)
  with assms show "length (ac_streams (ac_remove_stream a sid)) \<le> max_concurrent_streams (ac_limits (ac_remove_stream a sid))"
    by (simp add: acceptor_ok_def ac_remove_stream_def)
  show "stream_state_ok s \<and> odd (unat k) \<and> unat k \<le> high_water (ac_remove_stream a sid)"
    if "ac_get (ac_remove_stream a sid) k = Some s" for k s
    using that acceptor_okD [OF assms, of k s] by (simp split: if_splits)
qed (use assms in \<open>simp_all add: acceptor_ok_def ac_remove_stream_def\<close>)

lemma acceptor_ok_update [inv_intros]:
  assumes "acceptor_ok a" and "ac_get a sid = Some s" and "stream_state_ok s'"
  shows "acceptor_ok (ac_put a sid s')"
proof (rule acceptor_okI)
  have "length (table_put (ac_streams a) sid s') = length (ac_streams a)"
    using assms by (simp add: acceptor_ok_def ac_get_def st.count_put_known)
  with assms(1) show "length (ac_streams (ac_put a sid s')) \<le> max_concurrent_streams (ac_limits (ac_put a sid s'))"
    by (simp add: acceptor_ok_def ac_put_def)
  show "stream_state_ok t \<and> odd (unat k) \<and> unat k \<le> high_water (ac_put a sid s')"
    if "ac_get (ac_put a sid s') k = Some t" for k t
    using that acceptor_okD [OF assms(1), of k t] acceptor_okD [OF assms(1,2)] assms(3)
    by (simp split: if_splits)
qed (use assms in \<open>simp_all add: acceptor_ok_def ac_put_def\<close>)

lemma acceptor_ok_refusals [simp]: "acceptor_ok (a\<lparr>ac_refusals := r\<rparr>) = acceptor_ok a"
  by (simp add: acceptor_ok_def high_water_def)

text \<open>The part of the state that belongs to the carrier's input.\<close>

definition same_input :: "mux_acceptor \<Rightarrow> mux_acceptor \<Rightarrow> bool" where
  "same_input a b \<longleftrightarrow>
     ac_limits a = ac_limits b \<and> ac_decoder a = ac_decoder b
     \<and> ac_decoder_buffered_bytes a = ac_decoder_buffered_bytes b
     \<and> ac_header_buffer a = ac_header_buffer b \<and> ac_payload_remaining a = ac_payload_remaining b
     \<and> ac_discarded_payload_remaining a = ac_discarded_payload_remaining b"

lemma same_input_refl [simp]: "same_input a a"
  by (simp add: same_input_def)

lemma same_input_simps [simp]:
  "same_input (ac_put a k s) b = same_input a b"
  "same_input (ac_remove_stream a k) b = same_input a b"
  "same_input (a\<lparr>ac_refusals := r\<rparr>) b = same_input a b"
  "same_input (a\<lparr>ac_peer_high_water := h\<rparr>) b = same_input a b"
  "same_input b (ac_put a k s) = same_input b a"
  "same_input b (a\<lparr>ac_peer_high_water := h\<rparr>) = same_input b a"
  by (simp_all add: same_input_def ac_put_def ac_remove_stream_def)

subsection \<open>Outputs\<close>

fun opened :: "mux_event list \<Rightarrow> nat list" where
  "opened [] = []"
| "opened (Opened sid # es) = unat sid # opened es"
| "opened (_ # es) = opened es"

lemma opened_append [simp]: "opened (es @ es') = opened es @ opened es'"
  by (induction es rule: opened.induct) simp_all

text \<open>The RESET frame that a refusal is answered with.\<close>

definition refusal_reset :: "refusal \<Rightarrow> frame" where
  "refusal_reset r =
     (case rf_violation r of
        None \<Rightarrow> reset_frame 0 (class_reset_code (rf_class r))
      | Some v \<Rightarrow> reset_frame (fv_stream_id v) (class_reset_code (rf_class r)))"

definition resets :: "mux_output \<Rightarrow> frame list" where
  "resets out = filter (\<lambda>f. flags f = FLAG_RESET) (mo_frames out)"

lemma put_simps [simp]:
  "mo_events (put_frame out f) = mo_events out" "mo_refusals (put_frame out f) = mo_refusals out"
  "mo_events (put_event out e) = mo_events out @ [e]" "mo_refusals (put_event out e) = mo_refusals out"
  "mo_frames (put_frame out f) = mo_frames out @ [f]" "mo_frames (put_event out e) = mo_frames out"
  "resets (put_event out e) = resets out"
  "resets (put_frame out f) = resets out @ (if flags f = FLAG_RESET then [f] else [])"
  by (simp_all add: put_frame_def put_event_def resets_def)

lemma flags_reset_frame [simp]: "flags (reset_frame sid r) = FLAG_RESET"
  by (simp add: reset_frame_def)

text \<open>
  Along the handling of frames: identifiers are opened in strictly increasing order above
  the mark \<open>h\<close> where the handling began, and refusals and RESET frames correspond.
\<close>

definition run_ok :: "nat \<Rightarrow> mux_acceptor \<Rightarrow> mux_output \<Rightarrow> bool" where
  "run_ok h a out \<longleftrightarrow>
     acceptor_ok a \<and> h \<le> high_water a
     \<and> sorted_wrt (<) (opened (mo_events out))
     \<and> (\<forall>i\<in>set (opened (mo_events out)). odd i \<and> h < i \<and> i \<le> high_water a)
     \<and> resets out = map refusal_reset (mo_refusals out)"

lemma run_okI:
  assumes "run_ok h a out" and "acceptor_ok a'" and "high_water a' = high_water a"
    and "opened (mo_events out') = opened (mo_events out)"
    and "resets out' = resets out" and "mo_refusals out' = mo_refusals out"
  shows "run_ok h a' out'"
  using assms by (simp add: run_ok_def)

lemma refuse_violation_ok [inv_intros]:
  assumes "run_ok h a out" and "refuse_violation v c a out = (a', out')"
  shows "run_ok h a' out' \<and> same_input a' a"
proof -
  let ?sid = "fv_stream_id v"
  have out': "mo_refusals out' = mo_refusals out @ [\<lparr>rf_class = c, rf_violation = Some v\<rparr>]"
    "resets out' = resets out @ [reset_frame ?sid (class_reset_code c)]"
    "opened (mo_events out') = opened (mo_events out)"
    and a': "a' = (if ac_get a ?sid \<noteq> None then ac_remove_stream (a\<lparr>ac_refusals := record_refusal (ac_refusals a) c\<rparr>) ?sid
      else a\<lparr>ac_refusals := record_refusal (ac_refusals a) c\<rparr>)"
    using assms(2)
    by (auto simp: refuse_violation_def Let_def resets_def put_frame_def put_event_def split: if_splits)
  have "acceptor_ok a'" "high_water a' = high_water a" "same_input a' a"
    using assms(1) by (simp_all add: a' run_ok_def acceptor_ok_remove)
  with assms(1) out' show ?thesis by (simp add: run_ok_def refusal_reset_def)
qed

lemma refuse_ok [inv_intros]:
  "run_ok h a out \<Longrightarrow> refuse f c a out = (a', out') \<Longrightarrow> run_ok h a' out' \<and> same_input a' a"
  by (simp add: refuse_def refuse_violation_ok)

lemma mark_peer_closed_ok [inv_intros]:
  assumes "run_ok h a out" and "mark_peer_closed sid a out = (a', out')"
  shows "run_ok h a' out' \<and> same_input a' a"
proof (cases "ac_get a sid")
  case None
  with assms show ?thesis by (simp add: mark_peer_closed_def)
next
  case (Some s)
  let ?a = "if ss_local_closed s then ac_remove_stream a sid else ac_put a sid (s\<lparr>ss_peer_closed := True\<rparr>)"
  have ok: "acceptor_ok a" using assms(1) by (simp add: run_ok_def)
  have res: "a' = ?a" "out' = put_event out (ReadClosed sid)"
    using Some assms(2) by (auto simp: mark_peer_closed_def Let_def split: if_splits)
  have "acceptor_ok ?a"
    using acceptor_ok_remove [OF ok] acceptor_ok_update [OF ok Some] acceptor_okD [OF ok Some]
    by (simp add: stream_state_ok_def)
  with assms(1) have "run_ok h ?a (put_event out (ReadClosed sid))"
    by (rule run_okI) simp_all
  with res show ?thesis by simp
qed

lemma run_ok_put:
  assumes "run_ok h a out" and "ac_get a sid = Some s" and "stream_state_ok s'"
  shows "run_ok h (ac_put a sid s') out"
  using assms(1) by (rule run_okI) (use assms in \<open>simp_all add: run_ok_def acceptor_ok_update\<close>)

lemma handle_data_ok [inv_intros]:
  assumes run: "run_ok h a out" and "handle_data f closes a out = (a', out')"
  shows "run_ok h a' out' \<and> same_input a' a"
proof (cases "ac_get a (stream_id f)")
  case None
  with assms show ?thesis by (simp add: handle_data_def refuse_ok)
next
  case (Some s)
  let ?n = "length (payload f)" and ?sid = "stream_id f"
  have ok: "acceptor_ok a" using run by (simp add: run_ok_def)
  note s_ok = acceptor_okD [OF ok Some]
  obtain r w where deb: "debit (ss_receive_window s) ?n = (r, w)" by fastforce
  show ?thesis
  proof (cases "ss_peer_closed s \<or> (\<exists>e. r = Inl e)")
    case True
    with Some deb assms(2) show ?thesis
      by (auto simp: handle_data_def Let_def dest: refuse_ok [OF run] split: if_splits)
  next
    case False
    then obtain u where u: "r = Inr u" by (cases r) auto
    have recv: "recv_ok (ss_receive_window s)" using s_ok by (simp add: stream_state_ok_def)
    have w: "recv_ok w" "?n \<le> rw_credit (ss_receive_window s)"
        "outstanding w = ss_debited_not_consumed s + ?n"
      using rw.debit_okD [OF recv, of ?n u w] deb u s_ok by (auto simp: stream_state_ok_def)
    have "ss_debited_not_consumed s + ?n \<le> INITIAL_WINDOW" using rw.bounded [OF w(1)] w(3) by simp
    then have add: "usize_checked_add (ss_debited_not_consumed s) ?n = Some (ss_debited_not_consumed s + ?n)"
      by (simp add: INITIAL_WINDOW_def)
    let ?s2 = "s\<lparr>ss_receive_window := w, ss_debited_not_consumed := ss_debited_not_consumed s + ?n\<rparr>"
    let ?a1 = "ac_put a ?sid (s\<lparr>ss_receive_window := w\<rparr>)"
    have "stream_state_ok ?s2" using s_ok w by (simp add: stream_state_ok_def)
    then have "run_ok h (ac_put a ?sid ?s2) out" using run Some by (intro run_ok_put)
    then have put: "run_ok h (ac_put ?a1 ?sid ?s2) (put_event out (Data ?sid (payload f)))"
      by (rule run_okI) (use \<open>run_ok h (ac_put a ?sid ?s2) out\<close> in \<open>simp_all add: ac_put_put run_ok_def\<close>)
    show ?thesis
    proof (cases closes)
      case True
      with Some False u deb assms(2) have
        "mark_peer_closed ?sid (ac_put ?a1 ?sid ?s2) (put_event out (Data ?sid (payload f))) = (a', out')"
        by (simp add: handle_data_def Let_def add)
      from mark_peer_closed_ok [OF put this] show ?thesis by simp
    next
      case no: False
      with Some False u deb assms(2) have "a' = ac_put ?a1 ?sid ?s2 \<and> out' = put_event out (Data ?sid (payload f))"
        by (simp add: handle_data_def Let_def add)
      with put show ?thesis by simp
    qed
  qed
qed

lemma handle_close_ok [inv_intros]:
  "run_ok h a out \<Longrightarrow> handle_close f a out = (a', out') \<Longrightarrow> run_ok h a' out' \<and> same_input a' a"
  by (auto simp: handle_close_def dest: handle_data_ok mark_peer_closed_ok split: if_splits)

lemma handle_reset_ok [inv_intros]:
  assumes "run_ok h a out" and "handle_reset f a out = (a', out')"
  shows "run_ok h a' out' \<and> same_input a' a"
proof (cases "\<exists>code. payload f = [code]")
  case True
  then obtain code where code: "payload f = [code]" by blast
  from assms(1) have "run_ok h (ac_remove_stream a (stream_id f)) (put_event out (Reset (stream_id f) (from_wire code)))"
    by (rule run_okI) (use assms(1) in \<open>simp_all add: run_ok_def acceptor_ok_remove\<close>)
  with assms(2) code show ?thesis by (auto simp: handle_reset_def)
next
  case False
  then have "handle_reset f a out = refuse f ClassProtocol a out"
    by (auto simp: handle_reset_def split: list.split)
  with assms(2) have "refuse f ClassProtocol a out = (a', out')" by simp
  with assms(1) show ?thesis by (rule refuse_ok)
qed

lemma handle_window_ok [inv_intros]:
  assumes "run_ok h a out" and "handle_window f a out = (a', out')"
  shows "run_ok h a' out' \<and> same_input a' a"
proof (cases "\<exists>c. handle_window f a out = refuse f c a out")
  case True
  then obtain c where "handle_window f a out = refuse f c a out" by blast
  with assms(2) have "refuse f c a out = (a', out')" by simp
  with assms(1) show ?thesis by (rule refuse_ok)
next
  case False
  then obtain credit s where c: "window_credit f = Some credit" "ac_get a (stream_id f) = Some s"
    and le: "ss_send_credit s + unat credit \<le> MAX_SEND_CREDIT"
    by (auto simp: handle_window_def split: option.splits if_splits)
  let ?s = "s\<lparr>ss_send_credit := ss_send_credit s + unat credit\<rparr>"
  let ?out = "out\<lparr>mo_writable_streams := mo_writable_streams out @ [stream_id f]\<rparr>"
  have "acceptor_ok a" using assms(1) by (simp add: run_ok_def)
  from acceptor_okD [OF this c(2)] le have "stream_state_ok ?s" by (simp add: stream_state_ok_def)
  with assms(1) c(2) have "run_ok h (ac_put a (stream_id f) ?s) out" by (intro run_ok_put)
  then have "run_ok h (ac_put a (stream_id f) ?s) ?out"
    by (rule run_okI) (use \<open>run_ok h (ac_put a (stream_id f) ?s) out\<close> in \<open>simp_all add: run_ok_def resets_def\<close>)
  moreover have "handle_window f a out = (ac_put a (stream_id f) ?s, ?out)"
    using c le by (simp add: handle_window_def usize_checked_add_def MAX_SEND_CREDIT_def)
  ultimately show ?thesis using assms(2) by simp
qed

text \<open>Opening a stream above the high-water mark.\<close>

lemma acceptor_ok_raise:
  assumes "acceptor_ok a" and "high_water a < unat sid"
  shows "acceptor_ok (a\<lparr>ac_peer_high_water := Some sid\<rparr>)" and "ac_get a sid = None"
proof -
  show "ac_get a sid = None"
    using acceptor_okD [OF assms(1), of sid] assms(2) by (cases "ac_get a sid") auto
  show "acceptor_ok (a\<lparr>ac_peer_high_water := Some sid\<rparr>)"
  proof (rule acceptor_okI)
    show "stream_state_ok s \<and> odd (unat k) \<and> unat k \<le> high_water (a\<lparr>ac_peer_high_water := Some sid\<rparr>)"
      if "ac_get (a\<lparr>ac_peer_high_water := Some sid\<rparr>) k = Some s" for k s
      using that acceptor_okD [OF assms(1), of k s] assms(2) by simp
  qed (use assms(1) in \<open>simp_all add: acceptor_ok_def\<close>)
qed

lemma acceptor_ok_insert:
  assumes "acceptor_ok a" and "ac_get a sid = None" and "length (ac_streams a) < max_concurrent_streams (ac_limits a)"
    and "stream_state_ok s" and "odd (unat sid)" and "unat sid \<le> high_water a"
  shows "acceptor_ok (ac_put a sid s)"
proof (rule acceptor_okI)
  have "length (table_put (ac_streams a) sid s) = length (ac_streams a) + 1"
    using assms(1,2) st.count_put [of "ac_streams a" sid s] by (simp add: acceptor_ok_def ac_get_def)
  with assms(3) show "length (ac_streams (ac_put a sid s)) \<le> max_concurrent_streams (ac_limits (ac_put a sid s))"
    by (simp add: ac_put_def)
  show "stream_state_ok t \<and> odd (unat k) \<and> unat k \<le> high_water (ac_put a sid s)"
    if "ac_get (ac_put a sid s) k = Some t" for k t
    using that acceptor_okD [OF assms(1), of k t] assms(4-6) by (simp split: if_splits)
qed (use assms(1) in \<open>simp_all add: acceptor_ok_def ac_put_def\<close>)

lemma fresh_stream_ok:
  assumes "n \<le> INITIAL_WINDOW"
  obtains w where "debit recv_new n = (Inr (), w)"
    "stream_state_ok \<lparr>ss_receive_window = w, ss_debited_not_consumed = n, ss_send_credit = INITIAL_WINDOW,
       ss_peer_closed = False, ss_local_closed = False\<rparr>"
proof -
  from assms obtain w where "debit recv_new n = (Inr (), w)" "recv_ok w" "outstanding w = n"
    using debit_fits [of recv_new n] by auto
  then show thesis by (intro that) (simp_all add: stream_state_ok_def MAX_SEND_CREDIT_def INITIAL_WINDOW_def)
qed

lemma valid_id_iff:
  "unat sid mod 2 = 1 \<and> (case ac_peer_high_water a of None \<Rightarrow> True | Some highest \<Rightarrow> sid > highest)
     \<longleftrightarrow> odd (unat sid) \<and> high_water a < unat sid"
  by (auto simp: high_water_def word_less_nat_alt odd_pos odd_iff_mod_2_eq_one split: option.split)

lemma run_ok_raise:
  assumes "run_ok h a out" and "high_water a < unat sid"
  shows "run_ok h (a\<lparr>ac_peer_high_water := Some sid\<rparr>) out"
proof -
  have ok: "acceptor_ok a" and low: "h \<le> high_water a"
    and le: "\<forall>i\<in>set (opened (mo_events out)). odd i \<and> h < i \<and> i \<le> high_water a"
    using assms(1) unfolding run_ok_def by iprover+
  have high: "high_water (a\<lparr>ac_peer_high_water := Some sid\<rparr>) = unat sid" by (simp add: high_water_def)
  have "\<forall>i\<in>set (opened (mo_events out)). odd i \<and> h < i \<and> i \<le> unat sid"
    using le assms(2) by fastforce
  with assms(1) low assms(2) acceptor_ok_raise(1) [OF ok assms(2)] show ?thesis
    unfolding run_ok_def high by (iprover intro: less_imp_le le_less_trans)
qed

text \<open>The stream and the events of an accepted OPEN, before a CLOSE on the same frame.\<close>

lemma run_ok_opened:
  assumes run: "run_ok h a out" and id: "odd (unat sid)" "high_water a < unat sid"
    and room: "length (ac_streams a) < max_concurrent_streams (ac_limits a)" and "stream_state_ok s"
    and out': "opened (mo_events out') = opened (mo_events out) @ [unat sid]"
      "resets out' = resets out" "mo_refusals out' = mo_refusals out"
  shows "run_ok h (ac_put (a\<lparr>ac_peer_high_water := Some sid\<rparr>) sid s) out'"
proof -
  have ok: "acceptor_ok a" using run by (simp add: run_ok_def)
  have "acceptor_ok (ac_put (a\<lparr>ac_peer_high_water := Some sid\<rparr>) sid s)"
    using acceptor_ok_raise [OF ok id(2)] room id(1) \<open>stream_state_ok s\<close>
    by (intro acceptor_ok_insert) simp_all
  moreover have "high_water (ac_put (a\<lparr>ac_peer_high_water := Some sid\<rparr>) sid s) = unat sid"
    by (simp add: high_water_def ac_put_def)
  moreover have "\<forall>i\<in>set (opened (mo_events out)). odd i \<and> h < i \<and> i < unat sid"
    and low: "h < unat sid" and "sorted_wrt (<) (opened (mo_events out))"
    and "resets out = map refusal_reset (mo_refusals out)"
    using run id(2) by (fastforce simp: run_ok_def)+
  ultimately show ?thesis
    using id(1) out' by (simp add: run_ok_def sorted_wrt_append less_imp_le)
qed

lemma handle_open_ok [inv_intros]:
  assumes run: "run_ok h a out" and eq: "handle_open f a out = (a', out')"
  shows "run_ok h a' out' \<and> same_input a' a"
proof (cases "odd (unat (stream_id f)) \<and> high_water a < unat (stream_id f)")
  case False
  then have "\<not> (unat (stream_id f) mod 2 = 1
      \<and> (case ac_peer_high_water a of None \<Rightarrow> True | Some highest \<Rightarrow> stream_id f > highest))"
    using valid_id_iff [of "stream_id f" a] by blast
  with eq have "refuse f ClassProtocol a out = (a', out')" unfolding handle_open_def Let_def by simp
  with run show ?thesis by (rule refuse_ok)
next
  case id: True
  let ?sid = "stream_id f"
  let ?a1 = "a\<lparr>ac_peer_high_water := Some ?sid\<rparr>"
  have valid: "unat ?sid mod 2 = 1
      \<and> (case ac_peer_high_water a of None \<Rightarrow> True | Some highest \<Rightarrow> ?sid > highest)"
    using id valid_id_iff [of ?sid a] by blast
  have run1: "run_ok h ?a1 out" using run id by (auto intro: run_ok_raise)
  show ?thesis
  proof (cases "length (ac_streams a) < max_concurrent_streams (ac_limits a) \<and> length (payload f) \<le> INITIAL_WINDOW")
    case False
    with eq valid obtain c where "refuse f c ?a1 out = (a', out')"
      unfolding handle_open_def Let_def by (auto split: if_splits)
    from refuse_ok [OF run1 this] show ?thesis by simp
  next
    case True
    obtain w where w: "debit recv_new (length (payload f)) = (Inr (), w)"
      and s: "stream_state_ok \<lparr>ss_receive_window = w, ss_debited_not_consumed = length (payload f),
        ss_send_credit = INITIAL_WINDOW, ss_peer_closed = False, ss_local_closed = False\<rparr>"
      using True fresh_stream_ok by blast
    let ?a2 = "ac_put ?a1 ?sid \<lparr>ss_receive_window = w, ss_debited_not_consumed = length (payload f),
        ss_send_credit = INITIAL_WINDOW, ss_peer_closed = False, ss_local_closed = False\<rparr>"
    let ?o1 = "put_event out (Opened ?sid)"
    let ?o2 = "if payload f \<noteq> [] \<or> flags f AND FLAG_DATA \<noteq> 0 then put_event ?o1 (Data ?sid (payload f)) else ?o1"
    have run2: "run_ok h ?a2 ?o2" by (rule run_ok_opened [OF run]) (use id True s in auto)
    have eq2: "(if flags f AND FLAG_CLOSE \<noteq> 0 then mark_peer_closed ?sid ?a2 ?o2 else (?a2, ?o2)) = (a', out')"
      using eq valid True w unfolding handle_open_def Let_def by simp
    show ?thesis
    proof (cases "flags f AND FLAG_CLOSE = 0")
      case False
      with eq2 have "mark_peer_closed ?sid ?a2 ?o2 = (a', out')" by simp
      from mark_peer_closed_ok [OF run2 this] show ?thesis by simp
    next
      case no_close: True
      with eq2 run2 show ?thesis by auto
    qed
  qed
qed

lemma handle_frame_ok [inv_intros]:
  assumes run: "run_ok h a out" and eq: "handle_frame f a out = (r, a', out')"
  shows "run_ok h a' out' \<and> same_input a' a"
proof (cases "stream_id f = 0")
  case True
  have pong: "flags g \<noteq> FLAG_RESET" if "control_pong f = Some g" for g
    using that by (auto simp: control_pong_def flag_defs split: if_splits)
  from True eq have "a' = a \<and> (out' = out \<or> (\<exists>g. control_pong f = Some g \<and> out' = put_frame out g))"
    by (auto simp: handle_frame_def handle_control_def split: sum.splits option.splits if_splits)
  then show ?thesis
  proof (elim conjE disjE exE)
    fix g
    assume "a' = a" "control_pong f = Some g" "out' = put_frame out g"
    with run pong show ?thesis by (simp add: run_ok_def)
  qed (use run in simp)
next
  case False
  define good where "good = (\<lambda>p. run_ok h (fst p) (snd p) \<and> same_input (fst p) a)"
  have refuse: "good (refuse f c a out)" for c
    unfolding good_def by (rule refuse_ok [OF run surjective_pairing])
  have open': "good (handle_open f a out)"
    unfolding good_def by (rule handle_open_ok [OF run surjective_pairing])
  have data: "good (handle_data f b a out)" for b
    unfolding good_def by (rule handle_data_ok [OF run surjective_pairing])
  have close: "good (handle_close f a out)"
    unfolding good_def by (rule handle_close_ok [OF run surjective_pairing])
  have reset: "good (handle_reset f a out)"
    unfolding good_def by (rule handle_reset_ok [OF run surjective_pairing])
  have window: "good (handle_window f a out)"
    unfolding good_def by (rule handle_window_ok [OF run surjective_pairing])
  have same: "good (a, out)" using run by (simp add: good_def)
  have "good (snd (handle_frame f a out))"
    unfolding handle_frame_def Let_def
    by (simp only: False simp_thms if_False snd_conv if_distrib [of snd] if_distrib [of good] refuse open' data close reset window same if_cancel)
  with eq show ?thesis by (simp add: good_def)
qed

end
