(* ===== verification/Spl_Acceptor_Input.thy ===== *)
theory Spl_Acceptor_Input
  imports Spl_Acceptor_Inv
begin

text \<open>
  The acceptor reads its carrier byte by byte. This theory shows that in every reachable
  state it is either between frames or inside exactly one of: a header, a payload, or the
  payload of a refused header that it skips, so that on whole frames the byte-wise input is
  the frame-level machine \<open>handle_frame\<close>.
\<close>

subsection \<open>The states of the input\<close>

definition idle :: "mux_acceptor \<Rightarrow> bool" where
  "idle a \<longleftrightarrow>
     ac_decoder a = decoder_new \<and> ac_decoder_buffered_bytes a = 0 \<and> ac_header_buffer a = []
     \<and> ac_payload_remaining a = None \<and> ac_discarded_payload_remaining a = None"

definition in_header :: "bytes \<Rightarrow> mux_acceptor \<Rightarrow> mux_acceptor" where
  "in_header h a = a\<lparr>ac_header_buffer := h, ac_decoder_buffered_bytes := length h\<rparr>"

definition in_payload :: "bytes \<Rightarrow> nat \<Rightarrow> mux_acceptor \<Rightarrow> mux_acceptor" where
  "in_payload bs r a = a\<lparr>ac_decoder := \<lparr>buf = bs\<rparr>, ac_decoder_buffered_bytes := length bs,
     ac_payload_remaining := Some r\<rparr>"

definition skipping :: "nat \<Rightarrow> mux_acceptor \<Rightarrow> mux_acceptor" where
  "skipping d a = a\<lparr>ac_discarded_payload_remaining := (if d > 0 then Some d else None)\<rparr>"

definition header_sid :: "bytes \<Rightarrow> u32" where
  "header_sid h = u32_from_be_bytes (h ! 0) (h ! 1) (h ! 2) (h ! 3)"

definition header_len :: "bytes \<Rightarrow> nat" where
  "header_len h = u24_value (h ! 5) (h ! 6) (h ! 7)"

definition header_violation :: "bytes \<Rightarrow> frame_violation" where
  "header_violation h = \<lparr>fv_stream_id = header_sid h, fv_flags = h ! 4, fv_length = header_len h\<rparr>"

inductive input_ok :: "mux_acceptor \<Rightarrow> bool" where
  header: "idle b \<Longrightarrow> length h < HEADER_LEN \<Longrightarrow> input_ok (in_header h b)"
| payload: "idle b \<Longrightarrow> HEADER_LEN \<le> length bs \<Longrightarrow> bs ! 4 AND FLAG_RESERVED_MASK = 0 \<Longrightarrow>
    length bs + r = HEADER_LEN + header_len bs \<Longrightarrow> 0 < r \<Longrightarrow> input_ok (in_payload bs r b)"
| skip: "idle b \<Longrightarrow> 0 < d \<Longrightarrow> input_ok (skipping d b)"

lemma in_header_Nil [simp]: "idle a \<Longrightarrow> in_header [] a = a"
  by (simp add: in_header_def idle_def)

lemma skipping_0 [simp]: "idle a \<Longrightarrow> skipping 0 a = a"
  by (simp add: skipping_def idle_def)

lemma idle_input_ok: "idle a \<Longrightarrow> input_ok a"
  using input_ok.header [of a "[]"] by (simp add: HEADER_LEN_def)

lemma input_ok_skipping: "idle a \<Longrightarrow> input_ok (skipping d a)"
  by (cases "d > 0") (simp_all add: input_ok.skip idle_input_ok)

lemma idle_same_input: "idle b \<Longrightarrow> same_input a b \<Longrightarrow> idle a"
  by (simp add: idle_def same_input_def)

lemma skipping_same_input:
  assumes "idle b" and "same_input a (skipping d b)"
  obtains c where "idle c" and "a = skipping d c" and "ac_streams c = ac_streams a"
proof (rule that)
  let ?c = "a\<lparr>ac_discarded_payload_remaining := None\<rparr>"
  show "idle ?c" using assms by (simp add: idle_def same_input_def skipping_def)
  show "a = skipping d ?c"
    using assms by (simp add: skipping_def same_input_def)
qed simp

subsection \<open>One byte\<close>

lemma drain_decoder_stuck:
  "next_frame (ac_decoder a) = (Inr None, ac_decoder a) \<Longrightarrow> drain_decoder a out = (Inr (), a, out)"
  by (subst drain_decoder.simps) simp

lemma drain_decoder_idle: "idle a \<Longrightarrow> drain_decoder a out = (Inr (), a, out)"
  by (rule drain_decoder_stuck) (simp add: idle_def decoder_new_def next_frame_short HEADER_LEN_def)

lemma idle_handle_frame:
  assumes "run_ok h a out" and "idle a" and "handle_frame f a out = (r, a', out')"
  shows "idle a'"
  using handle_frame_ok [OF assms(1,3)] idle_same_input [OF assms(2)] by simp

lemma drain_decoder_frame:
  assumes "run_ok h a out" and "idle a" and "next_frame d = (Inr (Some f), decoder_new)"
    and "n = HEADER_LEN + length (payload f)"
  shows "drain_decoder (a\<lparr>ac_decoder := d, ac_decoder_buffered_bytes := n\<rparr>) out = handle_frame f a out"
proof -
  have same: "a\<lparr>ac_decoder := decoder_new, ac_decoder_buffered_bytes := 0\<rparr> = a"
    using assms(2) by (simp add: idle_def)
  obtain r a' out' where eq: "handle_frame f a out = (r, a', out')" by (metis prod_cases3)
  have "idle a'" using idle_handle_frame [OF assms(1,2) eq] .
  then show ?thesis
    using assms(3,4)
    by (subst drain_decoder.simps)
      (simp add: usize_checked_sub_def same eq drain_decoder_idle split: sum.split)
qed

lemma next_frame_whole:
  assumes "HEADER_LEN \<le> length bs" and "bs ! 4 AND FLAG_RESERVED_MASK = 0"
  shows "next_frame \<lparr>buf = bs\<rparr> =
    (if length bs < HEADER_LEN + header_len bs then (Inr None, \<lparr>buf = bs\<rparr>)
     else (Inr (Some (frame_new (header_sid bs) (bs ! 4) (take (header_len bs) (drop HEADER_LEN bs)))),
           \<lparr>buf = drop (HEADER_LEN + header_len bs) bs\<rparr>))"
  using assms by (simp add: next_frame_def Let_def header_sid_def header_len_def)

lemma header_len_less: "header_len h < 2 ^ 24"
  unfolding header_len_def by (rule u24_value_less)

text \<open>The ceiling on buffered bytes is above every byte count the input reaches.\<close>

lemma ceiling:
  "limits_validate l = Inr () \<Longrightarrow> 8 + 16777215 \<le> decoder_buffer_bytes l"
  by (simp add: limits_validate_def HEADER_LEN_def MAX_PAYLOAD_def split: if_splits)

lemma run_ok_limits: "run_ok h a out \<Longrightarrow> limits_validate (ac_limits a) = Inr ()"
  by (simp add: run_ok_def acceptor_ok_def)

lemma feed_byte_skip:
  assumes "idle b" and "0 < d"
  shows "feed_byte x (skipping d b) out = (Inr (), skipping (d - 1) b, out)"
  using assms by (simp add: feed_byte_def skipping_def)

lemma feed_byte_header:
  assumes "idle b" and "run_ok m b out" and "length h < HEADER_LEN - 1"
  shows "feed_byte x (in_header h b) out = (Inr (), in_header (h @ [x]) b, out)"
  using assms(1,3) ceiling [OF run_ok_limits [OF assms(2)]]
  by (simp add: feed_byte_def in_header_def idle_def HEADER_LEN_def usize_checked_add_def Let_def)

lemma feed_byte_refused_header:
  assumes "idle b" and "run_ok m b out" and "length hs = HEADER_LEN - 1" and "h = hs @ [x]"
    and "h ! 4 AND FLAG_RESERVED_MASK \<noteq> 0"
  shows "feed_byte x (in_header hs b) out =
    (if header_sid h = 0
     then (Inl (Refused \<lparr>rf_class = ClassProtocol, rf_violation = Some (header_violation h)\<rparr>),
           skipping (header_len h) b, out)
     else (Inr (), refuse_violation (header_violation h) ClassProtocol (skipping (header_len h) b) out))"
proof -
  have len: "length h = HEADER_LEN" using assms(3,4) by (simp add: HEADER_LEN_def)
  show ?thesis
    using assms(1,3,5) ceiling [OF run_ok_limits [OF assms(2)]] len
    by (cases b) (simp add: feed_byte_def in_header_def idle_def HEADER_LEN_def Let_def
        header_sid_def header_len_def header_violation_def skipping_def usize_checked_add_def
        usize_checked_sub_def flip: assms(4))
qed

lemma feed_byte_long_header:
  assumes "idle b" and "run_ok m b out" and "length hs = HEADER_LEN - 1" and "h = hs @ [x]"
    and "h ! 4 AND FLAG_RESERVED_MASK = 0" and "0 < header_len h"
  shows "feed_byte x (in_header hs b) out = (Inr (), in_payload h (header_len h) b, out)"
proof -
  have len: "length h = HEADER_LEN" using assms(3,4) by (simp add: HEADER_LEN_def)
  have "next_frame \<lparr>buf = h\<rparr> = (Inr None, \<lparr>buf = h\<rparr>)"
    using len assms(5,6) by (simp add: next_frame_whole)
  then show ?thesis
    using assms(1,3,5,6) ceiling [OF run_ok_limits [OF assms(2)]]
    by (simp add: feed_byte_def in_header_def idle_def HEADER_LEN_def Let_def in_payload_def
        header_len_def usize_checked_add_def decoder_feed_def decoder_new_def drain_decoder_stuck
        len flip: assms(4))
qed

lemma feed_byte_short_header:
  assumes "idle b" and "run_ok m b out" and "length hs = HEADER_LEN - 1" and "h = hs @ [x]"
    and "h ! 4 AND FLAG_RESERVED_MASK = 0" and "header_len h = 0"
  shows "feed_byte x (in_header hs b) out = handle_frame (frame_new (header_sid h) (h ! 4) []) b out"
proof -
  have len: "length h = HEADER_LEN" using assms(3,4) by (simp add: HEADER_LEN_def)
  have nf: "next_frame \<lparr>buf = h\<rparr> = (Inr (Some (frame_new (header_sid h) (h ! 4) [])), decoder_new)"
    using len assms(5,6) by (simp add: next_frame_whole decoder_new_def)
  have "feed_byte x (in_header hs b) out
      = drain_decoder (b\<lparr>ac_decoder := \<lparr>buf = h\<rparr>, ac_decoder_buffered_bytes := 8\<rparr>) out"
    using assms(1,3,5,6) ceiling [OF run_ok_limits [OF assms(2)]] len
    by (cases b) (simp add: feed_byte_def in_header_def idle_def HEADER_LEN_def Let_def
        header_len_def usize_checked_add_def decoder_feed_def decoder_new_def flip: assms(4))
  then show ?thesis
    using drain_decoder_frame [OF assms(2,1) nf] by (simp add: HEADER_LEN_def)
qed

lemma header_append [simp]:
  "HEADER_LEN \<le> length bs \<Longrightarrow> header_len (bs @ xs) = header_len bs"
  "HEADER_LEN \<le> length bs \<Longrightarrow> header_sid (bs @ xs) = header_sid bs"
  "HEADER_LEN \<le> length bs \<Longrightarrow> (bs @ xs) ! 4 = bs ! 4"
  by (auto simp: header_len_def header_sid_def HEADER_LEN_def nth_append)

lemma feed_byte_payload:
  assumes "idle b" and "run_ok m b out" and "HEADER_LEN \<le> length bs"
    and "bs ! 4 AND FLAG_RESERVED_MASK = 0" and "length bs + r = HEADER_LEN + header_len bs" and "0 < r"
  shows "feed_byte x (in_payload bs r b) out =
    (if r > 1 then (Inr (), in_payload (bs @ [x]) (r - 1) b, out)
     else handle_frame (frame_new (header_sid bs) (bs ! 4) (drop HEADER_LEN (bs @ [x]))) b out)"
proof -
  let ?bs = "bs @ [x]"
  have le: "length bs < 8 + 16777215" using assms(5,6) header_len_less [of bs] by (simp add: HEADER_LEN_def)
  have step: "feed_byte x (in_payload bs r b) out
      = drain_decoder (b\<lparr>ac_decoder := \<lparr>buf = ?bs\<rparr>, ac_decoder_buffered_bytes := length ?bs,
          ac_payload_remaining := (if r > 1 then Some (r - 1) else None)\<rparr>) out"
    using assms(1) ceiling [OF run_ok_limits [OF assms(2)]] le
    by (cases b) (simp add: feed_byte_def in_payload_def idle_def usize_checked_add_def decoder_feed_def)
  show ?thesis
  proof (cases "r > 1")
    case True
    then have "next_frame \<lparr>buf = ?bs\<rparr> = (Inr None, \<lparr>buf = ?bs\<rparr>)"
      using assms(3-5) by (subst next_frame_whole) simp_all
    with True show ?thesis
      by (simp add: step drain_decoder_stuck) (simp add: in_payload_def)
  next
    case False
    then have len: "length ?bs = HEADER_LEN + header_len bs" using assms(5,6) by simp
    have nf: "next_frame \<lparr>buf = ?bs\<rparr> =
        (Inr (Some (frame_new (header_sid bs) (bs ! 4) (drop HEADER_LEN ?bs))), decoder_new)"
      using assms(3,4) len by (subst next_frame_whole) (simp_all add: decoder_new_def)
    have "b\<lparr>ac_decoder := d, ac_decoder_buffered_bytes := n, ac_payload_remaining := None\<rparr>
        = b\<lparr>ac_decoder := d, ac_decoder_buffered_bytes := n\<rparr>" for d n
      using assms(1) by (cases b) (simp add: idle_def)
    with False drain_decoder_frame [OF assms(2,1) nf, of "length ?bs"] show ?thesis
      using assms(3) by (simp add: step)
  qed
qed

subsection \<open>The invariant of the input\<close>

text \<open>The failures of the input: a violation on stream zero, and nothing else.\<close>

definition fatal :: "home_error \<Rightarrow> bool" where
  "fatal e \<longleftrightarrow> (\<exists>v. e = Refused \<lparr>rf_class = ClassProtocol, rf_violation = Some v\<rparr> \<and> fv_stream_id v = 0)"

definition step_ok :: "nat \<Rightarrow> (home_error + unit) \<times> mux_acceptor \<times> mux_output \<Rightarrow> bool" where
  "step_ok h p \<longleftrightarrow>
     (case p of (r, a, out) \<Rightarrow> run_ok h a out \<and> input_ok a \<and> (\<forall>e. r = Inl e \<longrightarrow> fatal e))"

lemma step_okI: "run_ok h a out \<Longrightarrow> input_ok a \<Longrightarrow> step_ok h (Inr (), a, out)"
  by (simp add: step_ok_def)

lemma run_ok_phase [simp]:
  "run_ok m (in_header hs b) out = run_ok m b out"
  "run_ok m (in_payload bs r b) out = run_ok m b out"
  "run_ok m (skipping d b) out = run_ok m b out"
  by (simp_all add: run_ok_def acceptor_ok_def high_water_def ac_get_def in_header_def in_payload_def skipping_def)

lemma step_ok_handle_frame:
  assumes "run_ok m b out" and "idle b"
  shows "step_ok m (handle_frame f b out)"
proof -
  obtain r a out' where eq: "handle_frame f b out = (r, a, out')" by (metis prod_cases3)
  have "fatal e" if "r = Inl e" for e
    using eq that
    by (auto simp: handle_frame_def handle_control_def fatal_def frame_violation_home_def
        split: if_splits sum.splits option.splits)
  with handle_frame_ok [OF assms(1) eq] idle_handle_frame [OF assms eq] show ?thesis
    by (simp add: step_ok_def eq idle_input_ok)
qed

lemma step_ok_refuse_violation:
  assumes "run_ok m b out" and "idle b"
  shows "step_ok m (Inr (), refuse_violation v c (skipping d b) out)"
proof -
  obtain a out' where eq: "refuse_violation v c (skipping d b) out = (a, out')" by (metis surj_pair)
  have ok: "run_ok m a out' \<and> same_input a (skipping d b)"
    using assms by (intro refuse_violation_ok [OF _ eq]) simp
  then obtain c where "idle c" "a = skipping d c"
    using assms(2) by (blast elim: skipping_same_input)
  with ok show ?thesis by (simp add: eq step_okI input_ok_skipping)
qed

lemma feed_byte_ok:
  assumes "input_ok a" and "run_ok m a out"
  shows "step_ok m (feed_byte x a out)"
  using assms(1)
proof cases
  case (header b hs)
  then have run: "run_ok m b out" using assms(2) by simp
  define h where "h = hs @ [x]"
  consider "length hs < HEADER_LEN - 1" | (last) "length hs = HEADER_LEN - 1"
    using header(3) unfolding HEADER_LEN_def by linarith
  then show ?thesis
  proof cases
    case 1
    then show ?thesis
      using header run
      by (auto simp: feed_byte_header HEADER_LEN_def intro!: step_okI input_ok.header)
  next
    case last
    note byte = header(2) run last h_def
    have len: "length h = HEADER_LEN" using last by (simp add: h_def HEADER_LEN_def)
    show ?thesis
    proof (cases "h ! 4 AND FLAG_RESERVED_MASK = 0")
      case True
      then show ?thesis
        using header(1,2) run len input_ok.payload [OF header(2), of h "header_len h"]
        by (cases "header_len h = 0")
          (simp_all add: feed_byte_short_header [OF byte] feed_byte_long_header [OF byte]
            step_ok_handle_frame step_okI)
    next
      case False
      have "fatal (Refused \<lparr>rf_class = ClassProtocol, rf_violation = Some (header_violation h)\<rparr>)"
        if "header_sid h = 0" using that by (simp add: fatal_def header_violation_def)
      then show ?thesis
        using header(1,2) run
        by (simp add: feed_byte_refused_header [OF byte False] step_ok_refuse_violation)
          (simp add: step_ok_def input_ok_skipping)
    qed
  qed
next
  case (payload b bs r)
  then have run: "run_ok m b out" using assms(2) by simp
  show ?thesis
    using payload run input_ok.payload [OF payload(2), of "bs @ [x]" "r - 1"]
    by (simp add: feed_byte_payload step_ok_handle_frame step_okI)
next
  case (skip b d)
  then show ?thesis
    using assms(2) by (simp add: feed_byte_skip step_okI input_ok_skipping)
qed

lemma feed_bytes_ok:
  assumes "input_ok a" and "run_ok m a out"
  shows "step_ok m (feed_bytes bs a out)"
  using assms
proof (induction bs arbitrary: a out)
  case (Cons x bs)
  obtain r a' out' where eq: "feed_byte x a out = (r, a', out')" by (metis prod_cases3)
  then have step: "step_ok m (r, a', out')" using feed_byte_ok [OF Cons.prems, of x] by simp
  show ?case
  proof (cases r)
    case Inl
    with step eq show ?thesis by simp
  next
    case Inr
    with step eq Cons.IH [of a' out'] show ?thesis by (simp add: step_ok_def)
  qed
qed (simp add: step_okI)

subsection \<open>Whole frames\<close>

lemma feed_bytes_append:
  "feed_bytes (xs @ ys) a out =
     (case feed_bytes xs a out of
        (Inl e, a', out') \<Rightarrow> (Inl e, a', out')
      | (Inr _, a', out') \<Rightarrow> feed_bytes ys a' out')"
  by (induction xs arbitrary: a out) (simp_all split: prod.split sum.split)

lemma feed_bytes_header:
  assumes "idle b" and "run_ok m b out" and "length (hs @ xs) < HEADER_LEN"
  shows "feed_bytes xs (in_header hs b) out = (Inr (), in_header (hs @ xs) b, out)"
  using assms(3)
proof (induction xs arbitrary: hs)
  case (Cons x xs)
  then show ?case
    using Cons.IH [of "hs @ [x]"] by (simp add: feed_byte_header [OF assms(1,2)] HEADER_LEN_def)
qed simp

lemma feed_bytes_payload:
  assumes "idle b" and "run_ok m b out" and "xs \<noteq> []" and "HEADER_LEN \<le> length bs"
    and "bs ! 4 AND FLAG_RESERVED_MASK = 0" and "length (bs @ xs) = HEADER_LEN + header_len bs"
  shows "feed_bytes xs (in_payload bs (length xs) b) out
    = handle_frame (frame_new (header_sid bs) (bs ! 4) (drop HEADER_LEN (bs @ xs))) b out"
  using assms(3-6)
proof (induction xs arbitrary: bs)
  case (Cons x xs)
  obtain r a out' where eq:
    "handle_frame (frame_new (header_sid bs) (bs ! 4) (drop HEADER_LEN (bs @ [x]))) b out = (r, a, out')"
    by (metis prod_cases3)
  note step = feed_byte_payload [OF assms(1,2) Cons.prems(2,3), of "Suc (length xs)" x]
  show ?case
  proof (cases "xs = []")
    case True
    with Cons.prems step eq show ?thesis by (simp split: sum.split)
  next
    case False
    with Cons.prems step Cons.IH [of "bs @ [x]"] show ?thesis by simp
  qed
qed simp

lemma feed_bytes_skip:
  assumes "idle b"
  shows "feed_bytes xs (skipping (length xs) b) out = (Inr (), b, out)"
  by (induction xs) (simp_all add: assms feed_byte_skip)

lemma feed_bytes_frame:
  assumes "idle b" and "run_ok m b out" and "length h = HEADER_LEN"
    and "h ! 4 AND FLAG_RESERVED_MASK = 0" and "length p = header_len h"
  shows "feed_bytes (h @ p) b out = handle_frame (frame_new (header_sid h) (h ! 4) p) b out"
proof -
  obtain hs x where h: "h = hs @ [x]" using assms(3) by (cases h rule: rev_cases) (auto simp: HEADER_LEN_def)
  then have hs: "length hs = HEADER_LEN - 1" using assms(3) by simp
  note step = assms(1,2) hs h assms(4)
  obtain r a out' where eq: "handle_frame (frame_new (header_sid h) (h ! 4) p) b out = (r, a, out')"
    by (metis prod_cases3)
  have "feed_bytes hs b out = (Inr (), in_header hs b, out)"
    using feed_bytes_header [OF assms(1,2), of "[]" hs] assms(1) hs by (simp add: HEADER_LEN_def)
  then have start: "feed_bytes (h @ p) b out = feed_bytes (x # p) (in_header hs b) out"
    by (simp add: h feed_bytes_append)
  show ?thesis
  proof (cases "p = []")
    case True
    with eq assms(5) show ?thesis
      unfolding start by (simp add: feed_byte_short_header [OF step] split: sum.split)
  next
    case False
    then have pos: "0 < header_len h" by (simp flip: assms(5))
    from feed_bytes_payload [OF assms(1,2) False, of h] assms(3-5) show ?thesis
      by (simp add: start feed_byte_long_header [OF step pos])
  qed
qed

lemma feed_bytes_refused_frame:
  assumes "idle b" and "run_ok m b out" and "length h = HEADER_LEN"
    and "h ! 4 AND FLAG_RESERVED_MASK \<noteq> 0" and "length p = header_len h" and "header_sid h \<noteq> 0"
  shows "feed_bytes (h @ p) b out = (Inr (), refuse_violation (header_violation h) ClassProtocol b out)"
proof -
  obtain hs x where h: "h = hs @ [x]" using assms(3) by (cases h rule: rev_cases) (auto simp: HEADER_LEN_def)
  then have hs: "length hs = HEADER_LEN - 1" using assms(3) by simp
  have "feed_bytes hs b out = (Inr (), in_header hs b, out)"
    using feed_bytes_header [OF assms(1,2), of "[]" hs] assms(1) hs by (simp add: HEADER_LEN_def)
  then have start: "feed_bytes (h @ p) b out = feed_bytes (x # p) (in_header hs b) out"
    by (simp add: h feed_bytes_append)
  obtain a out' where eq: "refuse_violation (header_violation h) ClassProtocol b out = (a, out')"
    by (metis surj_pair)
  have "refuse_violation (header_violation h) ClassProtocol (skipping (length p) b) out
      = (skipping (length p) a, out')"
    using eq by (auto simp: refuse_violation_def Let_def skipping_def ac_remove_stream_def ac_get_def)
  moreover have "idle a"
    using idle_same_input [OF assms(1)] refuse_violation_ok [OF assms(2) eq] by simp
  ultimately show ?thesis
    using assms(5,6) feed_bytes_skip [of a p out']
    by (simp add: start feed_byte_refused_header [OF assms(1,2) hs h assms(4)] eq)
qed

end
