(* ===== verification/Spl_Acceptor_Run.thy ===== *)
theory Spl_Acceptor_Run
  imports Spl_Acceptor_Input
begin

text \<open>
  Runs of the listener's mux acceptor: any interleaving of carrier input and local
  operations, the invariant of the states they reach, and the properties of the acceptor.
\<close>

subsection \<open>Runs\<close>

inductive acceptor_step :: "mux_acceptor \<Rightarrow> mux_acceptor \<Rightarrow> bool" where
  feed: "acceptor_feed a bs = (r, a') \<Longrightarrow> acceptor_step a a'"
| consume: "acceptor_consume a sid n = (q, a') \<Longrightarrow> acceptor_step a a'"
| send: "try_send_data a sid bs = (s, a') \<Longrightarrow> acceptor_step a a'"
| close: "close_write a sid = (r, a') \<Longrightarrow> acceptor_step a a'"
| reset: "acceptor_reset a sid reason = (r, a') \<Longrightarrow> acceptor_step a a'"
| eof: "acceptor_finish_eof a = (out, a') \<Longrightarrow> acceptor_step a a'"

inductive acceptor_reachable :: "mux_limits \<Rightarrow> mux_acceptor \<Rightarrow> bool" where
  new: "acceptor_new l = Inr a \<Longrightarrow> acceptor_reachable l a"
| step: "acceptor_reachable l a \<Longrightarrow> acceptor_step a a' \<Longrightarrow> acceptor_reachable l a'"

definition state_ok :: "mux_acceptor \<Rightarrow> bool" where
  "state_ok a \<longleftrightarrow> acceptor_ok a \<and> input_ok a"

lemma run_ok_start: "acceptor_ok a \<Longrightarrow> run_ok (high_water a) a mux_output_default"
  by (simp add: run_ok_def mux_output_default_def resets_def)

lemma new_ok:
  assumes "acceptor_new l = Inr a"
  shows "state_ok a \<and> idle a \<and> ac_streams a = [] \<and> ac_limits a = l"
proof -
  have a: "limits_validate l = Inr ()" "a = \<lparr>ac_limits = l, ac_decoder = decoder_new,
      ac_decoder_buffered_bytes = 0, ac_header_buffer = [], ac_payload_remaining = None,
      ac_discarded_payload_remaining = None, ac_peer_high_water = None, ac_streams = [],
      ac_refusals = refusal_counts_default\<rparr>"
    using assms by (auto simp: acceptor_new_def bind_res_Inr_iff map_sum_Inr_iff)
  have "idle a" by (simp add: a idle_def)
  moreover have "acceptor_ok a" by (rule acceptor_okI) (simp_all add: a ac_get_def)
  ultimately show ?thesis by (simp add: state_ok_def idle_input_ok a)
qed

lemma feed_run:
  assumes "state_ok a" and "acceptor_feed a bs = (r, a')"
  shows "case r of Inl e \<Rightarrow> state_ok a' \<and> fatal e
    | Inr out \<Rightarrow> run_ok (high_water a) a' out \<and> input_ok a'"
proof -
  obtain q b out where eq: "feed_bytes bs a mux_output_default = (q, b, out)" by (metis prod_cases3)
  have "step_ok (high_water a) (q, b, out)"
    using feed_bytes_ok [OF _ run_ok_start, of a bs] assms(1) by (simp add: state_ok_def eq)
  with assms(2) eq show ?thesis
    by (auto simp: acceptor_feed_def step_ok_def state_ok_def run_ok_def split: sum.splits)
qed

lemma input_ok_streams:
  assumes "input_ok a"
  shows "input_ok (a\<lparr>ac_streams := t\<rparr>)"
  using assms
proof cases
  case (header b h)
  then have "a\<lparr>ac_streams := t\<rparr> = in_header h (b\<lparr>ac_streams := t\<rparr>)" "idle (b\<lparr>ac_streams := t\<rparr>)"
    by (simp_all add: in_header_def idle_def)
  then show ?thesis using header(3) by (simp add: input_ok.header)
next
  case (payload b bs r)
  then have "a\<lparr>ac_streams := t\<rparr> = in_payload bs r (b\<lparr>ac_streams := t\<rparr>)" "idle (b\<lparr>ac_streams := t\<rparr>)"
    by (simp_all add: in_payload_def idle_def)
  then show ?thesis using payload(3-6) by (simp add: input_ok.payload)
next
  case (skip b d)
  then have "a\<lparr>ac_streams := t\<rparr> = skipping d (b\<lparr>ac_streams := t\<rparr>)" "idle (b\<lparr>ac_streams := t\<rparr>)"
    by (simp_all add: skipping_def idle_def)
  then show ?thesis using skip(3) by (simp add: input_ok.skip)
qed

lemma state_ok_update:
  "state_ok a \<Longrightarrow> ac_get a sid = Some s \<Longrightarrow> stream_state_ok s' \<Longrightarrow> state_ok (ac_put a sid s')"
  "state_ok a \<Longrightarrow> state_ok (ac_remove_stream a sid)"
  using acceptor_ok_update [of a sid s s'] acceptor_ok_remove [of a sid]
  by (auto simp: state_ok_def input_ok_streams ac_put_def ac_remove_stream_def)

lemma state_okD: "state_ok a \<Longrightarrow> ac_get a sid = Some s \<Longrightarrow> stream_state_ok s"
  using acceptor_okD [of a sid s] by (simp add: state_ok_def)

lemma consume_outcome:
  assumes "state_ok a" and "ac_get a sid = Some s" and "n \<le> ss_debited_not_consumed s"
  shows "\<exists>g w. consume (ss_receive_window s) n = Inr (g, w)
    \<and> acceptor_consume a sid n =
        (Inr (case g of None \<Rightarrow> mux_output_default
              | Some credit \<Rightarrow> put_frame mux_output_default (window_frame sid credit)),
         ac_put a sid (s\<lparr>ss_receive_window := w, ss_debited_not_consumed := ss_debited_not_consumed s - n\<rparr>))
    \<and> stream_state_ok (s\<lparr>ss_receive_window := w, ss_debited_not_consumed := ss_debited_not_consumed s - n\<rparr>)"
proof -
  have s: "stream_state_ok s" using assms(1,2) by (rule state_okD)
  then obtain g w where "consume (ss_receive_window s) n = Inr (g, w)" "recv_ok w"
      "outstanding w = outstanding (ss_receive_window s) - n"
    using rw.consume_fits [of "ss_receive_window s" n] assms(3) by (auto simp: stream_state_ok_def)
  with s assms(2,3) show ?thesis
    by (auto simp: acceptor_consume_def usize_checked_sub_def Let_def stream_state_ok_def)
qed

lemma step_preserves: "acceptor_step a a' \<Longrightarrow> state_ok a \<Longrightarrow> state_ok a'"
proof (induction rule: acceptor_step.induct)
  case (feed a bs r a')
  then show ?case using feed_run [of a bs r a'] by (cases r) (auto simp: state_ok_def run_ok_def)
next
  case (consume a sid n q a')
  show ?case
  proof (cases "ac_get a sid")
    case (Some s)
    then show ?thesis
    proof (cases "n \<le> ss_debited_not_consumed s")
      case True
      with consume Some consume_outcome [of a sid s n] show ?thesis
        by (auto intro: state_ok_update)
    qed (use consume in \<open>simp add: acceptor_consume_def\<close>)
  qed (use consume in \<open>simp add: acceptor_consume_def\<close>)
next
  case (send a sid bs r a')
  have "state_ok (ac_put a sid (s\<lparr>ss_send_credit := ss_send_credit s - k\<rparr>))"
    if "ac_get a sid = Some s" for s k
    using send.prems that state_okD [OF send.prems that]
    by (intro state_ok_update) (auto simp: stream_state_ok_def)
  with send show ?case
    by (auto simp: try_send_data_def split: if_splits option.splits)
next
  case (close a sid r a')
  have "state_ok (ac_put a sid (s\<lparr>ss_local_closed := True\<rparr>))"
    if "ac_get a sid = Some s" "\<not> ss_peer_closed s" for s
    using close.prems that state_okD [OF close.prems that(1)]
    by (intro state_ok_update) (auto simp: stream_state_ok_def)
  with close show ?case
    by (auto simp: close_write_def Let_def state_ok_update(2) split: if_splits option.splits)
next
  case (reset a sid reason r a')
  then show ?case by (auto simp: acceptor_reset_def state_ok_update(2) split: if_splits)
next
  case (eof a out a')
  have "acceptor_ok a \<Longrightarrow> acceptor_ok (a\<lparr>ac_streams := []\<rparr>)"
    by (rule acceptor_okI) (simp_all add: acceptor_ok_def ac_get_def)
  with eof show ?case by (auto simp: acceptor_finish_eof_def state_ok_def input_ok_streams)
qed

lemma reachable_ok: "acceptor_reachable l a \<Longrightarrow> state_ok a"
  by (induction rule: acceptor_reachable.induct) (auto simp: new_ok step_preserves)

subsection \<open>Reads of any size\<close>

definition mo_append :: "mux_output \<Rightarrow> mux_output \<Rightarrow> mux_output" where
  "mo_append p q =
     \<lparr>mo_frames = mo_frames p @ mo_frames q, mo_events = mo_events p @ mo_events q,
      mo_refusals = mo_refusals p @ mo_refusals q,
      mo_writable_streams = mo_writable_streams p @ mo_writable_streams q\<rparr>"

lemma mo_append_default [simp]: "mo_append out mux_output_default = out" "mo_append mux_output_default out = out"
  by (simp_all add: mo_append_def mux_output_default_def)

lemma mo_append_put [simp]:
  "put_frame (mo_append p q) f = mo_append p (put_frame q f)"
  "put_event (mo_append p q) e = mo_append p (put_event q e)"
  "mo_append p q\<lparr>mo_refusals := mo_refusals (mo_append p q) @ rs\<rparr>
    = mo_append p (q\<lparr>mo_refusals := mo_refusals q @ rs\<rparr>)"
  "mo_append p q\<lparr>mo_writable_streams := mo_writable_streams (mo_append p q) @ ws\<rparr>
    = mo_append p (q\<lparr>mo_writable_streams := mo_writable_streams q @ ws\<rparr>)"
  by (simp_all add: mo_append_def put_frame_def put_event_def)

lemma handler_append [simp]:
  "refuse_violation v c a (mo_append p q) = map_prod id (mo_append p) (refuse_violation v c a q)"
  "refuse f c a (mo_append p q) = map_prod id (mo_append p) (refuse f c a q)"
  "mark_peer_closed sid a (mo_append p q) = map_prod id (mo_append p) (mark_peer_closed sid a q)"
  by (simp_all add: refuse_violation_def refuse_def mark_peer_closed_def Let_def split: option.split)

lemma handle_open_append [simp]:
  "handle_open f a (mo_append p q) = map_prod id (mo_append p) (handle_open f a q)"
proof -
  define opens where "opens \<longleftrightarrow> payload f \<noteq> [] \<or> flags f AND FLAG_DATA \<noteq> 0"
  define valid where "valid \<longleftrightarrow> unat (stream_id f) mod 2 = 1
    \<and> (case ac_peer_high_water a of None \<Rightarrow> True | Some highest \<Rightarrow> stream_id f > highest)"
  show ?thesis
    unfolding handle_open_def Let_def opens_def [symmetric] valid_def [symmetric]
    by (cases opens; cases valid) (simp_all split: prod.split sum.split)
qed

lemma handle_append [simp]:
  "handle_data f c a (mo_append p q) = map_prod id (mo_append p) (handle_data f c a q)"
  "handle_reset f a (mo_append p q) = map_prod id (mo_append p) (handle_reset f a q)"
  "handle_window f a (mo_append p q) = map_prod id (mo_append p) (handle_window f a q)"
  by (simp_all add: handle_data_def handle_reset_def handle_window_def Let_def
      split: option.split prod.split sum.split list.split)

lemma handle_close_append [simp]:
  "handle_close f a (mo_append p q) = map_prod id (mo_append p) (handle_close f a q)"
  by (simp add: handle_close_def)

lemma handle_frame_append [simp]:
  "handle_frame f a (mo_append p q) = map_prod id (map_prod id (mo_append p)) (handle_frame f a q)"
proof (cases "stream_id f = 0")
  case True
  then show ?thesis
    by (auto simp: handle_frame_def handle_control_def split: option.split)
next
  case False
  have "map_prod id (mo_append p) (a, q) = (a, mo_append p q)" by simp
  with False show ?thesis
    unfolding handle_frame_def Let_def
    by (simp only: if_False map_prod_simp id_apply if_distrib [of "map_prod id (mo_append p)"]
        handler_append handle_open_append handle_append handle_close_append)
qed

lemma drain_decoder_append [simp]:
  "drain_decoder a (mo_append p q) = map_prod id (map_prod id (mo_append p)) (drain_decoder a q)"
proof (induction a q rule: drain_decoder.induct)
  case (1 a q)
  show ?case
    by (subst (1 2) drain_decoder.simps) (auto simp: 1 id_def split: prod.split sum.split option.split)
qed

lemma feed_byte_append [simp]:
  "feed_byte x a (mo_append p q) = map_prod id (map_prod id (mo_append p)) (feed_byte x a q)"
  by (simp add: feed_byte_def Let_def split: option.split)

lemma feed_bytes_onto:
  "feed_bytes bs a (mo_append p q) = map_prod id (map_prod id (mo_append p)) (feed_bytes bs a q)"
  by (induction bs arbitrary: a q) (simp_all split: prod.split sum.split)

fun feed_all :: "mux_acceptor \<Rightarrow> bytes list \<Rightarrow> (home_error + mux_output) \<times> mux_acceptor" where
  "feed_all a [] = (Inr mux_output_default, a)"
| "feed_all a (bs # reads) =
     (case acceptor_feed a bs of
        (Inl e, a') \<Rightarrow> (Inl e, a')
      | (Inr out, a') \<Rightarrow>
          (case feed_all a' reads of
             (Inl e, a'') \<Rightarrow> (Inl e, a'')
           | (Inr out', a'') \<Rightarrow> (Inr (mo_append out out'), a'')))"

lemma acceptor_feed_append:
  "acceptor_feed a (xs @ ys) =
     (case acceptor_feed a xs of
        (Inl e, a') \<Rightarrow> (Inl e, a')
      | (Inr out, a') \<Rightarrow>
          (case acceptor_feed a' ys of
             (Inl e, a'') \<Rightarrow> (Inl e, a'')
           | (Inr out', a'') \<Rightarrow> (Inr (mo_append out out'), a'')))"
proof -
  obtain r b out where xs: "feed_bytes xs a mux_output_default = (r, b, out)" by (metis prod_cases3)
  obtain r' b' out' where ys: "feed_bytes ys b mux_output_default = (r', b', out')" by (metis prod_cases3)
  have "feed_bytes ys b out = (r', b', mo_append out out')"
    using feed_bytes_onto [of ys b out mux_output_default] by (simp add: ys)
  then show ?thesis
    by (simp add: acceptor_feed_def feed_bytes_append xs ys split: sum.split)
qed

lemma feed_all_concat: "feed_all a rs = acceptor_feed a (concat rs)"
proof (induction rs arbitrary: a)
  case Nil
  then show ?case by (simp add: acceptor_feed_def)
next
  case (Cons r rs)
  then show ?case by (simp add: acceptor_feed_append split: prod.split sum.split)
qed

subsection \<open>The frame-level machine\<close>

text \<open>What a carrier brings: a whole frame, or a header with the reserved bit and its payload.\<close>

datatype carrier_item = Whole frame | Reserved u32 u8 bytes

fun item_ok :: "carrier_item \<Rightarrow> bool" where
  "item_ok (Whole f) \<longleftrightarrow> encodable f"
| "item_ok (Reserved sid fl p) \<longleftrightarrow> sid \<noteq> 0 \<and> fl AND FLAG_RESERVED_MASK \<noteq> 0 \<and> length p \<le> MAX_PAYLOAD"

fun item_wire :: "carrier_item \<Rightarrow> bytes" where
  "item_wire (Whole f) = wire f"
| "item_wire (Reserved sid fl p) = wire (frame_new sid fl p)"

fun handle_item :: "carrier_item \<Rightarrow> ((home_error + unit) \<times> mux_acceptor \<times> mux_output) handler" where
  "handle_item (Whole f) a out = handle_frame f a out"
| "handle_item (Reserved sid fl p) a out = (Inr (), refuse (frame_new sid fl p) ClassProtocol a out)"

fun handle_items :: "carrier_item list \<Rightarrow> ((home_error + unit) \<times> mux_acceptor \<times> mux_output) handler" where
  "handle_items [] a out = (Inr (), a, out)"
| "handle_items (i # is) a out =
     (case handle_item i a out of
        (Inl e, a', out') \<Rightarrow> (Inl e, a', out')
      | (Inr _, a', out') \<Rightarrow> handle_items is a' out')"

lemma wire_header:
  assumes "length (payload f) \<le> MAX_PAYLOAD"
  obtains h where "wire f = h @ payload f" and "length h = HEADER_LEN" and "header_sid h = stream_id f"
    and "h ! 4 = flags f" and "header_len h = length (payload f)"
proof (rule that)
  let ?h = "u32_to_be_bytes (stream_id f) @ [flags f] @ u24_to_bytes (of_nat (length (payload f)))"
  have "length (payload f) < 2 ^ 24" using assms by (simp add: MAX_PAYLOAD_def)
  then show "header_sid ?h = stream_id f" "?h ! 4 = flags f" "header_len ?h = length (payload f)"
    "length ?h = HEADER_LEN"
    by (simp_all add: header_sid_def header_len_def u32_to_be_bytes_def u24_to_bytes_def HEADER_LEN_def)
qed (simp add: wire_def)

lemma feed_bytes_item:
  assumes "idle a" and "run_ok m a out" and "item_ok i"
  shows "feed_bytes (item_wire i) a out = handle_item i a out"
proof (cases i)
  case (Whole f)
  with assms(3) obtain h where "wire f = h @ payload f" "length h = HEADER_LEN" "header_sid h = stream_id f"
    "h ! 4 = flags f" "header_len h = length (payload f)"
    by (auto simp: encodable_def elim: wire_header)
  with Whole assms feed_bytes_frame [OF assms(1,2), of h "payload f"] show ?thesis
    by (simp add: encodable_def)
next
  case (Reserved sid fl p)
  let ?f = "frame_new sid fl p"
  from Reserved assms(3) obtain h where "wire ?f = h @ p" "length h = HEADER_LEN" "header_sid h = sid"
    "h ! 4 = fl" "header_len h = length p"
    using wire_header [of ?f] by auto
  with Reserved assms feed_bytes_refused_frame [OF assms(1,2), of h p] show ?thesis
    by (simp add: refuse_def frame_violation_home_def header_violation_def)
qed

lemma handle_item_ok:
  assumes "idle a" and "run_ok m a out" and "handle_item i a out = (r, a', out')"
  shows "idle a' \<and> run_ok m a' out'"
proof (cases i)
  case (Whole f)
  with assms show ?thesis using handle_frame_ok [of m a out f] idle_handle_frame [of m a out f] by auto
next
  case (Reserved sid fl p)
  with assms show ?thesis
    using refuse_ok [of m a out "frame_new sid fl p"] idle_same_input [OF assms(1)] by auto
qed

lemma feed_bytes_items:
  "idle a \<Longrightarrow> run_ok m a out \<Longrightarrow> list_all item_ok is \<Longrightarrow>
     feed_bytes (concat (map item_wire is)) a out = handle_items is a out"
proof (induction "is" arbitrary: a out)
  case (Cons i "is")
  obtain r a' out' where eq: "handle_item i a out = (r, a', out')" by (metis prod_cases3)
  with Cons handle_item_ok [OF Cons.prems(1,2) eq] show ?case
    by (simp add: feed_bytes_append feed_bytes_item split: sum.split)
qed simp

subsection \<open>An example run\<close>

text \<open>
  A carrier with room for one stream: a stream with two bytes, an OPEN over the limit, a
  header with the reserved bit on the open stream, and a stream in the place it frees.
\<close>

definition example_limits :: mux_limits where
  "example_limits = \<lparr>max_concurrent_streams = 1, decoder_buffer_bytes = 16777223\<rparr>"

definition example_acceptor :: mux_acceptor where
  "example_acceptor =
     \<lparr>ac_limits = example_limits, ac_decoder = decoder_new, ac_decoder_buffered_bytes = 0,
      ac_header_buffer = [], ac_payload_remaining = None, ac_discarded_payload_remaining = None,
      ac_peer_high_water = None, ac_streams = [], ac_refusals = refusal_counts_default\<rparr>"

definition example_items :: "carrier_item list" where
  "example_items =
     [Whole (frame_new 1 (FLAG_OPEN OR FLAG_DATA) [7, 8]), Whole (frame_new 3 FLAG_OPEN []),
      Reserved 1 0x81 [9], Whole (frame_new 5 FLAG_OPEN [])]"

definition example_output :: mux_output where
  "example_output =
     \<lparr>mo_frames = [reset_frame 3 RESET_STREAM_LIMIT_EXCEEDED, reset_frame 1 RESET_PROTOCOL_ERROR],
      mo_events = [Opened 1, Data 1 [7, 8], Reset 1 ProtocolError, Opened 5],
      mo_refusals =
        [\<lparr>rf_class = ClassStreamLimit,
          rf_violation = Some \<lparr>fv_stream_id = 3, fv_flags = FLAG_OPEN, fv_length = 0\<rparr>\<rparr>,
         \<lparr>rf_class = ClassProtocol,
          rf_violation = Some \<lparr>fv_stream_id = 1, fv_flags = 0x81, fv_length = 1\<rparr>\<rparr>],
      mo_writable_streams = []\<rparr>"

definition example_stream :: stream_state where
  "example_stream =
     \<lparr>ss_receive_window = recv_new, ss_debited_not_consumed = 0, ss_send_credit = INITIAL_WINDOW,
      ss_peer_closed = False, ss_local_closed = False\<rparr>"

definition example_after :: mux_acceptor where
  "example_after = example_acceptor\<lparr>ac_peer_high_water := Some 5, ac_streams := [(5, example_stream)],
     ac_refusals := refusal_counts_default\<lparr>rc_stream_limit := 1, rc_protocol := 1\<rparr>\<rparr>"

lemma example_new: "acceptor_new example_limits = Inr example_acceptor"
  by (simp add: acceptor_new_def limits_validate_def example_limits_def example_acceptor_def
      HEADER_LEN_def MAX_PAYLOAD_def)

lemma example_items_ok: "list_all item_ok example_items"
  by (simp add: example_items_def MAX_PAYLOAD_def flag_defs)

lemma example_run:
  "handle_items example_items example_acceptor mux_output_default = (Inr (), example_after, example_output)"
  by (simp add: example_items_def example_acceptor_def example_limits_def mux_output_default_def
      example_output_def example_after_def example_stream_def handle_frame_def handle_open_def
      flag_defs flags_valid_def debit_def recv_new_def window_consts ac_put_def ac_get_def
      refuse_def refuse_violation_def put_event_def put_frame_def ac_remove_stream_def
      frame_violation_home_def table_get_def table_put_def table_del_def class_reset_code_def
      saturating_inc_def U64_MAX_def refusal_counts_default_def Let_def)

lemma example_reachable: "acceptor_reachable example_limits example_acceptor"
  by (rule acceptor_reachable.new) (rule example_new)

lemma example_idle: "idle example_acceptor"
  using new_ok [OF example_new] by simp

lemma example_feed:
  "acceptor_feed example_acceptor (concat (map item_wire example_items)) = (Inr example_output, example_after)"
  using feed_bytes_items [OF example_idle run_ok_start example_items_ok] new_ok [OF example_new]
  by (simp add: acceptor_feed_def example_run state_ok_def)

lemma example_after_reachable: "acceptor_reachable example_limits example_after"
  by (rule acceptor_reachable.step [OF example_reachable]) (rule acceptor_step.feed [OF example_feed])

subsection \<open>Properties of the acceptor\<close>

text \<open>
  C3. Reading the carrier byte by byte is the frame-level machine. In any reachable state
  between frames, input that is a sequence of whole frames, and of frames refused for the
  reserved flag bit, cut into reads in any way, has exactly the effect of handling each
  frame once and in order: the same error, or the same outputs and the same final state.
\<close>

theorem acceptor_feed_refines:
  assumes "acceptor_reachable l a" and "idle a" and "list_all item_ok is"
    and "concat rs = concat (map item_wire is)"
  shows "feed_all a rs =
    (case handle_items is a mux_output_default of
       (Inl e, a', out) \<Rightarrow> (Inl e, a') | (Inr _, a', out) \<Rightarrow> (Inr out, a'))"
  using feed_bytes_items [OF assms(2) run_ok_start assms(3)] reachable_ok [OF assms(1)] assms(4)
  by (simp add: feed_all_concat acceptor_feed_def state_ok_def)

theorem acceptor_feed_refines_witness:
  "feed_all example_acceptor (map item_wire example_items) = (Inr example_output, example_after)"
  using acceptor_feed_refines [OF example_reachable example_idle example_items_ok, of "map item_wire example_items"]
  by (simp add: example_run)

text \<open>
  C5. Whatever bytes a peer sends in whatever state the acceptor has reached, reading them
  fails in one way only: a protocol refusal of a frame on stream zero. The decoder's buffer
  limit, the internal refusals and the frame decoder's own error are never the outcome, and
  a violation on any other stream does not end the carrier.
\<close>

theorem acceptor_feed_only_fatal:
  assumes "acceptor_reachable l a" and "acceptor_feed a bs = (Inl e, a')"
  shows "\<exists>v. e = Refused \<lparr>rf_class = ClassProtocol, rf_violation = Some v\<rparr> \<and> fv_stream_id v = 0"
  using feed_run [OF reachable_ok [OF assms(1)] assms(2)] by (simp add: fatal_def)

theorem acceptor_feed_only_fatal_witness:
  "\<exists>e a'. acceptor_feed example_acceptor (wire (frame_new 0 FLAG_DATA [])) = (Inl e, a')
     \<and> (\<exists>v. e = Refused \<lparr>rf_class = ClassProtocol, rf_violation = Some v\<rparr> \<and> fv_stream_id v = 0)"
proof -
  let ?f = "frame_new 0 FLAG_DATA []"
  have "handle_items [Whole ?f] example_acceptor mux_output_default =
      (Inl (Refused \<lparr>rf_class = ClassProtocol, rf_violation = Some (frame_violation_home ?f)\<rparr>),
       example_acceptor, mux_output_default)"
    by (simp add: handle_frame_def handle_control_def flag_defs)
  then have feed: "acceptor_feed example_acceptor (wire ?f) =
      (Inl (Refused \<lparr>rf_class = ClassProtocol, rf_violation = Some (frame_violation_home ?f)\<rparr>), example_acceptor)"
    using feed_bytes_items [OF example_idle run_ok_start, of "[Whole ?f]"] new_ok [OF example_new]
    by (simp add: acceptor_feed_def state_ok_def MAX_PAYLOAD_def)
  with acceptor_feed_only_fatal [OF example_reachable feed] show ?thesis by blast
qed

text \<open>
  C4. The state the acceptor keeps, through any interleaving of input and local operations:
  never more streams than the limit, one entry per identifier, only odd identifiers no
  higher than the highest one seen; per stream, receive credit and unconsumed bytes within
  one window and send credit within its maximum; and consuming bytes never reaches the
  panic of the receive window, it succeeds exactly for the bytes that were delivered.
\<close>

theorem acceptor_invariant:
  assumes "acceptor_reachable l a"
  shows "distinct (map fst (ac_streams a)) \<and> length (ac_streams a) \<le> max_concurrent_streams (ac_limits a)
    \<and> (\<forall>sid s. ac_get a sid = Some s \<longrightarrow>
         odd (unat sid) \<and> unat sid \<le> high_water a
         \<and> rw_credit (ss_receive_window s) + ss_debited_not_consumed s \<le> INITIAL_WINDOW
         \<and> ss_send_credit s \<le> MAX_SEND_CREDIT
         \<and> (\<forall>n. (\<exists>out a'. acceptor_consume a sid n = (Inr out, a')) \<longleftrightarrow> n \<le> ss_debited_not_consumed s)
         \<and> (\<forall>n > ss_debited_not_consumed s. acceptor_consume a sid n = (Inl (Err internal_refusal), a)))"
proof (intro conjI allI impI)
  have ok: "state_ok a" using assms by (rule reachable_ok)
  show "distinct (map fst (ac_streams a))" "length (ac_streams a) \<le> max_concurrent_streams (ac_limits a)"
    using ok by (simp_all add: state_ok_def acceptor_ok_def table_ok_def)
  fix sid s n
  assume s: "ac_get a sid = Some s"
  have "stream_state_ok s" using ok s by (rule state_okD)
  then show "rw_credit (ss_receive_window s) + ss_debited_not_consumed s \<le> INITIAL_WINDOW"
    "ss_send_credit s \<le> MAX_SEND_CREDIT"
    using rw.bounded [of "ss_receive_window s"] by (simp_all add: stream_state_ok_def)
  show "odd (unat sid)" "unat sid \<le> high_water a"
    using acceptor_okD [OF _ s] ok by (simp_all add: state_ok_def)
  show over: "acceptor_consume a sid n = (Inl (Err internal_refusal), a)" if "ss_debited_not_consumed s < n" for n
    using that s by (simp add: acceptor_consume_def)
  show "(\<exists>out a'. acceptor_consume a sid n = (Inr out, a')) \<longleftrightarrow> n \<le> ss_debited_not_consumed s"
    using over [of n] consume_outcome [OF ok s, of n] by (cases "n \<le> ss_debited_not_consumed s") auto
qed

theorem acceptor_invariant_witness:
  "length (ac_streams example_after) \<le> 1 \<and> unat (5 :: u32) \<le> high_water example_after
     \<and> \<not> (\<exists>out a'. acceptor_consume example_after 5 1 = (Inr out, a'))"
proof -
  have "ac_get example_after 5 = Some example_stream" "ss_debited_not_consumed example_stream = 0"
    "ac_limits example_after = example_limits" "max_concurrent_streams example_limits = 1"
    by (simp_all add: example_after_def example_acceptor_def example_limits_def ac_get_def table_get_def
        example_stream_def)
  with acceptor_invariant [OF example_after_reachable] show ?thesis by (metis not_one_le_zero)
qed

text \<open>
  C20. What one read produces. The streams it opens have odd identifiers, strictly
  increasing and above every identifier the carrier used before, so an identifier is never
  opened twice; and every refusal it reports is answered by exactly one RESET frame with
  the code of its class, in the same order, with no other RESET among the output.
\<close>

theorem acceptor_feed_output:
  assumes "acceptor_reachable l a" and "acceptor_feed a bs = (Inr out, a')"
  shows "sorted_wrt (<) (opened (mo_events out))
    \<and> (\<forall>i\<in>set (opened (mo_events out)). odd i \<and> high_water a < i \<and> i \<le> high_water a')
    \<and> high_water a \<le> high_water a'
    \<and> resets out = map refusal_reset (mo_refusals out)"
  using feed_run [OF reachable_ok [OF assms(1)] assms(2)] by (simp add: run_ok_def)

theorem acceptor_feed_output_witness:
  "opened (mo_events example_output) = [1, 5] \<and> sorted_wrt (<) (opened (mo_events example_output))
     \<and> high_water example_acceptor \<le> high_water example_after
     \<and> length (resets example_output) = 2 \<and> resets example_output = map refusal_reset (mo_refusals example_output)"
proof -
  have "opened (mo_events example_output) = [1, 5]" "length (mo_refusals example_output) = 2"
    by (simp_all add: example_output_def)
  with acceptor_feed_output [OF example_reachable example_feed] show ?thesis by simp
qed

text \<open>
  C28. At the end of the carrier every stream is dropped and \<open>PeerGone\<close> reports a truncation
  exactly when the input is inside a frame that is being read. Inside the payload of a frame
  that was refused for its reserved flag bit the report is \<open>truncated: false\<close>, although the
  peer stopped in the middle of a frame.
\<close>

theorem acceptor_eof_truncated:
  assumes "acceptor_reachable l a"
  shows "acceptor_finish_eof a =
    (mux_output_default\<lparr>mo_events := [PeerGone (\<not> idle a \<and> ac_discarded_payload_remaining a = None)]\<rparr>,
     a\<lparr>ac_streams := []\<rparr>)"
proof -
  have "input_ok a" using reachable_ok [OF assms] by (simp add: state_ok_def)
  then have "ac_decoder_buffered_bytes a \<noteq> 0 \<longleftrightarrow> \<not> idle a \<and> ac_discarded_payload_remaining a = None"
    by cases (auto simp: idle_def in_header_def in_payload_def skipping_def HEADER_LEN_def)
  then show ?thesis
    by (simp add: acceptor_finish_eof_def put_event_def mux_output_default_def)
qed

theorem acceptor_eof_truncated_witness:
  "\<exists>out a. acceptor_feed example_acceptor [0, 0, 0, 1, 0x82, 0, 0, 9, 1, 2, 3] = (Inr out, a)
     \<and> ac_discarded_payload_remaining a = Some 6
     \<and> mo_events (fst (acceptor_finish_eof a)) = [PeerGone False]"
proof -
  have "\<exists>out a. acceptor_feed example_acceptor [0, 0, 0, 1, 0x82, 0, 0, 9, 1, 2, 3] = (Inr out, a)
      \<and> ac_discarded_payload_remaining a = Some 6"
    by (simp add: acceptor_feed_def feed_byte_def example_acceptor_def example_limits_def
        usize_checked_add_def usize_checked_sub_def HEADER_LEN_def flag_defs u24_value_def
        u32_from_be_bytes_def refuse_violation_def ac_get_def table_get_def Let_def)
  then obtain out a where a: "acceptor_feed example_acceptor [0, 0, 0, 1, 0x82, 0, 0, 9, 1, 2, 3] = (Inr out, a)"
    "ac_discarded_payload_remaining a = Some 6" by blast
  have "acceptor_reachable example_limits a"
    by (rule acceptor_reachable.step [OF example_reachable]) (rule acceptor_step.feed [OF a(1)])
  with a acceptor_eof_truncated [of example_limits a] show ?thesis by auto
qed

end
