(* ===== verification/Spl_Pair_Window.thy ===== *)
theory Spl_Pair_Window
  imports Spl_Relay Spl_Acceptor_Run
begin

text \<open>
  Anonymous pairing admission (\<open>crates/spl-home/src/pair_window.rs\<close>), with the configuration and
  the acceptance of a carrier that it uses (\<open>config.rs\<close>, \<open>connection.rs\<close>). What rustls decides is
  the parameter \<open>tls_api\<close>: whether a server configuration can be built, and whether the handshake
  on a carrier completes. An accepted connection is represented by the acceptor that its driver
  starts with. An \<open>Instant\<close> is a natural number.
\<close>

subsection \<open>Accepting a carrier\<close>

record ('key, 'v, 'sc, 'io) tls_api =
  rustls_server_config :: "bytes list \<Rightarrow> 'key \<Rightarrow> 'v \<Rightarrow> 'sc option"
  no_client_auth :: 'v
  tls_handshake :: "'sc \<Rightarrow> 'io \<Rightarrow> bool"

record ('key, 'v) home_config =
  hc_certificate_chain :: "bytes list"
  hc_private_key :: 'key
  hc_client_cert_verifier :: 'v
  hc_mux_limits :: mux_limits

definition build_server_config :: "('key, 'v, 'sc, 'io) tls_api \<Rightarrow> bytes list \<Rightarrow> 'key \<Rightarrow> 'v \<Rightarrow> home_error + 'sc" where
  "build_server_config T certificate_chain private_key client_cert_verifier =
     ok_or (rustls_server_config T certificate_chain private_key client_cert_verifier) TlsConfig"

definition home_server_config :: "('key, 'v, 'sc, 'io) tls_api \<Rightarrow> ('key, 'v) home_config \<Rightarrow> home_error + 'sc" where
  "home_server_config T c =
     build_server_config T (hc_certificate_chain c) (hc_private_key c) (hc_client_cert_verifier c)"

definition accept_with_server_config ::
  "('key, 'v, 'sc, 'io) tls_api \<Rightarrow> 'io \<Rightarrow> 'sc \<Rightarrow> mux_limits \<Rightarrow> home_error + mux_acceptor" where
  "accept_with_server_config T io server_config limits =
     (if \<not> tls_handshake T server_config io then Inl Tls else acceptor_new limits)"

definition home_accept ::
  "('key, 'v, 'sc, 'io) tls_api \<Rightarrow> 'io \<Rightarrow> ('key, 'v) home_config \<Rightarrow> home_error + mux_acceptor" where
  "home_accept T io config =
     bind_res (home_server_config T config) (\<lambda>sc. accept_with_server_config T io sc (hc_mux_limits config))"

subsection \<open>The window\<close>

record 'key pair_window_config =
  pc_certificate_chain :: "bytes list"
  pc_private_key :: 'key
  pc_ca_certificate :: bytes
  pc_mux_limits :: mux_limits

record 'key pair_window =
  pw_relay_key :: str
  pw_expires_at :: nat
  pw_consumed :: bool
  pw_config :: "'key pair_window_config"
  pw_instance_id :: str

definition pair_server_config :: "('key, 'v, 'sc, 'io) tls_api \<Rightarrow> 'key pair_window_config \<Rightarrow> home_error + 'sc" where
  "pair_server_config T c =
     build_server_config T (pc_certificate_chain c) (pc_private_key c) (no_client_auth T)"

definition HEX :: bytes where "HEX = ascii ''0123456789abcdef''"

text \<open>The module's own \<open>hex_lower\<close>, by table.\<close>

definition hex_lower_table :: "bytes \<Rightarrow> str" where
  "hex_lower_table bs =
     concat (map (\<lambda>b. [HEX ! unat (drop_bit 4 b), HEX ! unat (b AND 0x0f)]) bs)"

text \<open>The loop over the expected key, with the index of its next byte.\<close>

fun key_difference :: "bytes \<Rightarrow> nat \<Rightarrow> bytes \<Rightarrow> nat \<Rightarrow> nat" where
  "key_difference presented index [] difference = difference"
| "key_difference presented index (e # es) difference =
     (let received = (if index < length presented then presented ! index else 0)
      in key_difference presented (index + 1) es (difference OR unat (received XOR e)))"

definition relay_key_matches :: "str \<Rightarrow> str \<Rightarrow> bool" where
  "relay_key_matches presented expected \<longleftrightarrow>
     key_difference presented 0 expected (length presented XOR length expected) = 0"

definition pair_window_open ::
  "('spki, 'k) key_api \<Rightarrow> bytes \<Rightarrow> nat \<Rightarrow> 'key pair_window_config \<Rightarrow> home_error fault + 'key pair_window" where
  "pair_window_open K secret expires_at config =
     bind_res (map_sum (\<lambda>_. Err PairWindowCaIdentity) id (extract_spki_der (pc_ca_certificate config))) (\<lambda>spki.
     bind_res (map_sum (\<lambda>_. Err PairWindowCaIdentity) id (jid_from_spki K spki)) (\<lambda>identity.
     bind_res (map_sum Panic id identity) (\<lambda>instance_id.
       Inr \<lparr>pw_relay_key = hex_lower_table (derive_rk K secret), pw_expires_at = expires_at,
            pw_consumed = False, pw_config = config, pw_instance_id = instance_id\<rparr>)))"

definition relay_key_hex :: "'key pair_window \<Rightarrow> str" where
  "relay_key_hex w = pw_relay_key w"

definition admit ::
  "('key, 'v, 'sc, 'io) tls_api \<Rightarrow> 'key pair_window \<Rightarrow> 'io \<Rightarrow> str \<Rightarrow> nat \<Rightarrow> (home_error + mux_acceptor) \<times> 'key pair_window" where
  "admit T w io presented_rk now =
     (if \<not> relay_key_matches presented_rk (pw_relay_key w) then (Inl (PairWindowRefused WrongRelayKey), w)
      else if now \<ge> pw_expires_at w then (Inl (PairWindowRefused Expired), w)
      else if pw_consumed w then (Inl (PairWindowRefused Consumed), w)
      else
        (case bind_res (pair_server_config T (pw_config w))
                (\<lambda>sc. accept_with_server_config T io sc (pc_mux_limits (pw_config w))) of
           Inl e \<Rightarrow> (Inl e, w)
         | Inr connection \<Rightarrow> (Inr connection, w\<lparr>pw_consumed := True\<rparr>)))"

subsection \<open>Keys\<close>

lemma hex_table: "n < 16 \<Longrightarrow> HEX ! n = hex_digit n"
proof -
  have "list_all (\<lambda>n. HEX ! n = hex_digit n) [0..<16]"
    by (simp add: HEX_def hex_digit_def upt_conv_Cons)
  then show "n < 16 \<Longrightarrow> HEX ! n = hex_digit n" by (simp add: list_all_iff)
qed

lemma hex_lower_table_eq: "hex_lower_table bs = hex_lower bs"
  using nibble_bounds by (simp add: hex_lower_table_def hex_lower_def hex_table)

lemma key_difference_0:
  "key_difference p i es d = 0 \<longleftrightarrow> d = 0 \<and> (\<forall>j<length es. (if i + j < length p then p ! (i + j) else 0) = es ! j)"
proof (induction p i es d rule: key_difference.induct)
  case (2 p i e es d)
  have x: "unat ((if i < length p then p ! i else 0) XOR e) = 0 \<longleftrightarrow> (if i < length p then p ! i else 0) = e"
    by (simp add: unat_eq_0) (auto simp: bit_eq_iff bit_simps)
  have "(\<forall>j<length (e # es). (if i + j < length p then p ! (i + j) else 0) = (e # es) ! j) \<longleftrightarrow>
      (if i < length p then p ! i else 0) = e
      \<and> (\<forall>j<length es. (if (i + 1) + j < length p then p ! ((i + 1) + j) else 0) = es ! j)"
    by (simp add: All_less_Suc2)
  with 2 x show ?case by (simp add: Let_def or_eq_0_iff)
qed simp

text \<open>The comparison is equality, also for keys of different lengths.\<close>

lemma relay_key_matches_iff: "relay_key_matches p e \<longleftrightarrow> p = e"
proof -
  have "length p XOR length e = 0 \<longleftrightarrow> length p = length e"
    by (auto simp: bit_eq_iff bit_simps)
  then show ?thesis
    by (auto simp: relay_key_matches_def key_difference_0 list_eq_iff_nth_eq)
qed

subsection \<open>Histories\<close>

text \<open>Admission attempts in the order in which \<open>&mut self\<close> serializes them.\<close>

fun admit_run ::
  "('key, 'v, 'sc, 'io) tls_api \<Rightarrow> 'key pair_window \<Rightarrow> ('io \<times> str \<times> nat) list
     \<Rightarrow> (home_error + mux_acceptor) list \<times> 'key pair_window" where
  "admit_run T w [] = ([], w)"
| "admit_run T w ((io, rk, now) # attempts) =
     (let (r, w) = admit T w io rk now; (rs, w) = admit_run T w attempts in (r # rs, w))"

text \<open>What an attempt needs apart from a fresh window, and the connection that it then gets.\<close>

definition attempt_outcome ::
  "('key, 'v, 'sc, 'io) tls_api \<Rightarrow> 'key pair_window \<Rightarrow> 'io \<times> str \<times> nat \<Rightarrow> home_error + mux_acceptor" where
  "attempt_outcome T w = (\<lambda>(io, rk, now).
     if rk \<noteq> pw_relay_key w then Inl (PairWindowRefused WrongRelayKey)
     else if now \<ge> pw_expires_at w then Inl (PairWindowRefused Expired)
     else bind_res (pair_server_config T (pw_config w))
            (\<lambda>sc. accept_with_server_config T io sc (pc_mux_limits (pw_config w))))"

definition admissible where
  "admissible T w attempt \<longleftrightarrow> \<not> isl (attempt_outcome T w attempt)"

lemma admit_fresh:
  assumes "\<not> pw_consumed w"
  shows "admit T w io rk now =
    (attempt_outcome T w (io, rk, now), if admissible T w (io, rk, now) then w\<lparr>pw_consumed := True\<rparr> else w)"
  using assms
  by (auto simp: admit_def attempt_outcome_def admissible_def relay_key_matches_iff split: sum.split)

lemma admit_consumed:
  assumes "pw_consumed w"
  shows "snd (admit T w io rk now) = w" and "isl (fst (admit T w io rk now))"
  using assms by (auto simp: admit_def)

lemma outcome_frame:
  "attempt_outcome T (w\<lparr>pw_consumed := c\<rparr>) = attempt_outcome T w" "admissible T (w\<lparr>pw_consumed := c\<rparr>) = admissible T w"
  by (auto simp: attempt_outcome_def admissible_def fun_eq_iff)

lemma admit_run_consumed:
  "pw_consumed w \<Longrightarrow> snd (admit_run T w attempts) = w \<and> list_all isl (fst (admit_run T w attempts))"
proof (induction attempts arbitrary: w)
  case (Cons a attempts)
  obtain io rk now where "a = (io, rk, now)" by (cases a)
  with Cons admit_consumed [OF Cons.prems, of T io rk now] show ?case by (auto simp: split_beta Let_def)
qed simp

lemma length_admit_run [simp]: "length (fst (admit_run T w attempts)) = length attempts"
  by (induction attempts arbitrary: w) (auto simp: split_beta Let_def)

lemma admit_run_first:
  assumes "\<not> pw_consumed w" and "k < length attempts"
  shows "if list_ex (admissible T w) (take k attempts) then isl (fst (admit_run T w attempts) ! k)
    else fst (admit_run T w attempts) ! k = attempt_outcome T w (attempts ! k)"
  using assms
proof (induction attempts arbitrary: w k)
  case (Cons a attempts)
  obtain io rk now where a: "a = (io, rk, now)" by (cases a)
  show ?case
  proof (cases k)
    case 0
    with Cons.prems a show ?thesis by (simp add: admit_fresh split_beta Let_def)
  next
    case (Suc j)
    have "isl (fst (admit_run T (w\<lparr>pw_consumed := True\<rparr>) attempts) ! j)"
      using admit_run_consumed [of "w\<lparr>pw_consumed := True\<rparr>" T attempts] Cons.prems(2) Suc
      by (simp add: list_all_length)
    with Cons a Suc show ?thesis by (simp add: admit_fresh split_beta Let_def)
  qed
qed simp

lemma open_fresh:
  assumes "pair_window_open K secret expires_at config = Inr w"
  shows "\<not> pw_consumed w" and "pw_relay_key w = hex_lower (derive_rk K secret)"
    and "pw_expires_at w = expires_at" and "pw_config w = config"
  using assms by (auto simp: pair_window_open_def bind_res_Inr_iff hex_lower_table_eq)

text \<open>
  C31. Pairing windows admit once. Take a window opened for a secret and any sequence of
  admission attempts. The first attempt that presents the hexadecimal rendezvous key of the
  secret before the expiry, on a carrier whose handshake completes, is admitted, with a fresh
  acceptor under the configured limits. Every attempt before it gets its own refusal and leaves
  the window as it was; every attempt after it is refused.
\<close>

theorem pair_window_admits_once:
  assumes "pair_window_open K secret expires_at config = Inr w" and "k < length attempts"
  shows "let results = fst (admit_run T w attempts);
             outcome = (\<lambda>(io, rk, now).
               if rk \<noteq> hex_lower (derive_rk K secret) then Inl (PairWindowRefused WrongRelayKey)
               else if now \<ge> expires_at then Inl (PairWindowRefused Expired)
               else bind_res (pair_server_config T config) (\<lambda>sc. accept_with_server_config T io sc (pc_mux_limits config)))
    in if list_ex (\<lambda>a. \<not> isl (outcome a)) (take k attempts) then isl (results ! k)
       else results ! k = outcome (attempts ! k)"
proof -
  have "(\<lambda>a. \<not> isl (attempt_outcome T w a)) = admissible T w" by (auto simp: admissible_def)
  moreover have "attempt_outcome T w = (\<lambda>(io, rk, now).
               if rk \<noteq> hex_lower (derive_rk K secret) then Inl (PairWindowRefused WrongRelayKey)
               else if now \<ge> expires_at then Inl (PairWindowRefused Expired)
               else bind_res (pair_server_config T config) (\<lambda>sc. accept_with_server_config T io sc (pc_mux_limits config)))"
    by (simp only: attempt_outcome_def open_fresh(2-4) [OF assms(1)])
  ultimately show ?thesis
    using admit_run_first [OF open_fresh(1) [OF assms(1)] assms(2), of T] by (simp only: Let_def)
qed

definition example_tls :: "(unit, unit, unit, unit) tls_api" where
  "example_tls = \<lparr>rustls_server_config = (\<lambda>chain key v. Some ()), no_client_auth = (), tls_handshake = (\<lambda>sc io. True)\<rparr>"

definition example_window_config :: "unit pair_window_config" where
  "example_window_config = \<lparr>pc_certificate_chain = [], pc_private_key = (), pc_ca_certificate = example_cert,
     pc_mux_limits = limits_default\<rparr>"

lemma example_window:
  "\<exists>w. pair_window_open example_keys [1, 2, 3, 4, 5, 6, 7, 8] 100 example_window_config = Inr w"
proof -
  have spki: "extract_spki_der example_cert = Inr example_spki"
    using extract_spki [OF example_x509] by (simp add: example_cert_def example_tbs_def example_spki_def)
  have "\<exists>u. jid_from_public_key example_keys example_spki = Inr u"
    by (simp add: jid_from_public_key_def example_keys_def uuid_string_def Let_def del: ascii_simps)
  with spki show ?thesis
    by (auto simp: pair_window_open_def example_window_config_def jid_from_spki_def example_keys_def)
qed

theorem pair_window_admits_once_witness:
  "\<exists>w. pair_window_open example_keys [1, 2, 3, 4, 5, 6, 7, 8] 100 example_window_config = Inr w
     \<and> isl (fst (admit_run example_tls w [((), pw_relay_key w, 50), ((), pw_relay_key w, 60)]) ! 1)"
proof -
  obtain w where w: "pair_window_open example_keys [1, 2, 3, 4, 5, 6, 7, 8] 100 example_window_config = Inr w"
    using example_window by blast
  have "\<not> isl (acceptor_new limits_default)"
    by (simp add: acceptor_new_def limits_default_valid)
  then have "isl (fst (admit_run example_tls w [((), pw_relay_key w, 50), ((), pw_relay_key w, 60)]) ! 1)"
    using pair_window_admits_once [OF w, of 1 "[((), pw_relay_key w, 50), ((), pw_relay_key w, 60)]" example_tls] open_fresh(2) [OF w]
    by (simp add: Let_def example_tls_def example_window_config_def pair_server_config_def build_server_config_def
        accept_with_server_config_def)
  with w show ?thesis by blast
qed

end
