(* ===== verification/Spl_Home_Driver.thy ===== *)
theory Spl_Home_Driver
  imports Spl_Acceptor_Run
begin

text \<open>
  The driver of a listener connection and its stream handles
  (\<open>crates/spl-home/src/connection.rs\<close>). One record holds what the driver task owns (acceptor,
  pending bytes, ready queue, closing set), the channels between it and the handles (queues of
  commands and of signals), the atomics they share, and the private state of every handle. An
  iteration of the driver loop and a call on a handle are one step each; the interleaving of the
  atomic operations of the staging counter is the subject of the theory \<open>Spl_Staging\<close>.

  The environment decides how many operations on the TLS writer succeed (\<open>dv_writer\<close>, \<open>None\<close> for
  all of them) and what the clock shows (\<open>dv_clock\<close>). A stored waker is the flag \<open>sx_waker\<close>:
  whether a task has asked to be woken and has not been.
\<close>

subsection \<open>Shared status of a stream\<close>

definition STREAM_LIVE :: u8 where "STREAM_LIVE = 0"
definition STREAM_RESET :: u8 where "STREAM_RESET = 1"
definition STREAM_GONE :: u8 where "STREAM_GONE = 2"

definition MAX_STAGED_WRITE_BYTES_PER_STREAM :: nat where
  "MAX_STAGED_WRITE_BYTES_PER_STREAM = INITIAL_WINDOW"

record stream_status =
  sx_state :: u8
  sx_staged :: nat
  sx_waker :: bool

definition status_new :: stream_status where
  "status_new = \<lparr>sx_state = STREAM_LIVE, sx_staged = 0, sx_waker = False\<rparr>"

definition reserve_staging :: "stream_status \<Rightarrow> nat \<Rightarrow> nat \<times> stream_status" where
  "reserve_staging x requested =
     (let available = MAX_STAGED_WRITE_BYTES_PER_STREAM - sx_staged x in
      if available = 0 then (0, x\<lparr>sx_waker := True\<rparr>)
      else let granted = min requested available in (granted, x\<lparr>sx_staged := sx_staged x + granted\<rparr>))"

definition release_staging :: "stream_status \<Rightarrow> nat \<Rightarrow> stream_status" where
  "release_staging x bs = x\<lparr>sx_staged := sx_staged x - bs, sx_waker := False\<rparr>"

subsection \<open>Commands, signals and handles\<close>

datatype driver_command =
    CmdWrite u32 bytes
  | CmdConsumed u32 nat
  | CmdClose u32
  | CmdCancel u32
  | CmdReset u32 home_reset_reason
  | CmdWake
  | CmdCloseConnection

datatype stream_signal = SigData bytes | SigReadEof | SigReset | SigGone

datatype 'a poll = Ready 'a | Pending

datatype io_error = ConnectionReset | BrokenPipe str | UnexpectedEof

record home_stream =
  hm_signals :: "stream_signal list"
  hm_status :: stream_status
  hm_read_buffer :: bytes
  hm_read_eof :: bool
  hm_write_shutdown :: bool
  hm_dropped :: bool

definition home_stream_new :: home_stream where
  "home_stream_new = \<lparr>hm_signals = [], hm_status = status_new, hm_read_buffer = [], hm_read_eof = False,
     hm_write_shutdown = False, hm_dropped = False\<rparr>"

definition hm_state :: "home_stream \<Rightarrow> u8" where
  "hm_state h = sx_state (hm_status h)"

definition set_state :: "u8 \<Rightarrow> home_stream \<Rightarrow> home_stream" where
  "set_state v h = h\<lparr>hm_status := (hm_status h)\<lparr>sx_state := v\<rparr>\<rparr>"

text \<open>A signal to a handle that was dropped is lost.\<close>

definition send_signal :: "stream_signal \<Rightarrow> home_stream \<Rightarrow> home_stream" where
  "send_signal s h = (if hm_dropped h then h else h\<lparr>hm_signals := hm_signals h @ [s]\<rparr>)"

definition stream_error :: "home_stream \<Rightarrow> io_error option" where
  "stream_error h =
     (if hm_state h = STREAM_RESET then Some ConnectionReset
      else if hm_state h = STREAM_GONE then Some (BrokenPipe (ascii ''carrier closed''))
      else None)"

definition read_error :: "home_stream \<Rightarrow> io_error option" where
  "read_error h =
     (if hm_state h = STREAM_RESET then Some ConnectionReset
      else if hm_state h = STREAM_GONE then Some UnexpectedEof
      else None)"

text \<open>
  The loop of \<open>poll_read\<close>, for a buffer with room for \<open>n\<close> bytes; \<open>running\<close> tells whether the
  driver still holds its ends of the channels. The result is what the call returns, how many
  bytes it reports as consumed, and the handle. Nothing bounds the loop syntactically: it goes
  round again for every signal, and \<open>None\<close> would be a call that does not return.
\<close>

partial_function (option) poll_read_loop ::
  "bool \<Rightarrow> nat \<Rightarrow> home_stream \<Rightarrow> ((io_error + bytes) poll \<times> nat option \<times> home_stream) option" where
  "poll_read_loop running n h =
     (case read_error h of
        Some e \<Rightarrow> Some (Ready (Inl e), None, h\<lparr>hm_read_buffer := []\<rparr>)
      | None \<Rightarrow>
          if hm_read_buffer h \<noteq> [] then
            (let count = min n (length (hm_read_buffer h));
                 taken = take count (hm_read_buffer h);
                 h' = h\<lparr>hm_read_buffer := drop count (hm_read_buffer h)\<rparr>
             in if running then Some (Ready (Inr taken), Some count, h')
                else Some (Ready (Inl (BrokenPipe (ascii ''carrier closed''))), None, h'))
          else if hm_read_eof h then Some (Ready (Inr []), None, h)
          else
            (case hm_signals h of
               SigData bs # rest \<Rightarrow>
                 poll_read_loop running n (h\<lparr>hm_signals := rest, hm_read_buffer := hm_read_buffer h @ bs\<rparr>)
             | SigReadEof # rest \<Rightarrow> poll_read_loop running n (h\<lparr>hm_signals := rest, hm_read_eof := True\<rparr>)
             | SigReset # rest \<Rightarrow>
                 poll_read_loop running n (set_state STREAM_RESET (h\<lparr>hm_signals := rest, hm_read_buffer := []\<rparr>))
             | SigGone # rest \<Rightarrow>
                 poll_read_loop running n (set_state STREAM_GONE (h\<lparr>hm_signals := rest, hm_read_buffer := []\<rparr>))
             | [] \<Rightarrow>
                 if running then Some (Pending, None, h)
                 else poll_read_loop running n (set_state STREAM_GONE (h\<lparr>hm_read_buffer := []\<rparr>))))"

subsection \<open>Counters\<close>

record carrier_tally =
  ct_pings_answered :: nat
  ct_last_answer_elapsed_ms :: nat
  ct_longest_completed_gap_ms :: nat
  ct_close :: u8

definition tally_new :: carrier_tally where
  "tally_new = \<lparr>ct_pings_answered = 0, ct_last_answer_elapsed_ms = 0, ct_longest_completed_gap_ms = 0,
     ct_close = close_code CarrierOpen\<rparr>"

text \<open>\<open>fetch_add\<close> on the \<open>u64\<close> counter wraps.\<close>

definition record_answers :: "nat \<Rightarrow> nat \<Rightarrow> carrier_tally \<Rightarrow> carrier_tally" where
  "record_answers now_ms answered t =
     (if answered = 0 then t
      else
        let previous = ct_last_answer_elapsed_ms t;
            t1 = (if ct_pings_answered t > 0
                  then t\<lparr>ct_longest_completed_gap_ms := max (ct_longest_completed_gap_ms t) (now_ms - previous)\<rparr>
                  else t)
        in t1\<lparr>ct_last_answer_elapsed_ms := now_ms,
              ct_pings_answered := (ct_pings_answered t1 + answered) mod 2 ^ 64\<rparr>)"

definition tally_close :: "carrier_close \<Rightarrow> carrier_tally \<Rightarrow> carrier_tally" where
  "tally_close reason t = (if ct_close t = close_code CarrierOpen then t\<lparr>ct_close := close_code reason\<rparr> else t)"

record carrier_counts =
  cc_pings_answered :: nat
  cc_current_gap_ms :: "nat option"
  cc_longest_gap_ms :: "nat option"
  cc_close :: carrier_close

definition tally_snapshot :: "nat \<Rightarrow> carrier_tally \<Rightarrow> carrier_counts" where
  "tally_snapshot now_ms t =
     (let (current, longest) = carrier_gaps (ct_pings_answered t) now_ms (ct_last_answer_elapsed_ms t)
            (ct_longest_completed_gap_ms t)
      in \<lparr>cc_pings_answered = ct_pings_answered t, cc_current_gap_ms = current, cc_longest_gap_ms = longest,
          cc_close = close_from_code (ct_close t)\<rparr>)"

subsection \<open>The driver\<close>

record carrier_driver =
  dv_acceptor :: mux_acceptor
  dv_streams :: "home_stream table"
  dv_pending :: "bytes table"
  dv_ready :: "u32 list"
  dv_closing :: "u32 list"
  dv_commands :: "driver_command list"
  dv_accepts :: "u32 list"
  dv_owner :: bool
  dv_refusals :: refusal_counts
  dv_carrier :: carrier_tally
  dv_writer :: "nat option"
  dv_wire :: bytes
  dv_clock :: nat
  dv_running :: bool

definition driver_new :: "mux_acceptor \<Rightarrow> carrier_driver" where
  "driver_new a = \<lparr>dv_acceptor = a, dv_streams = [], dv_pending = [], dv_ready = [], dv_closing = [],
     dv_commands = [], dv_accepts = [], dv_owner = True, dv_refusals = refusal_counts_default,
     dv_carrier = tally_new, dv_writer = None, dv_wire = [], dv_clock = 0, dv_running = True\<rparr>"

definition dv_get :: "carrier_driver \<Rightarrow> u32 \<Rightarrow> home_stream option" where
  "dv_get d sid = table_get (dv_streams d) sid"

text \<open>Change one stream, if it is known.\<close>

definition on_stream :: "u32 \<Rightarrow> (home_stream \<Rightarrow> home_stream) \<Rightarrow> carrier_driver \<Rightarrow> carrier_driver" where
  "on_stream sid f d =
     (case dv_get d sid of
        None \<Rightarrow> d
      | Some h \<Rightarrow> d\<lparr>dv_streams := table_put (dv_streams d) sid (f h)\<rparr>)"

definition close_carrier :: "carrier_close \<Rightarrow> carrier_driver \<Rightarrow> carrier_driver" where
  "close_carrier reason d = d\<lparr>dv_carrier := tally_close reason (dv_carrier d)\<rparr>"

text \<open>\<open>write_all\<close> (and \<open>flush\<close>, with no bytes) on the writer.\<close>

definition writer_op :: "bytes \<Rightarrow> carrier_driver \<Rightarrow> bool \<times> carrier_driver" where
  "writer_op bs d =
     (case dv_writer d of
        None \<Rightarrow> (True, d\<lparr>dv_wire := dv_wire d @ bs\<rparr>)
      | Some 0 \<Rightarrow> (False, d)
      | Some (Suc k) \<Rightarrow> (True, d\<lparr>dv_writer := Some k, dv_wire := dv_wire d @ bs\<rparr>))"

fun write_frames :: "frame list \<Rightarrow> nat \<Rightarrow> carrier_driver \<Rightarrow> (bool \<times> nat) \<times> carrier_driver" where
  "write_frames [] answered d = ((True, answered), d)"
| "write_frames (f # fs) answered d =
     (case encode f of
        Inl _ \<Rightarrow> ((False, answered), d)
      | Inr bs \<Rightarrow>
          (case writer_op bs d of
             (False, d) \<Rightarrow> ((False, answered), d)
           | (True, d) \<Rightarrow>
               write_frames fs (if stream_id f = 0 \<and> flags f = FLAG_PONG then answered + 1 else answered) d))"

definition deliver_event :: "mux_event \<Rightarrow> carrier_driver \<Rightarrow> bool \<times> carrier_driver" where
  "deliver_event e d =
     (case e of
        Opened sid \<Rightarrow>
          let d1 = d\<lparr>dv_streams := table_put (dv_streams d) sid home_stream_new\<rparr> in
          if dv_owner d1 then (True, d1\<lparr>dv_accepts := dv_accepts d1 @ [sid]\<rparr>)
          else (False, close_carrier OwnerGone d1)
      | Data sid bs \<Rightarrow> (True, on_stream sid (send_signal (SigData bs)) d)
      | ReadClosed sid \<Rightarrow> (True, on_stream sid (send_signal SigReadEof) d)
      | Reset sid _ \<Rightarrow> (True, on_stream sid (\<lambda>h. send_signal SigReset (set_state STREAM_RESET h)) d)
      | PeerGone _ \<Rightarrow> (True, d))"

fun deliver_events :: "mux_event list \<Rightarrow> carrier_driver \<Rightarrow> bool \<times> carrier_driver" where
  "deliver_events [] d = (True, d)"
| "deliver_events (e # es) d =
     (case deliver_event e d of (False, d) \<Rightarrow> (False, d) | (True, d) \<Rightarrow> deliver_events es d)"

definition deliver_output :: "mux_output \<Rightarrow> carrier_driver \<Rightarrow> bool \<times> carrier_driver" where
  "deliver_output out d =
     (case write_frames (mo_frames out) 0 d of
        ((False, _), d) \<Rightarrow> (False, d)
      | ((True, answered), d) \<Rightarrow>
          (case (if mo_frames out \<noteq> [] then writer_op [] d else (True, d)) of
             (False, d) \<Rightarrow> (False, d)
           | (True, d) \<Rightarrow>
               deliver_events (mo_events out)
                 (d\<lparr>dv_carrier := record_answers (dv_clock d) answered (dv_carrier d)\<rparr>)))"

definition mark_writable :: "u32 \<Rightarrow> carrier_driver \<Rightarrow> carrier_driver" where
  "mark_writable sid d =
     (if table_get (dv_pending d) sid \<noteq> None \<and> sid \<notin> set (dv_ready d)
      then d\<lparr>dv_ready := dv_ready d @ [sid]\<rparr> else d)"

definition mark_writable_streams :: "mux_output \<Rightarrow> carrier_driver \<Rightarrow> carrier_driver" where
  "mark_writable_streams out d = fold mark_writable (mo_writable_streams out) d"

definition discard_pending_stream :: "u32 \<Rightarrow> carrier_driver \<Rightarrow> carrier_driver" where
  "discard_pending_stream sid d =
     (let d1 = (case table_get (dv_pending d) sid of
                  None \<Rightarrow> d
                | Some queue \<Rightarrow>
                    on_stream sid (\<lambda>h. h\<lparr>hm_status := release_staging (hm_status h) (length queue)\<rparr>)
                      (d\<lparr>dv_pending := table_del (dv_pending d) sid\<rparr>))
      in d1\<lparr>dv_ready := removeAll sid (dv_ready d1), dv_closing := removeAll sid (dv_closing d1)\<rparr>)"

text \<open>
  The three copies of \<open>if closing.remove(..)\<close> in \<open>flush_ready\<close>: send the CLOSE that was asked for.
  The answer is whether the driver may go on.
\<close>

definition close_if_asked :: "u32 \<Rightarrow> carrier_driver \<Rightarrow> bool \<times> carrier_driver" where
  "close_if_asked sid d =
     (if sid \<in> set (dv_closing d) then
        let d1 = d\<lparr>dv_closing := removeAll sid (dv_closing d)\<rparr> in
        (case close_write (dv_acceptor d1) sid of
           (Inr out, a) \<Rightarrow> deliver_output out (d1\<lparr>dv_acceptor := a\<rparr>)
         | (Inl e, a) \<Rightarrow> (e = Closed, d1\<lparr>dv_acceptor := a\<rparr>))
      else (True, d))"

text \<open>One round of \<open>flush_ready\<close>: whether to go on, and whether data was sent.\<close>

definition flush_stream :: "u32 \<Rightarrow> carrier_driver \<Rightarrow> (bool \<times> bool) \<times> carrier_driver" where
  "flush_stream sid d =
     (if (case dv_get d sid of Some h \<Rightarrow> hm_state h \<noteq> STREAM_LIVE | None \<Rightarrow> False)
      then ((True, False), discard_pending_stream sid d)
      else
        (case table_get (dv_pending d) sid of
           None \<Rightarrow> (case close_if_asked sid d of (ok, d) \<Rightarrow> ((ok, False), d))
         | Some queue \<Rightarrow>
             let count = min (length queue) RECOMMENDED_CHUNK in
             if count = 0 then
               (case close_if_asked sid (d\<lparr>dv_pending := table_del (dv_pending d) sid\<rparr>) of
                  (ok, d) \<Rightarrow> ((ok, False), d))
             else
               let bs = take count queue;
                   d1 = d\<lparr>dv_pending := table_put (dv_pending d) sid (drop count queue)\<rparr>
               in (case try_send_data (dv_acceptor d1) sid bs of
                     (Inr (Some out), a) \<Rightarrow>
                       (case deliver_output out (d1\<lparr>dv_acceptor := a\<rparr>) of
                          (False, d2) \<Rightarrow> ((False, False), d2)
                        | (True, d2) \<Rightarrow>
                            let d3 = on_stream sid (\<lambda>h. h\<lparr>hm_status := release_staging (hm_status h) (length bs)\<rparr>) d2
                            in if drop count queue = [] then
                                 (case close_if_asked sid (d3\<lparr>dv_pending := table_del (dv_pending d3) sid\<rparr>) of
                                    (ok, d) \<Rightarrow> ((ok, True), d))
                               else ((True, True), d3\<lparr>dv_ready := dv_ready d3 @ [sid]\<rparr>))
                   | (Inr None, a) \<Rightarrow>
                       ((True, False), d1\<lparr>dv_acceptor := a, dv_pending := table_put (dv_pending d1) sid (bs @ drop count queue)\<rparr>)
                   | (Inl e, a) \<Rightarrow>
                       if e = Closed then ((True, False), discard_pending_stream sid (d1\<lparr>dv_acceptor := a\<rparr>))
                       else ((False, False), d1\<lparr>dv_acceptor := a\<rparr>))))"

fun flush_rounds :: "nat \<Rightarrow> bool \<Rightarrow> carrier_driver \<Rightarrow> (bool \<times> bool) \<times> carrier_driver" where
  "flush_rounds 0 made_progress d = ((True, made_progress), d)"
| "flush_rounds (Suc n) made_progress d =
     (case dv_ready d of
        [] \<Rightarrow> ((True, made_progress), d)
      | sid # rest \<Rightarrow>
          (case flush_stream sid (d\<lparr>dv_ready := rest\<rparr>) of
             ((False, _), d) \<Rightarrow> ((False, made_progress), d)
           | ((True, sent), d) \<Rightarrow> flush_rounds n (made_progress \<or> sent) d))"

definition flush_ready :: "carrier_driver \<Rightarrow> bool \<times> carrier_driver" where
  "flush_ready d =
     (case flush_rounds (length (dv_ready d)) False d of
        ((False, _), d) \<Rightarrow> (False, d)
      | ((True, made_progress), d) \<Rightarrow>
          if made_progress \<and> dv_ready d \<noteq> [] then (True, d\<lparr>dv_commands := dv_commands d @ [CmdWake]\<rparr>) else (True, d))"

text \<open>
  How an arm of the \<open>select!\<close> ends: \<open>break\<close>, \<open>continue\<close>, or falling through to the flush.
\<close>

datatype flow = Break | Continue | Flush

definition deliver_or_break :: "mux_output \<Rightarrow> carrier_driver \<Rightarrow> flow \<times> carrier_driver" where
  "deliver_or_break out d =
     (case deliver_output out d of
        (True, d) \<Rightarrow> (Flush, d)
      | (False, d) \<Rightarrow> (Break, close_carrier WriteFailed d))"

definition on_read :: "bytes \<Rightarrow> carrier_driver \<Rightarrow> flow \<times> carrier_driver" where
  "on_read bs d =
     (if bs = [] then
        (case acceptor_finish_eof (dv_acceptor d) of (out, a) \<Rightarrow>
           let truncated = list_ex (\<lambda>e. e = PeerGone True) (mo_events out);
               d1 = mark_writable_streams out (close_carrier (PeerEof truncated) (d\<lparr>dv_acceptor := a\<rparr>))
           in (Break, snd (deliver_output out d1)))
      else
        (case acceptor_feed (dv_acceptor d) bs of
           (Inl _, a) \<Rightarrow> (Break, close_carrier AcceptorRefused (d\<lparr>dv_acceptor := a\<rparr>))
         | (Inr out, a) \<Rightarrow> deliver_or_break out (mark_writable_streams out (d\<lparr>dv_acceptor := a\<rparr>))))"

text \<open>\<open>Cancel\<close> and \<open>Reset\<close>.\<close>

definition reset_locally :: "u32 \<Rightarrow> home_reset_reason \<Rightarrow> carrier_driver \<Rightarrow> flow \<times> carrier_driver" where
  "reset_locally sid reason d =
     (let d1 = discard_pending_stream sid d in
      case acceptor_reset (dv_acceptor d1) sid reason of
        (Inr out, a) \<Rightarrow> deliver_or_break out (d1\<lparr>dv_acceptor := a\<rparr>)
      | (Inl e, a) \<Rightarrow>
          if e = Closed then (Flush, d1\<lparr>dv_acceptor := a\<rparr>)
          else (Break, close_carrier AcceptorRefused (d1\<lparr>dv_acceptor := a\<rparr>)))"

definition push_ready :: "u32 \<Rightarrow> carrier_driver \<Rightarrow> carrier_driver" where
  "push_ready sid d = (if sid \<in> set (dv_ready d) then d else d\<lparr>dv_ready := dv_ready d @ [sid]\<rparr>)"

definition pending_of :: "carrier_driver \<Rightarrow> u32 \<Rightarrow> bytes" where
  "pending_of d sid = (case table_get (dv_pending d) sid of Some q \<Rightarrow> q | None \<Rightarrow> [])"

text \<open>A panic of \<open>consume\<close> ends the driver task without a reason.\<close>

definition on_command :: "driver_command \<Rightarrow> carrier_driver \<Rightarrow> flow \<times> carrier_driver" where
  "on_command c d =
     (case c of
        CmdWrite sid bs \<Rightarrow>
          (Flush, push_ready sid (d\<lparr>dv_pending := table_put (dv_pending d) sid (pending_of d sid @ bs)\<rparr>))
      | CmdConsumed sid n \<Rightarrow>
          (case acceptor_consume (dv_acceptor d) sid n of
             (Inr out, a) \<Rightarrow> deliver_or_break out (mark_writable_streams out (d\<lparr>dv_acceptor := a\<rparr>))
           | (Inl (Err e), a) \<Rightarrow>
               if e = Closed then (Continue, d\<lparr>dv_acceptor := a\<rparr>)
               else (Break, close_carrier AcceptorRefused (d\<lparr>dv_acceptor := a\<rparr>))
           | (Inl (Panic _), a) \<Rightarrow> (Break, d\<lparr>dv_acceptor := a\<rparr>))
      | CmdClose sid \<Rightarrow> (Flush, push_ready sid (d\<lparr>dv_closing := List.insert sid (dv_closing d)\<rparr>))
      | CmdCancel sid \<Rightarrow> reset_locally sid Cancel d
      | CmdReset sid reason \<Rightarrow> reset_locally sid reason d
      | CmdWake \<Rightarrow> (Flush, d)
      | CmdCloseConnection \<Rightarrow> (Break, close_carrier LocalClose d))"

text \<open>After the loop: publish the counters and tell every handle.\<close>

definition driver_end :: "carrier_driver \<Rightarrow> carrier_driver" where
  "driver_end d =
     d\<lparr>dv_refusals := ac_refusals (dv_acceptor d),
       dv_streams := map (\<lambda>(sid, h). (sid, send_signal SigGone (set_state STREAM_GONE h))) (dv_streams d),
       dv_running := False\<rparr>"

datatype driver_input = ReadFailed | ReadBytes bytes | TakeCommand

text \<open>The arms of the \<open>select!\<close>.\<close>

definition select_arm :: "driver_input \<Rightarrow> carrier_driver \<Rightarrow> flow \<times> carrier_driver" where
  "select_arm i d =
     (case i of
        ReadFailed \<Rightarrow> (Break, close_carrier PeerReadFailed d)
      | ReadBytes bs \<Rightarrow> on_read bs d
      | TakeCommand \<Rightarrow>
          (case dv_commands d of
             [] \<Rightarrow> (Continue, d)
           | c # cs \<Rightarrow> on_command c (d\<lparr>dv_commands := cs\<rparr>)))"

definition driver_iteration :: "driver_input \<Rightarrow> carrier_driver \<Rightarrow> carrier_driver" where
  "driver_iteration i d =
     (case select_arm i (d\<lparr>dv_refusals := ac_refusals (dv_acceptor d)\<rparr>) of
        (Break, d) \<Rightarrow> driver_end d
      | (Continue, d) \<Rightarrow> d
      | (Flush, d) \<Rightarrow>
          (case flush_ready d of
             (True, d) \<Rightarrow> d
           | (False, d) \<Rightarrow> driver_end (close_carrier WriteFailed d)))"

subsection \<open>Calls on handles and on the connection\<close>

text \<open>Send a command; it fails once the driver has stopped.\<close>

definition send_command :: "driver_command \<Rightarrow> carrier_driver \<Rightarrow> bool \<times> carrier_driver" where
  "send_command c d = (if dv_running d then (True, d\<lparr>dv_commands := dv_commands d @ [c]\<rparr>) else (False, d))"

definition put_stream :: "u32 \<Rightarrow> home_stream \<Rightarrow> carrier_driver \<Rightarrow> carrier_driver" where
  "put_stream sid h d = d\<lparr>dv_streams := table_put (dv_streams d) sid h\<rparr>"

definition stream_poll_read ::
  "u32 \<Rightarrow> nat \<Rightarrow> home_stream \<Rightarrow> carrier_driver \<Rightarrow> ((io_error + bytes) poll \<times> carrier_driver) option" where
  "stream_poll_read sid n h d =
     map_option (\<lambda>(r, consumed, h').
         (r, (case consumed of
                Some k \<Rightarrow> snd (send_command (CmdConsumed sid k) (put_stream sid h' d))
              | None \<Rightarrow> put_stream sid h' d)))
       (poll_read_loop (dv_running d) n h)"

definition stream_poll_write ::
  "u32 \<Rightarrow> bytes \<Rightarrow> home_stream \<Rightarrow> carrier_driver \<Rightarrow> (io_error + nat) poll \<times> carrier_driver" where
  "stream_poll_write sid bs h d =
     (case stream_error h of
        Some e \<Rightarrow> (Ready (Inl e), d)
      | None \<Rightarrow>
          if hm_write_shutdown h then (Ready (Inl (BrokenPipe (ascii ''stream writer closed''))), d)
          else if bs = [] then (Ready (Inr 0), d)
          else
            (case reserve_staging (hm_status h) (length bs) of (staged, x) \<Rightarrow>
               let d1 = put_stream sid (h\<lparr>hm_status := x\<rparr>) d in
               if staged = 0 then (Pending, d1)
               else
                 (case send_command (CmdWrite sid (take staged bs)) d1 of
                    (True, d2) \<Rightarrow> (Ready (Inr staged), d2)
                  | (False, d2) \<Rightarrow>
                      (Ready (Inl (BrokenPipe (ascii ''carrier closed''))),
                       put_stream sid (h\<lparr>hm_status := release_staging x staged\<rparr>) d2))))"

definition stream_poll_flush :: "home_stream \<Rightarrow> (io_error + unit) poll" where
  "stream_poll_flush h = (case stream_error h of Some e \<Rightarrow> Ready (Inl e) | None \<Rightarrow> Ready (Inr ()))"

definition stream_poll_shutdown ::
  "u32 \<Rightarrow> home_stream \<Rightarrow> carrier_driver \<Rightarrow> (io_error + unit) poll \<times> carrier_driver" where
  "stream_poll_shutdown sid h d =
     (case stream_error h of
        Some e \<Rightarrow> (Ready (Inl e), d)
      | None \<Rightarrow>
          if hm_write_shutdown h then (Ready (Inr ()), d)
          else
            (case send_command (CmdClose sid) d of
               (False, d) \<Rightarrow> (Ready (Inl (BrokenPipe (ascii ''carrier closed''))), d)
             | (True, d) \<Rightarrow> (Ready (Inr ()), put_stream sid (h\<lparr>hm_write_shutdown := True\<rparr>) d)))"

definition stream_reset ::
  "u32 \<Rightarrow> home_reset_reason \<Rightarrow> home_stream \<Rightarrow> carrier_driver \<Rightarrow> (home_error + unit) \<times> carrier_driver" where
  "stream_reset sid reason h d =
     (if stream_error h \<noteq> None then (Inl Closed, d)
      else
        (case send_command (CmdReset sid reason) d of
           (False, d) \<Rightarrow> (Inl Closed, d)
         | (True, d) \<Rightarrow> (Inr (), put_stream sid (h\<lparr>hm_write_shutdown := True\<rparr>) d)))"

text \<open>Dropping a handle also drops its end of the signal channel, and what is queued there.\<close>

definition stream_drop :: "u32 \<Rightarrow> home_stream \<Rightarrow> carrier_driver \<Rightarrow> carrier_driver" where
  "stream_drop sid h d =
     (let d1 = (if hm_write_shutdown h then d else snd (send_command (CmdCancel sid) d))
      in put_stream sid (h\<lparr>hm_dropped := True, hm_signals := []\<rparr>) d1)"

definition connection_accept_stream :: "carrier_driver \<Rightarrow> (home_error + u32) poll \<times> carrier_driver" where
  "connection_accept_stream d =
     (case dv_accepts d of
        sid # rest \<Rightarrow> (Ready (Inr sid), d\<lparr>dv_accepts := rest\<rparr>)
      | [] \<Rightarrow> (if dv_running d then Pending else Ready (Inl PeerGoneError), d))"

definition connection_close :: "carrier_driver \<Rightarrow> (home_error + unit) \<times> carrier_driver" where
  "connection_close d =
     (case send_command CmdCloseConnection d of (True, d) \<Rightarrow> (Inr (), d) | (False, d) \<Rightarrow> (Inl Closed, d))"

definition connection_counts :: "carrier_driver \<Rightarrow> refusal_counts \<times> carrier_counts" where
  "connection_counts d = (dv_refusals d, tally_snapshot (dv_clock d) (dv_carrier d))"

text \<open>
  Dropping the connection drops the receiver of accepted streams, and with it every handle that
  nobody took.
\<close>

definition connection_drop :: "carrier_driver \<Rightarrow> carrier_driver" where
  "connection_drop d =
     fold (\<lambda>sid d. case dv_get d sid of None \<Rightarrow> d | Some h \<Rightarrow> stream_drop sid h d) (dv_accepts d)
       (d\<lparr>dv_owner := False, dv_accepts := []\<rparr>)"

subsection \<open>Reading\<close>

lemma stream_codes [simp]:
  "STREAM_RESET \<noteq> STREAM_LIVE" "STREAM_GONE \<noteq> STREAM_LIVE" "STREAM_RESET \<noteq> STREAM_GONE"
  "STREAM_LIVE \<noteq> STREAM_RESET" "STREAM_LIVE \<noteq> STREAM_GONE" "STREAM_GONE \<noteq> STREAM_RESET"
  by (simp_all add: STREAM_LIVE_def STREAM_RESET_def STREAM_GONE_def)

text \<open>The bytes a handle can still hand out before an end-of-stream or a failure.\<close>

fun readable :: "stream_signal list \<Rightarrow> bytes" where
  "readable (SigData bs # ss) = bs @ readable ss"
| "readable _ = []"

definition unread :: "home_stream \<Rightarrow> bytes" where
  "unread h = hm_read_buffer h @ (if hm_read_eof h then [] else readable (hm_signals h))"

definition read_result_ok ::
  "bool \<Rightarrow> nat \<Rightarrow> home_stream \<Rightarrow> (io_error + bytes) poll \<times> nat option \<times> home_stream \<Rightarrow> bool" where
  "read_result_ok running n h res \<longleftrightarrow>
     (case res of (r, told, h') \<Rightarrow>
        (case r of
           Ready (Inr bs) \<Rightarrow>
             unread h = bs @ unread h' \<and> length bs \<le> n
             \<and> (case told of Some k \<Rightarrow> k = length bs | None \<Rightarrow> bs = [] \<and> unread h = [] \<and> hm_read_eof h')
             \<and> (0 < n \<and> bs = [] \<longrightarrow> told = None) \<and> hm_state h' = hm_state h
         | Ready (Inl e) \<Rightarrow> told = None \<and> (read_error h' = Some e \<and> hm_read_buffer h' = [] \<or> \<not> running)
         | Pending \<Rightarrow> told = None \<and> running \<and> unread h = [] \<and> hm_signals h' = [] \<and> \<not> hm_read_eof h' \<and> read_error h' = None))"

lemma hm_state_simps [simp]:
  "hm_state (set_state v h) = v" "hm_signals (set_state v h) = hm_signals h"
  "hm_read_buffer (set_state v h) = hm_read_buffer h"
  "hm_state (h\<lparr>hm_signals := ss\<rparr>) = hm_state h" "hm_state (h\<lparr>hm_read_buffer := bs\<rparr>) = hm_state h"
  "hm_state (h\<lparr>hm_read_eof := b\<rparr>) = hm_state h"
  by (simp_all add: hm_state_def set_state_def)

lemma read_error_simps [simp]:
  "read_error (h\<lparr>hm_signals := ss\<rparr>) = read_error h" "read_error (h\<lparr>hm_read_buffer := bs\<rparr>) = read_error h"
  "read_error (set_state STREAM_RESET h) = Some ConnectionReset"
  "read_error (set_state STREAM_GONE h) = Some UnexpectedEof"
  by (simp_all add: read_error_def)

lemma poll_read_error:
  "read_error h = Some e \<Longrightarrow> poll_read_loop running n h = Some (Ready (Inl e), None, h\<lparr>hm_read_buffer := []\<rparr>)"
  by (subst poll_read_loop.simps) simp

lemma read_result_ok_cong:
  "unread h1 = unread h2 \<Longrightarrow> hm_state h1 = hm_state h2 \<Longrightarrow> read_result_ok running n h1 = read_result_ok running n h2"
  unfolding read_result_ok_def by presburger

lemma poll_read_returns_aux:
  "\<exists>res. poll_read_loop running n h = Some res \<and> read_result_ok running n h res"
proof (induction "length (hm_signals h)" arbitrary: h rule: less_induct)
  case less
  show ?case
  proof (cases "read_error h")
    case (Some e)
    then show ?thesis by (simp add: poll_read_error read_result_ok_def)
  next
    case live: None
    consider (buffered) "hm_read_buffer h \<noteq> []" | (eof) "hm_read_buffer h = []" "hm_read_eof h"
      | (signal) s ss where "hm_read_buffer h = []" "\<not> hm_read_eof h" "hm_signals h = s # ss"
      | (empty) "hm_read_buffer h = []" "\<not> hm_read_eof h" "hm_signals h = []"
      by (cases "hm_signals h") auto
    then show ?thesis
    proof cases
      case buffered
      then show ?thesis using live
        by (subst poll_read_loop.simps) (auto simp: Let_def read_result_ok_def unread_def)
    next
      case eof
      then show ?thesis using live
        by (subst poll_read_loop.simps) (simp add: read_result_ok_def unread_def)
    next
      case signal
      show ?thesis
      proof (cases s)
        case (SigData bs)
        let ?h = "h\<lparr>hm_signals := ss, hm_read_buffer := bs\<rparr>"
        from signal have "length (hm_signals ?h) < length (hm_signals h)" by simp
        from less [OF this] obtain res where "poll_read_loop running n ?h = Some res" "read_result_ok running n ?h res"
          by blast
        moreover have "read_result_ok running n ?h = read_result_ok running n h"
          by (rule read_result_ok_cong) (use signal SigData in \<open>simp_all add: unread_def\<close>)
        ultimately show ?thesis using live signal SigData
          by (subst poll_read_loop.simps) simp
      next
        case SigReadEof
        let ?h = "h\<lparr>hm_signals := ss, hm_read_eof := True\<rparr>"
        from signal have "length (hm_signals ?h) < length (hm_signals h)" by simp
        from less [OF this] obtain res where "poll_read_loop running n ?h = Some res" "read_result_ok running n ?h res"
          by blast
        moreover have "read_result_ok running n ?h = read_result_ok running n h"
          by (rule read_result_ok_cong) (use signal SigReadEof in \<open>simp_all add: unread_def\<close>)
        ultimately show ?thesis using live signal SigReadEof
          by (subst poll_read_loop.simps) simp
      qed (use live signal in \<open>subst poll_read_loop.simps, simp add: poll_read_error read_result_ok_def\<close>)+
    next
      case empty
      then show ?thesis using live
        by (subst poll_read_loop.simps) (simp add: poll_read_error read_result_ok_def unread_def)
    qed
  qed
qed


end
