(* ===== verification/Spl_Acceptor_Books.thy ===== *)
theory Spl_Acceptor_Books
  imports Spl_Acceptor_Run
begin

text \<open>
  What one call of \<open>MuxAcceptor::feed\<close> may report, for the clients of the acceptor: the events and
  the frames it emits are tied to the change of its stream table by a small relation of effects.
  The books kept by a client that counts the bytes of every event agree with the acceptor's own.
\<close>

subsection \<open>Effects\<close>

type_synonym mux_view = "nat \<times> (u32 \<rightharpoonup> stream_state)"

definition mux_view :: "mux_acceptor \<Rightarrow> mux_view" where
  "mux_view a = (high_water a, ac_get a)"

text \<open>The fields of a stream that a client relies on: what is owed to it and its own half.\<close>

definition same_books :: "stream_state \<Rightarrow> stream_state \<Rightarrow> bool" where
  "same_books s t \<longleftrightarrow> ss_debited_not_consumed s = ss_debited_not_consumed t \<and> ss_local_closed s = ss_local_closed t"

inductive mux_effect :: "mux_view \<Rightarrow> mux_event list \<Rightarrow> frame list \<Rightarrow> mux_view \<Rightarrow> bool" for v where
  start: "mux_effect v [] [] v"
| answer: "mux_effect v es fs w \<Longrightarrow> flags f = FLAG_RESET \<or> flags f = FLAG_PONG \<Longrightarrow> mux_effect v es (fs @ [f]) w"
| drop: "mux_effect v es fs (h, m) \<Longrightarrow> m sid \<noteq> None \<Longrightarrow> mux_effect v (es @ [Reset sid r]) fs (h, m(sid := None))"
| raise: "mux_effect v es fs (h, m) \<Longrightarrow> h < h' \<Longrightarrow> mux_effect v es fs (h', m)"
| opens: "mux_effect v es fs (h, m) \<Longrightarrow> h < unat sid \<Longrightarrow> ds = [Data sid p] \<or> ds = [] \<and> p = [] \<Longrightarrow>
    ss_debited_not_consumed s = length p \<Longrightarrow> \<not> ss_local_closed s \<Longrightarrow>
    mux_effect v (es @ Opened sid # ds) fs (unat sid, m(sid \<mapsto> s))"
| data: "mux_effect v es fs (h, m) \<Longrightarrow> m sid = Some s \<Longrightarrow>
    same_books t (s\<lparr>ss_debited_not_consumed := ss_debited_not_consumed s + length p\<rparr>) \<Longrightarrow>
    mux_effect v (es @ [Data sid p]) fs (h, m(sid \<mapsto> t))"
| half: "mux_effect v es fs (h, m) \<Longrightarrow> m sid = Some s \<Longrightarrow> same_books t s \<Longrightarrow>
    mux_effect v (es @ [ReadClosed sid]) fs (h, m(sid := (if ss_local_closed s then None else Some t)))"
| credit: "mux_effect v es fs (h, m) \<Longrightarrow> m sid = Some s \<Longrightarrow> same_books t s \<Longrightarrow>
    mux_effect v es fs (h, m(sid \<mapsto> t))"

definition effect_of :: "mux_view \<Rightarrow> mux_acceptor \<times> mux_output \<Rightarrow> bool" where
  "effect_of v p \<longleftrightarrow> mux_effect v (mo_events (snd p)) (mo_frames (snd p)) (mux_view (fst p))"

lemma mux_view_simps [simp]:
  "mux_view (ac_put a sid s) = (high_water a, (ac_get a)(sid \<mapsto> s))"
  "mux_view (ac_remove_stream a sid) = (high_water a, (ac_get a)(sid := None))"
  "mux_view (a\<lparr>ac_refusals := r\<rparr>) = mux_view a"
  "mux_view (a\<lparr>ac_peer_high_water := Some sid\<rparr>) = (unat sid, ac_get a)"
  by (simp_all add: mux_view_def)

lemma refuse_violation_effect:
  assumes "effect_of v (a, out)"
  shows "effect_of v (refuse_violation x c a out)"
proof -
  let ?f = "reset_frame (fv_stream_id x) (class_reset_code c)"
  have "mux_effect v (mo_events out) (mo_frames out @ [?f]) (high_water a, ac_get a)"
    using assms by (auto simp: effect_of_def mux_view_def intro: mux_effect.answer)
  from this mux_effect.drop [OF this, of "fv_stream_id x"] show ?thesis
    by (auto simp: refuse_violation_def Let_def effect_of_def mux_view_def put_event_def put_frame_def)
qed

lemma refuse_effect: "effect_of v (a, out) \<Longrightarrow> effect_of v (refuse f c a out)"
  by (simp add: refuse_def refuse_violation_effect)

lemma mark_peer_closed_effect:
  assumes "effect_of v (a, out)"
  shows "effect_of v (mark_peer_closed sid a out)"
proof (cases "ac_get a sid")
  case (Some s)
  from assms have "mux_effect v (mo_events out) (mo_frames out) (high_water a, ac_get a)"
    by (simp add: effect_of_def mux_view_def)
  from mux_effect.half [OF this Some, of "s\<lparr>ss_peer_closed := True\<rparr>"] Some show ?thesis
    by (auto simp: mark_peer_closed_def Let_def effect_of_def same_books_def)
qed (use assms in \<open>simp add: mark_peer_closed_def\<close>)

lemma credit_effect:
  assumes "effect_of v (a, out)" and "ac_get a sid = Some s" and "same_books t s"
  shows "effect_of v (ac_put a sid t, out)"
  using assms mux_effect.credit [of v "mo_events out" "mo_frames out" "high_water a" "ac_get a" sid s t]
  by (simp add: effect_of_def mux_view_def)

lemma handle_data_effect:
  assumes start: "effect_of v (a, out)"
  shows "effect_of v (handle_data f closes a out)"
proof (cases "ac_get a (stream_id f)")
  case None
  with start show ?thesis by (simp add: handle_data_def refuse_effect)
next
  case (Some s)
  let ?sid = "stream_id f" and ?p = "payload f"
  obtain r w where deb: "debit (ss_receive_window s) (length ?p) = (r, w)" by fastforce
  have put: "effect_of v (ac_put a ?sid (s\<lparr>ss_receive_window := w\<rparr>), out)"
    by (rule credit_effect [OF start Some]) (simp add: same_books_def)
  have "mux_effect v (mo_events out) (mo_frames out) (high_water a, ac_get a)"
    using start by (simp add: effect_of_def mux_view_def)
  from mux_effect.data [OF this Some, of _ ?p]
  have data: "effect_of v (ac_put a ?sid (s\<lparr>ss_receive_window := w,
      ss_debited_not_consumed := ss_debited_not_consumed s + length ?p\<rparr>), put_event out (Data ?sid ?p))"
    by (simp add: effect_of_def same_books_def)
  show ?thesis
    using Some deb data put start
    by (auto simp: handle_data_def Let_def refuse_effect mark_peer_closed_effect usize_checked_add_def
        split: sum.split option.split if_splits)
qed

lemma handle_open_effect:
  assumes start: "effect_of v (a, out)"
  shows "effect_of v (handle_open f a out)"
proof (cases "odd (unat (stream_id f)) \<and> high_water a < unat (stream_id f)")
  case False
  then have "handle_open f a out = refuse f ClassProtocol a out"
    using valid_id_iff [of "stream_id f" a] unfolding handle_open_def Let_def by auto
  with start show ?thesis by (simp add: refuse_effect)
next
  case True
  let ?sid = "stream_id f" and ?p = "payload f"
  let ?a1 = "a\<lparr>ac_peer_high_water := Some ?sid\<rparr>"
  obtain r w where deb: "debit recv_new (length ?p) = (r, w)" by fastforce
  let ?a2 = "ac_put ?a1 ?sid \<lparr>ss_receive_window = w, ss_debited_not_consumed = length ?p,
      ss_send_credit = INITIAL_WINDOW, ss_peer_closed = False, ss_local_closed = False\<rparr>"
  let ?o1 = "put_event out (Opened ?sid)"
  let ?o2 = "if ?p \<noteq> [] \<or> flags f AND FLAG_DATA \<noteq> 0 then put_event ?o1 (Data ?sid ?p) else ?o1"
  have eff: "mux_effect v (mo_events out) (mo_frames out) (high_water a, ac_get a)"
    using start by (simp add: effect_of_def mux_view_def)
  have raised: "effect_of v (?a1, out)"
    using mux_effect.raise [OF eff, of "unat ?sid"] True by (simp add: effect_of_def)
  have opened: "effect_of v (?a2, ?o2)"
    using mux_effect.opens [OF eff, of ?sid _ ?p] True by (auto simp: effect_of_def)
  have valid: "unat ?sid mod 2 = 1 \<and> (case ac_peer_high_water a of None \<Rightarrow> True | Some highest \<Rightarrow> ?sid > highest)"
    using True valid_id_iff [of ?sid a] by blast
  have "\<exists>b. handle_open f a out = refuse f b ?a1 out \<or> handle_open f a out = mark_peer_closed ?sid ?a2 ?o2
      \<or> handle_open f a out = (?a2, ?o2)"
    unfolding handle_open_def Let_def using valid deb by (auto split: sum.split)
  then show ?thesis
    by (elim exE disjE) (use raised opened in \<open>simp_all only: refuse_effect mark_peer_closed_effect\<close>)
qed

lemma handle_reset_effect:
  assumes "effect_of v (a, out)" and "ac_get a (stream_id f) \<noteq> None"
  shows "effect_of v (handle_reset f a out)"
proof -
  have "mux_effect v (mo_events out) (mo_frames out) (high_water a, ac_get a)"
    using assms(1) by (simp add: effect_of_def mux_view_def)
  from mux_effect.drop [OF this assms(2)] assms(1) show ?thesis
    by (auto simp: handle_reset_def effect_of_def intro!: refuse_effect [unfolded effect_of_def] split: list.split)
qed

lemma handle_window_effect:
  assumes "effect_of v (a, out)"
  shows "effect_of v (handle_window f a out)"
proof -
  have "effect_of v (ac_put a (stream_id f) (s\<lparr>ss_send_credit := n\<rparr>), out\<lparr>mo_writable_streams := ws\<rparr>)"
    if "ac_get a (stream_id f) = Some s" for s n ws
    using credit_effect [OF assms that, of "s\<lparr>ss_send_credit := n\<rparr>"] by (simp add: same_books_def effect_of_def)
  with assms show ?thesis
    by (auto simp: handle_window_def refuse_effect split: option.split)
qed

lemma handle_frame_effect:
  assumes "effect_of v (a, out)"
  shows "effect_of v (snd (handle_frame f a out))"
proof (cases "stream_id f = 0")
  case True
  have "effect_of v (a, put_frame out g)" if "control_pong f = Some g" for g
    using assms that mux_effect.answer [of v "mo_events out" "mo_frames out" "mux_view a" g]
    by (auto simp: effect_of_def control_pong_def split: if_splits)
  with True assms show ?thesis
    by (auto simp: handle_frame_def handle_control_def split: sum.splits option.splits if_splits)
next
  case False
  with assms show ?thesis
    by (auto simp: handle_frame_def Let_def handle_close_def refuse_effect handle_open_effect handle_data_effect
        handle_reset_effect handle_window_effect mark_peer_closed_effect)
qed

lemma mux_view_fields:
  "mux_view a = (case ac_peer_high_water a of None \<Rightarrow> 0 | Some h \<Rightarrow> unat h, table_get (ac_streams a))"
  by (simp add: mux_view_def high_water_def ac_get_def [abs_def])

lemma effect_of_input [simp]:
  "effect_of v (a\<lparr>ac_decoder := d\<rparr>, out) = effect_of v (a, out)"
  "effect_of v (a\<lparr>ac_decoder_buffered_bytes := n\<rparr>, out) = effect_of v (a, out)"
  "effect_of v (a\<lparr>ac_header_buffer := hs\<rparr>, out) = effect_of v (a, out)"
  "effect_of v (a\<lparr>ac_payload_remaining := r\<rparr>, out) = effect_of v (a, out)"
  "effect_of v (a\<lparr>ac_discarded_payload_remaining := r\<rparr>, out) = effect_of v (a, out)"
  by (simp_all add: effect_of_def mux_view_fields)

lemma drain_decoder_effect: "effect_of v (a, out) \<Longrightarrow> effect_of v (snd (drain_decoder a out))"
proof (induction a out rule: drain_decoder.induct)
  case (1 a out)
  obtain r d where nf: "next_frame (ac_decoder a) = (r, d)" by fastforce
  show ?case
  proof (cases "\<exists>f n. r = Inr (Some f)
      \<and> usize_checked_sub (ac_decoder_buffered_bytes a) (HEADER_LEN + length (payload f)) = Some n")
    case False
    then consider e where "r = Inl e" | "r = Inr None"
      | f where "r = Inr (Some f)" "usize_checked_sub (ac_decoder_buffered_bytes a) (HEADER_LEN + length (payload f)) = None"
      by (metis not_None_eq old.sum.exhaust)
    then show ?thesis
      by cases (subst drain_decoder.simps, use 1(2) in \<open>simp add: nf usize_checked_sub_def\<close>)+
  next
    case True
    then obtain f n where f: "r = Inr (Some f)"
      "usize_checked_sub (ac_decoder_buffered_bytes a) (HEADER_LEN + length (payload f)) = Some n" by blast
    let ?a = "a\<lparr>ac_decoder := d, ac_decoder_buffered_bytes := n\<rparr>"
    obtain q a' out' where hf: "handle_frame f ?a out = (q, a', out')" by (metis prod_cases3)
    have "effect_of v (?a, out)" using 1(2) by simp
    from handle_frame_effect [OF this, of f] have step: "effect_of v (a', out')" by (simp add: hf)
    show ?thesis
    proof (cases q)
      case (Inl e)
      with step show ?thesis
        by (subst drain_decoder.simps) (simp only: nf f hf Inl prod.case sum.case option.case snd_conv)
    next
      case (Inr u)
      have "effect_of v (snd (drain_decoder a' out'))"
        by (rule 1(1) [OF nf [symmetric] f(1) refl f(2) hf [symmetric] Inr refl step])
      then show ?thesis
        by (subst drain_decoder.simps) (simp only: nf f hf Inr prod.case sum.case option.case)
    qed
  qed
qed

lemma feed_byte_effect:
  assumes "effect_of v (a, out)"
  shows "effect_of v (snd (feed_byte x a out))"
  using assms unfolding feed_byte_def Let_def
  by (simp add: drain_decoder_effect refuse_violation_effect split: option.split)

lemma feed_bytes_effect: "effect_of v (a, out) \<Longrightarrow> effect_of v (snd (feed_bytes bs a out))"
proof (induction bs arbitrary: a out)
  case (Cons x bs)
  obtain r a' out' where eq: "feed_byte x a out = (r, a', out')" by (metis prod_cases3)
  have "effect_of v (a', out')" using feed_byte_effect [OF Cons.prems, of x] by (simp add: eq)
  with Cons.IH [of a' out'] show ?case by (simp add: eq split: sum.split)
qed simp

lemma feed_effect:
  assumes "acceptor_feed a bs = (Inr out, a')"
  shows "mux_effect (mux_view a) (mo_events out) (mo_frames out) (mux_view a')"
proof -
  have "effect_of (mux_view a) (a, mux_output_default)"
    by (simp add: effect_of_def mux_output_default_def mux_effect.start)
  note eff = feed_bytes_effect [OF this, of bs]
  obtain r b o' where eq: "feed_bytes bs a mux_output_default = (r, b, o')" by (metis prod_cases3)
  with assms have "o' = out \<and> b = a'" by (cases r) (simp_all add: acceptor_feed_def)
  with eff eq show ?thesis by (simp add: effect_of_def)
qed

lemma effect_frames: "mux_effect v es fs w \<Longrightarrow> f \<in> set fs \<Longrightarrow> flags f = FLAG_RESET \<or> flags f = FLAG_PONG"
  by (induction rule: mux_effect.induct) auto

end
