(* ===== verification/Spl_Driver_Inv.thy ===== *)
theory Spl_Driver_Inv
  imports Spl_Home_Driver Spl_Acceptor_Books "HOL-Library.Sublist"
begin

text \<open>
  The invariant of a listener connection: for every stream, what its handle, the channels, the
  driver and the acceptor hold fits together. The bytes a handle holds or has reported as consumed
  are owed by the acceptor; the staging counter is exactly the backlog of the writer; nothing is
  written after the end of a stream; and the bytes on the wire and the bytes read follow the bytes
  accepted and received, in order.
\<close>

subsection \<open>The books of one stream\<close>

fun told :: "driver_command list \<Rightarrow> u32 \<Rightarrow> nat" where
  "told [] sid = 0"
| "told (CmdConsumed k n # cs) sid = (if k = sid then n else 0) + told cs sid"
| "told (_ # cs) sid = told cs sid"

fun queued :: "driver_command list \<Rightarrow> u32 \<Rightarrow> bytes" where
  "queued [] sid = []"
| "queued (CmdWrite k bs # cs) sid = (if k = sid then bs else []) @ queued cs sid"
| "queued (_ # cs) sid = queued cs sid"

fun is_end :: "u32 \<Rightarrow> driver_command \<Rightarrow> bool" where
  "is_end sid (CmdClose k) \<longleftrightarrow> k = sid"
| "is_end sid (CmdCancel k) \<longleftrightarrow> k = sid"
| "is_end sid (CmdReset k r) \<longleftrightarrow> k = sid"
| "is_end sid _ \<longleftrightarrow> False"

definition ends :: "driver_command list \<Rightarrow> u32 \<Rightarrow> bool" where
  "ends cs sid \<longleftrightarrow> list_ex (is_end sid) cs"

text \<open>No write is queued behind the end of its stream.\<close>

fun orderly :: "driver_command list \<Rightarrow> u32 \<Rightarrow> bool" where
  "orderly [] sid \<longleftrightarrow> True"
| "orderly (c # cs) sid \<longleftrightarrow> (is_end sid c \<longrightarrow> queued cs sid = []) \<and> orderly cs sid"

lemma told_append [simp]: "told (cs @ ds) sid = told cs sid + told ds sid"
  by (induction cs sid rule: told.induct) simp_all

lemma queued_append [simp]: "queued (cs @ ds) sid = queued cs sid @ queued ds sid"
  by (induction cs sid rule: queued.induct) simp_all

lemma ends_simps [simp]:
  "ends [] sid = False" "ends (c # cs) sid = (is_end sid c \<or> ends cs sid)" "ends (cs @ ds) sid = (ends cs sid \<or> ends ds sid)"
  by (simp_all add: ends_def)

lemma orderly_append [simp]:
  "orderly (cs @ ds) sid \<longleftrightarrow> orderly cs sid \<and> orderly ds sid \<and> (ends cs sid \<longrightarrow> queued ds sid = [])"
  by (induction cs) auto

fun signal_data :: "stream_signal list \<Rightarrow> bytes" where
  "signal_data (SigData bs # ss) = bs @ signal_data ss"
| "signal_data (_ # ss) = signal_data ss"
| "signal_data [] = []"

lemma signal_data_append [simp]: "signal_data (ss @ ts) = signal_data ss @ signal_data ts"
  by (induction ss rule: signal_data.induct) simp_all

definition held :: "home_stream \<Rightarrow> bytes" where
  "held h = hm_read_buffer h @ signal_data (hm_signals h)"

definition write_ended :: "home_stream \<Rightarrow> bool" where
  "write_ended h \<longleftrightarrow> hm_write_shutdown h \<or> hm_dropped h"

record stream_link =
  lk_high :: nat
  lk_stream :: "stream_state option"
  lk_handle :: "home_stream option"
  lk_told :: nat
  lk_queued :: bytes
  lk_ends :: bool
  lk_pending :: bytes
  lk_closing :: bool
  lk_accepted :: bytes
  lk_sent :: bytes
  lk_received :: bytes
  lk_read :: bytes

definition writable :: "stream_state option \<Rightarrow> bool" where
  "writable so \<longleftrightarrow> (case so of None \<Rightarrow> False | Some s \<Rightarrow> \<not> ss_local_closed s)"

definition handle_ok :: "u32 \<Rightarrow> stream_link \<Rightarrow> home_stream \<Rightarrow> bool" where
  "handle_ok sid k h \<longleftrightarrow>
     unat sid \<le> lk_high k \<and> hm_state h \<in> {STREAM_LIVE, STREAM_RESET, STREAM_GONE}
     \<and> (\<forall>s. lk_stream k = Some s \<longrightarrow> length (held h) + lk_told k \<le> ss_debited_not_consumed s)
     \<and> sx_staged (hm_status h) = length (lk_pending k) + length (lk_queued k)
     \<and> sx_staged (hm_status h) \<le> MAX_STAGED_WRITE_BYTES_PER_STREAM
     \<and> (hm_state h = STREAM_LIVE \<and> \<not> writable (lk_stream k) \<longrightarrow> lk_pending k = [] \<and> lk_queued k = [])
     \<and> (lk_closing k \<longrightarrow> lk_queued k = [])
     \<and> (\<not> write_ended h \<longrightarrow> \<not> lk_ends k \<and> \<not> lk_closing k \<and> (hm_state h = STREAM_LIVE \<longrightarrow> writable (lk_stream k)))
     \<and> (hm_state h = STREAM_LIVE \<and> lk_stream k \<noteq> None \<longrightarrow> lk_sent k @ lk_pending k @ lk_queued k = lk_accepted k)
     \<and> prefix (lk_sent k) (lk_accepted k)
     \<and> (hm_state h = STREAM_LIVE \<and> \<not> hm_dropped h \<longrightarrow> lk_read k @ held h = lk_received k)
     \<and> prefix (lk_read k) (lk_received k)"

definition link_ok :: "u32 \<Rightarrow> stream_link \<Rightarrow> bool" where
  "link_ok sid k \<longleftrightarrow>
     (case lk_handle k of
        None \<Rightarrow>
          lk_stream k = None \<and> lk_told k = 0 \<and> lk_queued k = [] \<and> \<not> lk_ends k \<and> lk_pending k = [] \<and> \<not> lk_closing k
          \<and> lk_accepted k = [] \<and> lk_sent k = [] \<and> lk_received k = [] \<and> lk_read k = []
      | Some h \<Rightarrow> handle_ok sid k h)"

text \<open>What was accepted for writing, received from the peer, and read, on each stream of a run.\<close>

record run_log =
  lg_accepted :: "u32 \<Rightarrow> bytes"
  lg_received :: "u32 \<Rightarrow> bytes"
  lg_read :: "u32 \<Rightarrow> bytes"

fun sent_data :: "u32 \<Rightarrow> frame list \<Rightarrow> bytes" where
  "sent_data sid [] = []"
| "sent_data sid (f # fs) = (if stream_id f = sid \<and> flags f = FLAG_DATA then payload f else []) @ sent_data sid fs"

lemma sent_data_append [simp]: "sent_data sid (fs @ gs) = sent_data sid fs @ sent_data sid gs"
  by (induction fs) simp_all

fun event_data :: "u32 \<Rightarrow> mux_event list \<Rightarrow> bytes" where
  "event_data sid [] = []"
| "event_data sid (Data k bs # es) = (if k = sid then bs else []) @ event_data sid es"
| "event_data sid (_ # es) = event_data sid es"

lemma event_data_append [simp]: "event_data sid (es @ es') = event_data sid es @ event_data sid es'"
  by (induction sid es rule: event_data.induct) simp_all

definition stream_link :: "carrier_driver \<Rightarrow> run_log \<Rightarrow> frame list \<Rightarrow> u32 \<Rightarrow> stream_link" where
  "stream_link d lg fs sid = \<lparr>lk_high = high_water (dv_acceptor d), lk_stream = ac_get (dv_acceptor d) sid,
     lk_handle = dv_get d sid, lk_told = told (dv_commands d) sid, lk_queued = queued (dv_commands d) sid,
     lk_ends = ends (dv_commands d) sid, lk_pending = pending_of d sid, lk_closing = sid \<in> set (dv_closing d),
     lk_accepted = lg_accepted lg sid, lk_sent = sent_data sid fs, lk_received = lg_received lg sid,
     lk_read = lg_read lg sid\<rparr>"

text \<open>The bytes on the wire are the encodings of these frames.\<close>

definition on_wire :: "frame list \<Rightarrow> bytes \<Rightarrow> bool" where
  "on_wire fs w \<longleftrightarrow> (\<exists>bss. list_all2 (\<lambda>f bs. encode f = Inr bs) fs bss \<and> w = concat bss)"

lemma on_wire_Nil [simp]: "on_wire [] []"
  by (simp add: on_wire_def)

lemma on_wire_snoc: "on_wire fs w \<Longrightarrow> encode f = Inr bs \<Longrightarrow> on_wire (fs @ [f]) (w @ bs)"
proof -
  assume f: "encode f = Inr bs" and "on_wire fs w"
  then obtain bss where "list_all2 (\<lambda>f bs. encode f = Inr bs) fs bss" "w = concat bss" by (auto simp: on_wire_def)
  with f show ?thesis unfolding on_wire_def by (intro exI [of _ "bss @ [bs]"]) (simp add: list_all2_appendI)
qed

definition driver_inv :: "carrier_driver \<Rightarrow> run_log \<Rightarrow> frame list \<Rightarrow> bool" where
  "driver_inv d lg fs \<longleftrightarrow>
     state_ok (dv_acceptor d) \<and> on_wire fs (dv_wire d)
     \<and> (\<forall>sid. orderly (dv_commands d) sid \<and> link_ok sid (stream_link d lg fs sid))"

text \<open>What is left of it when the driver has stopped.\<close>

definition logs_ok :: "carrier_driver \<Rightarrow> run_log \<Rightarrow> frame list \<Rightarrow> bool" where
  "logs_ok d lg fs \<longleftrightarrow>
     on_wire fs (dv_wire d)
     \<and> (\<forall>sid. prefix (sent_data sid fs) (lg_accepted lg sid) \<and> prefix (lg_read lg sid) (lg_received lg sid))"

lemma link_ok_prefixes:
  "link_ok sid k \<Longrightarrow> prefix (lk_sent k) (lk_accepted k) \<and> prefix (lk_read k) (lk_received k)"
  by (auto simp: link_ok_def handle_ok_def split: option.splits)

lemma driver_inv_logs: "driver_inv d lg fs \<Longrightarrow> logs_ok d lg fs"
proof -
  assume inv: "driver_inv d lg fs"
  then have "link_ok sid (stream_link d lg fs sid)" for sid by (simp add: driver_inv_def)
  from link_ok_prefixes [OF this] inv show ?thesis by (simp add: logs_ok_def driver_inv_def stream_link_def)
qed

subsection \<open>Delivery\<close>

text \<open>What the events of an output do to the handle of one stream.\<close>

fun handle_event :: "u32 \<Rightarrow> mux_event \<Rightarrow> home_stream option \<Rightarrow> home_stream option" where
  "handle_event sid (Opened k) ho = (if k = sid then Some home_stream_new else ho)"
| "handle_event sid (Data k bs) ho = (if k = sid then map_option (send_signal (SigData bs)) ho else ho)"
| "handle_event sid (ReadClosed k) ho = (if k = sid then map_option (send_signal SigReadEof) ho else ho)"
| "handle_event sid (Reset k r) ho =
     (if k = sid then map_option (\<lambda>h. send_signal SigReset (set_state STREAM_RESET h)) ho else ho)"
| "handle_event sid (PeerGone t) ho = ho"

text \<open>The fields that delivery leaves alone.\<close>

definition same_core :: "carrier_driver \<Rightarrow> carrier_driver \<Rightarrow> bool" where
  "same_core d e \<longleftrightarrow>
     dv_acceptor d = dv_acceptor e \<and> dv_pending d = dv_pending e \<and> dv_closing d = dv_closing e
     \<and> dv_commands d = dv_commands e \<and> dv_running d = dv_running e"

lemma same_core_refl [simp]: "same_core d d"
  by (simp add: same_core_def)

lemma same_core_trans: "same_core d e \<Longrightarrow> same_core e f \<Longrightarrow> same_core d f"
  by (simp add: same_core_def)

lemma dv_get_fields [simp]:
  "dv_get (d\<lparr>dv_acceptor := a\<rparr>) = dv_get d" "dv_get (d\<lparr>dv_pending := p\<rparr>) = dv_get d"
  "dv_get (d\<lparr>dv_ready := r\<rparr>) = dv_get d" "dv_get (d\<lparr>dv_closing := r\<rparr>) = dv_get d"
  "dv_get (d\<lparr>dv_commands := cs\<rparr>) = dv_get d" "dv_get (d\<lparr>dv_accepts := r\<rparr>) = dv_get d"
  "dv_get (d\<lparr>dv_owner := b\<rparr>) = dv_get d" "dv_get (d\<lparr>dv_refusals := rc\<rparr>) = dv_get d"
  "dv_get (d\<lparr>dv_carrier := c\<rparr>) = dv_get d" "dv_get (d\<lparr>dv_writer := w\<rparr>) = dv_get d"
  "dv_get (d\<lparr>dv_wire := bs\<rparr>) = dv_get d" "dv_get (d\<lparr>dv_clock := t\<rparr>) = dv_get d"
  "dv_get (d\<lparr>dv_running := b\<rparr>) = dv_get d"
  "dv_get (d\<lparr>dv_streams := table_put (dv_streams d) k h\<rparr>) = (dv_get d)(k \<mapsto> h)"
  by (simp_all add: dv_get_def fun_eq_iff)

lemma dv_get_simps [simp]:
  "dv_get (on_stream k g d) sid = (if k = sid then map_option g (dv_get d sid) else dv_get d sid)"
  "dv_get (put_stream k h d) = (dv_get d)(k \<mapsto> h)"
  "dv_get (close_carrier c d) = dv_get d"
  by (auto simp: on_stream_def put_stream_def close_carrier_def split: option.split)

lemma same_core_fields [simp]:
  "same_core (d\<lparr>dv_streams := t\<rparr>) e = same_core d e" "same_core (d\<lparr>dv_accepts := r\<rparr>) e = same_core d e"
  "same_core (d\<lparr>dv_carrier := c\<rparr>) e = same_core d e" "same_core (d\<lparr>dv_writer := w\<rparr>) e = same_core d e"
  "same_core (d\<lparr>dv_wire := bs\<rparr>) e = same_core d e" "same_core (close_carrier cc d) e = same_core d e"
  "same_core e (d\<lparr>dv_carrier := c\<rparr>) = same_core e d"
  by (simp_all add: same_core_def close_carrier_def)

lemma on_stream_core [simp]: "same_core (on_stream k g d) d" "dv_wire (on_stream k g d) = dv_wire d"
  by (auto simp: on_stream_def split: option.split)

lemma close_carrier_wire [simp]: "dv_wire (close_carrier c d) = dv_wire d"
  by (simp add: close_carrier_def)

lemma deliver_event_effect:
  assumes "deliver_event e d = (ok, d')"
  shows "same_core d' d \<and> dv_wire d' = dv_wire d \<and> dv_get d' sid = handle_event sid e (dv_get d sid)"
  using assms
  by (cases e) (auto simp: deliver_event_def Let_def split: if_splits)

lemma deliver_events_effect:
  "deliver_events es d = (ok, d') \<Longrightarrow>
     same_core d' d \<and> dv_wire d' = dv_wire d \<and> (ok \<longrightarrow> dv_get d' sid = fold (handle_event sid) es (dv_get d sid))"
proof (induction es arbitrary: d)
  case (Cons e es)
  obtain b d1 where e: "deliver_event e d = (b, d1)" by fastforce
  note step = deliver_event_effect [OF e, of sid]
  show ?case
  proof (cases b)
    case True
    with Cons.prems e have "deliver_events es d1 = (ok, d')" by simp
    from Cons.IH [OF this] step show ?thesis by (simp add: same_core_def)
  next
    case False
    with Cons.prems e step show ?thesis by auto
  qed
qed simp

lemma writer_op_effect:
  assumes "writer_op bs d = (ok, d')"
  shows "same_core d' d \<and> dv_get d' = dv_get d \<and> dv_wire d' = (if ok then dv_wire d @ bs else dv_wire d)"
  using assms
  by (auto simp: writer_op_def split: option.splits nat.splits)

lemma write_frames_effect:
  assumes "write_frames gs n d = ((ok, m), d')" and "on_wire fs (dv_wire d)"
  shows "same_core d' d \<and> dv_get d' = dv_get d
    \<and> (\<exists>hs. prefix hs gs \<and> (ok \<longrightarrow> hs = gs) \<and> on_wire (fs @ hs) (dv_wire d'))"
  using assms
proof (induction gs n d arbitrary: fs rule: write_frames.induct)
  case (2 f gs n d)
  show ?case
  proof (cases "encode f")
    case (Inl e)
    with 2(2,3) show ?thesis by (auto intro!: exI [of _ "[]"])
  next
    case (Inr bs)
    obtain b d1 where w: "writer_op bs d = (b, d1)" by fastforce
    note op = writer_op_effect [OF w]
    show ?thesis
    proof (cases b)
      case False
      with 2(2,3) Inr w op show ?thesis by (auto intro!: exI [of _ "[]"])
    next
      case True
      have "on_wire (fs @ [f]) (dv_wire d1)" using 2(3) Inr op True by (simp add: on_wire_snoc)
      moreover have "write_frames gs (if stream_id f = 0 \<and> flags f = FLAG_PONG then n + 1 else n) d1 = ((ok, m), d')"
        using 2(2) Inr w True by simp
      ultimately obtain hs where hs: "same_core d' d1" "dv_get d' = dv_get d1" "prefix hs gs" "ok \<longrightarrow> hs = gs"
        "on_wire ((fs @ [f]) @ hs) (dv_wire d')"
        using 2(1) [OF Inr, of b d1] w True by fastforce
      moreover have "same_core d' d" using op hs(1) same_core_trans by metis
      ultimately show ?thesis using op by (intro conjI exI [of _ "f # hs"]) auto
    qed
  qed
qed (auto intro!: exI [of _ "[]"])

lemma deliver_output_effect:
  assumes "deliver_output out d = (ok, d')" and "on_wire fs (dv_wire d)"
  shows "\<exists>hs. prefix hs (mo_frames out) \<and> (ok \<longrightarrow> hs = mo_frames out) \<and> on_wire (fs @ hs) (dv_wire d')
    \<and> same_core d' d \<and> (\<forall>sid. ok \<longrightarrow> dv_get d' sid = fold (handle_event sid) (mo_events out) (dv_get d sid))"
proof -
  obtain b m d1 where wf: "write_frames (mo_frames out) 0 d = ((b, m), d1)" by (metis prod.exhaust)
  from write_frames_effect [OF wf assms(2)] obtain hs where
    hs: "same_core d1 d" "dv_get d1 = dv_get d" "prefix hs (mo_frames out)" "b \<longrightarrow> hs = mo_frames out"
      "on_wire (fs @ hs) (dv_wire d1)" by blast
  obtain c d2 where fl: "(if mo_frames out \<noteq> [] then writer_op [] d1 else (True, d1)) = (c, d2)" by fastforce
  have d2: "same_core d2 d1 \<and> dv_get d2 = dv_get d1 \<and> dv_wire d2 = dv_wire d1"
    using fl writer_op_effect [of "[]" d1 c d2] by (auto split: if_splits)
  show ?thesis
  proof (cases "b \<and> c")
    case True
    let ?d3 = "d2\<lparr>dv_carrier := record_answers (dv_clock d2) m (dv_carrier d2)\<rparr>"
    have "deliver_events (mo_events out) ?d3 = (ok, d')"
      using assms(1) True wf fl by (simp add: deliver_output_def)
    note ev = deliver_events_effect [OF this]
    have "same_core d' d" using ev hs(1) d2 same_core_trans by (metis same_core_fields(7))
    with ev hs d2 True show ?thesis by (intro exI [of _ hs]) simp
  next
    case False
    with assms(1) wf fl have "\<not> ok \<and> (d' = d1 \<or> d' = d2)"
      by (cases b) (auto simp: deliver_output_def)
    moreover have "same_core d2 d" using hs(1) d2 same_core_trans by metis
    ultimately show ?thesis using hs d2 by (intro exI [of _ hs]) auto
  qed
qed

subsection \<open>Input\<close>

lemma held_simps [simp]:
  "held home_stream_new = []"
  "held (send_signal s h) = held h @ (if hm_dropped h then [] else signal_data [s])"
  "held (set_state v h) = held h" "hm_dropped (send_signal s h) = hm_dropped h"
  "hm_dropped (set_state v h) = hm_dropped h" "hm_state (send_signal s h) = hm_state h"
  "write_ended (send_signal s h) = write_ended h" "write_ended (set_state v h) = write_ended h"
  "sx_staged (hm_status (send_signal s h)) = sx_staged (hm_status h)"
  "sx_staged (hm_status (set_state v h)) = sx_staged (hm_status h)"
  by (simp_all add: held_def home_stream_new_def send_signal_def set_state_def hm_state_def write_ended_def)

lemma home_stream_new_simps [simp]:
  "hm_state home_stream_new = STREAM_LIVE" "sx_staged (hm_status home_stream_new) = 0"
  "\<not> write_ended home_stream_new" "\<not> hm_dropped home_stream_new"
  by (simp_all add: home_stream_new_def status_new_def hm_state_def write_ended_def)

lemma link_ok_raise: "link_ok sid k \<Longrightarrow> lk_high k \<le> h \<Longrightarrow> link_ok sid (k\<lparr>lk_high := h\<rparr>)"
  by (auto simp: link_ok_def handle_ok_def split: option.splits)

lemma link_ok_drop:
  assumes "link_ok sid k"
  shows "link_ok sid (k\<lparr>lk_stream := None, lk_handle := map_option (\<lambda>h. send_signal SigReset (set_state STREAM_RESET h)) (lk_handle k)\<rparr>)"
  using assms by (auto simp: link_ok_def handle_ok_def split: option.splits)

lemma link_ok_open:
  assumes "link_ok sid k" and "lk_high k < unat sid" and "\<not> ss_local_closed s"
    and "ss_debited_not_consumed s = length (event_data sid ds)" and "ds = [Data sid p] \<or> ds = []"
  shows "link_ok sid (k\<lparr>lk_high := unat sid, lk_stream := Some s, lk_received := lk_received k @ event_data sid ds,
    lk_handle := fold (handle_event sid) ds (Some home_stream_new)\<rparr>)"
  using assms by (auto simp: link_ok_def handle_ok_def writable_def split: option.splits)

lemma link_ok_data:
  assumes "link_ok sid k" and "lk_stream k = Some s"
    and "same_books t (s\<lparr>ss_debited_not_consumed := ss_debited_not_consumed s + length p\<rparr>)"
  shows "link_ok sid (k\<lparr>lk_stream := Some t, lk_received := lk_received k @ p,
    lk_handle := map_option (send_signal (SigData p)) (lk_handle k)\<rparr>)"
  using assms by (auto simp: link_ok_def handle_ok_def writable_def same_books_def prefix_append split: option.splits)

lemma link_ok_books:
  assumes "link_ok sid k" and "lk_stream k = Some s" and "same_books t s"
  shows "link_ok sid (k\<lparr>lk_stream := Some t\<rparr>)"
  using assms by (auto simp: link_ok_def handle_ok_def writable_def same_books_def split: option.splits)

lemma link_ok_eof:
  assumes "link_ok sid k"
  shows "link_ok sid (k\<lparr>lk_handle := map_option (send_signal SigReadEof) (lk_handle k)\<rparr>)"
  using assms by (auto simp: link_ok_def handle_ok_def split: option.splits)

lemma link_ok_gone:
  assumes "link_ok sid k" and "lk_stream k = Some s" and "ss_local_closed s"
  shows "link_ok sid (k\<lparr>lk_stream := None\<rparr>)"
  using assms by (auto simp: link_ok_def handle_ok_def writable_def split: option.splits)

definition fed :: "u32 \<Rightarrow> mux_view \<Rightarrow> mux_event list \<Rightarrow> stream_link \<Rightarrow> stream_link" where
  "fed sid w es k = k\<lparr>lk_high := fst w, lk_stream := snd w sid, lk_received := lk_received k @ event_data sid es,
     lk_handle := fold (handle_event sid) es (lk_handle k)\<rparr>"

lemma link_ok_fed:
  assumes "mux_effect v es fs w" and "link_ok sid k" and "lk_high k = fst v" and "lk_stream k = snd v sid"
  shows "link_ok sid (fed sid w es k)"
  using assms(1)
proof (induction rule: mux_effect.induct)
  case start
  have "fed sid v [] k = k" using assms(3,4) by (cases k) (simp add: fed_def)
  with assms(2) show ?case by simp
next
  case (drop es fs h m x r)
  from link_ok_drop [OF drop.IH] drop.IH show ?case by (cases k) (auto simp: fed_def)
next
  case (raise es fs h m h')
  from link_ok_raise [OF raise.IH, of h'] raise.hyps(2) show ?case by (cases k) (simp add: fed_def)
next
  case (opens es fs h m x ds p s)
  show ?case
  proof (cases "x = sid")
    case True
    then show ?thesis using link_ok_open [OF opens.IH, of s ds p] opens.hyps by (cases k) (auto simp: fed_def)
  next
    case False
    with opens.hyps link_ok_raise [OF opens.IH, of "unat x"] show ?thesis by (cases k) (auto simp: fed_def)
  qed
next
  case (data es fs h m x s t p)
  from link_ok_data [OF data.IH, of s t p] data.IH data.hyps show ?case by (cases k) (auto simp: fed_def)
next
  case (half es fs h m x s t)
  show ?case
  proof (cases "x = sid")
    case True
    with half.hyps have s: "lk_stream (fed sid (h, m) es k) = Some s" by (cases k) (simp add: fed_def)
    show ?thesis
      using link_ok_eof [OF link_ok_gone [OF half.IH s]] link_ok_eof [OF link_ok_books [OF half.IH s half.hyps(3)]] True
      by (cases k) (auto simp: fed_def)
  next
    case False
    with half.IH show ?thesis by (cases k) (simp add: fed_def)
  qed
next
  case (credit es fs h m x s t)
  from link_ok_books [OF credit.IH, of s t] credit.IH credit.hyps show ?case by (cases k) (auto simp: fed_def)
qed



subsection \<open>Delivery keeps the invariant\<close>

lemma pending_of_fields [simp]:
  "pending_of (d\<lparr>dv_acceptor := a\<rparr>) = pending_of d" "pending_of (d\<lparr>dv_ready := r\<rparr>) = pending_of d"
  "pending_of (d\<lparr>dv_closing := r\<rparr>) = pending_of d" "pending_of (d\<lparr>dv_commands := cs\<rparr>) = pending_of d"
  "pending_of (d\<lparr>dv_accepts := r\<rparr>) = pending_of d" "pending_of (d\<lparr>dv_owner := b\<rparr>) = pending_of d"
  "pending_of (d\<lparr>dv_refusals := rc\<rparr>) = pending_of d" "pending_of (d\<lparr>dv_carrier := c\<rparr>) = pending_of d"
  "pending_of (d\<lparr>dv_writer := w\<rparr>) = pending_of d" "pending_of (d\<lparr>dv_clock := t\<rparr>) = pending_of d"
  "pending_of (d\<lparr>dv_streams := s\<rparr>) = pending_of d"
  "pending_of (d\<lparr>dv_pending := table_put (dv_pending d) k q\<rparr>) = (pending_of d)(k := q)"
  "pending_of (d\<lparr>dv_pending := table_del (dv_pending d) k\<rparr>) = (pending_of d)(k := [])"
  "pending_of (put_stream k h d) = pending_of d" "pending_of (close_carrier cc d) = pending_of d"
  by (simp_all add: pending_of_def put_stream_def close_carrier_def fun_eq_iff)

lemma stream_link_fields [simp]:
  "stream_link (d\<lparr>dv_ready := r\<rparr>) = stream_link d" "stream_link (d\<lparr>dv_accepts := r\<rparr>) = stream_link d"
  "stream_link (d\<lparr>dv_owner := b\<rparr>) = stream_link d" "stream_link (d\<lparr>dv_refusals := rc\<rparr>) = stream_link d"
  "stream_link (d\<lparr>dv_carrier := c\<rparr>) = stream_link d" "stream_link (d\<lparr>dv_writer := w\<rparr>) = stream_link d"
  "stream_link (d\<lparr>dv_clock := t\<rparr>) = stream_link d" "stream_link (close_carrier cc d) = stream_link d"
  by (simp_all add: stream_link_def fun_eq_iff close_carrier_def)

lemma driver_inv_fields [simp]:
  "driver_inv (d\<lparr>dv_ready := r\<rparr>) = driver_inv d" "driver_inv (d\<lparr>dv_accepts := r\<rparr>) = driver_inv d"
  "driver_inv (d\<lparr>dv_owner := b\<rparr>) = driver_inv d" "driver_inv (d\<lparr>dv_refusals := rc\<rparr>) = driver_inv d"
  "driver_inv (d\<lparr>dv_carrier := c\<rparr>) = driver_inv d" "driver_inv (d\<lparr>dv_writer := w\<rparr>) = driver_inv d"
  "driver_inv (d\<lparr>dv_clock := t\<rparr>) = driver_inv d" "driver_inv (close_carrier cc d) = driver_inv d"
  "logs_ok (close_carrier cc d) = logs_ok d"
  by (simp_all add: driver_inv_def logs_ok_def fun_eq_iff) (simp_all add: close_carrier_def)

lemma driver_invD:
  assumes "driver_inv d lg fs"
  shows "state_ok (dv_acceptor d)" "on_wire fs (dv_wire d)" "orderly (dv_commands d) sid"
    "link_ok sid (stream_link d lg fs sid)"
  using assms by (simp_all add: driver_inv_def)

lemma driver_invI:
  assumes "state_ok (dv_acceptor d)" and "on_wire fs (dv_wire d)" and "\<And>sid. orderly (dv_commands d) sid"
    and "\<And>sid. link_ok sid (stream_link d lg fs sid)"
  shows "driver_inv d lg fs"
  using assms by (simp add: driver_inv_def)

definition fine :: "run_log \<Rightarrow> bool \<times> carrier_driver \<Rightarrow> bool" where
  "fine lg p \<longleftrightarrow> (case p of (ok, d) \<Rightarrow> \<exists>fs. if ok then driver_inv d lg fs else logs_ok d lg fs)"

lemma fineI: "driver_inv d lg fs \<Longrightarrow> fine lg (ok, d)"
  by (auto simp: fine_def dest: driver_inv_logs)

lemma sent_data_prefix: "prefix fs gs \<Longrightarrow> prefix (sent_data sid fs) (sent_data sid gs)"
  by (auto simp: prefix_def)

lemma stream_link_core:
  "same_core d' d \<Longrightarrow> stream_link d' lg fs sid = (stream_link d lg fs sid)\<lparr>lk_handle := dv_get d' sid\<rparr>"
  by (simp add: stream_link_def same_core_def pending_of_def)

lemma deliver_fine:
  assumes del: "deliver_output out d = (ok, d')" and wire: "on_wire fs (dv_wire d)"
    and "state_ok (dv_acceptor d)" and "\<And>sid. orderly (dv_commands d) sid"
    and link: "\<And>sid. link_ok sid ((stream_link d lg (fs @ mo_frames out) sid)
      \<lparr>lk_handle := fold (handle_event sid) (mo_events out) (dv_get d sid)\<rparr>)"
  shows "fine lg (ok, d') \<and> same_core d' d"
proof -
  from deliver_output_effect [OF del wire] obtain hs where
    hs: "prefix hs (mo_frames out)" "ok \<longrightarrow> hs = mo_frames out" "on_wire (fs @ hs) (dv_wire d')" "same_core d' d"
      "\<And>sid. ok \<Longrightarrow> dv_get d' sid = fold (handle_event sid) (mo_events out) (dv_get d sid)" by blast
  have "driver_inv d' lg (fs @ hs)" if ok
    using that hs assms(3,4) link
    by (intro driver_invI) (auto simp: stream_link_core [OF hs(4)] same_core_def)
  moreover have "logs_ok d' lg (fs @ hs)"
  proof -
    have "prefix (sent_data sid (fs @ mo_frames out)) (lg_accepted lg sid) \<and> prefix (lg_read lg sid) (lg_received lg sid)" for sid
      using link_ok_prefixes [OF link [of sid]] by (simp add: stream_link_def)
    moreover have "prefix (sent_data sid (fs @ hs)) (sent_data sid (fs @ mo_frames out))" for sid
      using hs(1) by (intro sent_data_prefix) simp
    ultimately show ?thesis using hs(3) unfolding logs_ok_def by (metis prefix_order.trans)
  qed
  ultimately show ?thesis using hs(4) by (auto simp: fine_def)
qed

text \<open>Outputs without events and without data.\<close>

definition silent :: "mux_output \<Rightarrow> bool" where
  "silent out \<longleftrightarrow> mo_events out = [] \<and> (\<forall>f\<in>set (mo_frames out). flags f \<noteq> FLAG_DATA)"

lemma sent_data_other: "(\<And>f. f \<in> set fs \<Longrightarrow> flags f \<noteq> FLAG_DATA) \<Longrightarrow> sent_data sid fs = []"
  by (induction fs) auto

lemma deliver_silent:
  assumes "deliver_output out d = (ok, d')" and inv: "driver_inv d lg fs" and "silent out"
  shows "fine lg (ok, d') \<and> same_core d' d"
proof (rule deliver_fine [OF assms(1)])
  fix sid
  have "sent_data sid (mo_frames out) = []" using assms(3) by (intro sent_data_other) (simp add: silent_def)
  then show "link_ok sid ((stream_link d lg (fs @ mo_frames out) sid)
      \<lparr>lk_handle := fold (handle_event sid) (mo_events out) (dv_get d sid)\<rparr>)"
    using driver_invD(4) [OF inv, of sid] assms(3) by (simp add: silent_def stream_link_def)
qed (use driver_invD [OF inv] in simp_all)

lemma deliver_fed:
  assumes "deliver_output out (d\<lparr>dv_acceptor := a\<rparr>) = (ok, d')" and inv: "driver_inv d lg fs"
    and feed: "acceptor_feed (dv_acceptor d) bs = (Inr out, a)"
  shows "fine (lg\<lparr>lg_received := \<lambda>sid. lg_received lg sid @ event_data sid (mo_events out)\<rparr>) (ok, d') \<and> same_core d' (d\<lparr>dv_acceptor := a\<rparr>)"
proof (rule deliver_fine [OF assms(1)])
  note eff = feed_effect [OF feed]
  show "state_ok (dv_acceptor (d\<lparr>dv_acceptor := a\<rparr>))"
    using step_preserves [OF acceptor_step.feed [OF feed]] driver_invD(1) [OF inv] by simp
  fix sid
  have "link_ok sid (fed sid (mux_view a) (mo_events out) (stream_link d lg fs sid))"
    by (rule link_ok_fed [OF eff driver_invD(4) [OF inv]]) (simp_all add: stream_link_def mux_view_def)
  moreover have "sent_data sid (mo_frames out) = []"
    using effect_frames [OF eff] by (intro sent_data_other) (fastforce simp: flag_defs)
  ultimately show "link_ok sid ((stream_link (d\<lparr>dv_acceptor := a\<rparr>)
      (lg\<lparr>lg_received := \<lambda>sid. lg_received lg sid @ event_data sid (mo_events out)\<rparr>) (fs @ mo_frames out) sid)
      \<lparr>lk_handle := fold (handle_event sid) (mo_events out) (dv_get (d\<lparr>dv_acceptor := a\<rparr>) sid)\<rparr>)"
    by (simp add: stream_link_def fed_def mux_view_def)
qed (use driver_invD [OF inv] in simp_all)

end
