(* ===== verification/Spl_Driver_Loop.thy ===== *)
theory Spl_Driver_Loop
  imports Spl_Driver_Inv
begin

text \<open>
  Every arm of the driver loop, and flushing after it, keeps the invariant of the connection; when
  the loop ends, the wire and the logs still fit together and every handle has failed.
\<close>

subsection \<open>Discarding, closing, sending\<close>

abbreviation release :: "nat \<Rightarrow> home_stream \<Rightarrow> home_stream" where
  "release n h \<equiv> h\<lparr>hm_status := release_staging (hm_status h) n\<rparr>"

lemma release_simps [simp]:
  "held (release n h) = held h" "hm_state (release n h) = hm_state h" "write_ended (release n h) = write_ended h"
  "sx_staged (release_staging x n) = sx_staged x - n"
  by (simp_all add: held_def hm_state_def write_ended_def release_staging_def)

text \<open>A change of a handle that gives back its staged bytes, and nothing else that matters here.\<close>

definition gives_back :: "nat \<Rightarrow> (home_stream \<Rightarrow> home_stream) \<Rightarrow> bool" where
  "gives_back n g \<longleftrightarrow> (\<forall>h. held (g h) = held h \<and> hm_state (g h) = hm_state h \<and> hm_dropped (g h) = hm_dropped h
     \<and> write_ended (g h) = write_ended h \<and> sx_staged (hm_status (g h)) = sx_staged (hm_status h) - n)"

lemma gives_back_simps [simp]: "gives_back n (release n)" "gives_back 0 id"
  by (simp_all add: gives_back_def)

lemma link_ok_discard:
  assumes "link_ok sid k" and "so = None \<or> so = lk_stream k" and "gives_back (length (lk_pending k)) g"
    and "\<And>h. lk_handle k = Some h \<Longrightarrow> hm_state h \<noteq> STREAM_LIVE \<or> so = None \<and> lk_queued k = [] \<and> write_ended h"
  shows "link_ok sid (k\<lparr>lk_stream := so, lk_pending := [], lk_closing := False, lk_handle := map_option g (lk_handle k)\<rparr>)"
proof (cases "lk_handle k")
  case None
  with assms(1,2) show ?thesis by (auto simp: link_ok_def)
next
  case (Some h)
  then have "handle_ok sid k h" using assms(1) by (simp add: link_ok_def)
  moreover have "held (g h) = held h" "hm_state (g h) = hm_state h" "hm_dropped (g h) = hm_dropped h"
    "write_ended (g h) = write_ended h" "sx_staged (hm_status (g h)) = sx_staged (hm_status h) - length (lk_pending k)"
    using assms(3) by (simp_all add: gives_back_def)
  ultimately have "handle_ok sid (k\<lparr>lk_stream := so, lk_pending := [], lk_closing := False, lk_handle := Some (g h)\<rparr>) (g h)"
    using assms(2) assms(4) [OF Some] unfolding handle_ok_def by auto
  with Some show ?thesis by (simp add: link_ok_def)
qed

lemma on_stream_fields [simp]:
  "dv_acceptor (on_stream k g d) = dv_acceptor d" "dv_pending (on_stream k g d) = dv_pending d"
  "dv_closing (on_stream k g d) = dv_closing d" "dv_commands (on_stream k g d) = dv_commands d"
  "dv_running (on_stream k g d) = dv_running d" "pending_of (on_stream k g d) = pending_of d"
  "dv_ready (on_stream k g d) = dv_ready d"
  by (auto simp: on_stream_def split: option.split)

lemma stream_link_discard:
  "\<exists>g. gives_back (length (pending_of d sid)) g
     \<and> stream_link (discard_pending_stream sid d) lg fs = (stream_link d lg fs)
       (sid := (stream_link d lg fs sid)\<lparr>lk_pending := [], lk_closing := False, lk_handle := map_option g (dv_get d sid)\<rparr>)"
proof (cases "table_get (dv_pending d) sid")
  case None
  then show ?thesis
    by (intro exI [of _ id])
      (auto simp: discard_pending_stream_def stream_link_def pending_of_def fun_eq_iff dv_get_def option.map_id)
next
  case (Some q)
  then have q: "pending_of d sid = q" by (simp add: pending_of_def)
  show ?thesis
    using q Some
    by (intro exI [of _ "release (length q)"])
      (auto simp: discard_pending_stream_def Let_def stream_link_def fun_eq_iff)
qed

lemma discard_core [simp]:
  "dv_acceptor (discard_pending_stream sid d) = dv_acceptor d" "dv_wire (discard_pending_stream sid d) = dv_wire d"
  "dv_commands (discard_pending_stream sid d) = dv_commands d" "dv_running (discard_pending_stream sid d) = dv_running d"
  by (auto simp: discard_pending_stream_def Let_def split: option.split)

text \<open>Discarding what is pending, with or without losing the stream.\<close>

lemma discard_link_ok:
  assumes "link_ok k (stream_link d lg fs k)" and "k = sid \<Longrightarrow> so = None \<or> so = ac_get (dv_acceptor d) sid"
    and "\<And>h. dv_get d sid = Some h \<Longrightarrow> hm_state h \<noteq> STREAM_LIVE
      \<or> so = None \<and> queued (dv_commands d) sid = [] \<and> write_ended h"
  shows "link_ok k (if k = sid then (stream_link (discard_pending_stream sid d) lg fs sid)\<lparr>lk_stream := so\<rparr>
    else stream_link (discard_pending_stream sid d) lg fs k)"
proof -
  obtain g where g: "gives_back (length (pending_of d sid)) g"
    "stream_link (discard_pending_stream sid d) lg fs = (stream_link d lg fs)
       (sid := (stream_link d lg fs sid)\<lparr>lk_pending := [], lk_closing := False, lk_handle := map_option g (dv_get d sid)\<rparr>)"
    using stream_link_discard by blast
  show ?thesis
  proof (cases "k = sid")
    case True
    let ?k = "stream_link d lg fs sid"
    have "link_ok sid (?k\<lparr>lk_stream := so, lk_pending := [], lk_closing := False, lk_handle := map_option g (lk_handle ?k)\<rparr>)"
      by (rule link_ok_discard) (use assms True g(1) in \<open>simp_all add: stream_link_def\<close>)
    then show ?thesis using g(2) True by (simp add: stream_link_def)
  qed (use assms g in simp)
qed

lemma discard_inv:
  assumes inv: "driver_inv d lg fs" and "\<And>h. dv_get d sid = Some h \<Longrightarrow> hm_state h \<noteq> STREAM_LIVE"
  shows "driver_inv (discard_pending_stream sid d) lg fs"
proof (rule driver_invI)
  fix k
  have "link_ok k (if k = sid
      then (stream_link (discard_pending_stream sid d) lg fs sid)\<lparr>lk_stream := ac_get (dv_acceptor d) sid\<rparr>
      else stream_link (discard_pending_stream sid d) lg fs k)"
    by (rule discard_link_ok [OF driver_invD(4) [OF inv]]) (use assms(2) in auto)
  then show "link_ok k (stream_link (discard_pending_stream sid d) lg fs k)"
    by (cases "k = sid") (simp_all add: stream_link_def)
qed (use driver_invD [OF inv] in simp_all)

lemma link_ok_close:
  assumes "link_ok sid k" and "lk_closing k" and "lk_pending k = []"
    and "so = lk_stream k \<or> (\<exists>s. lk_stream k = Some s \<and> (so = None \<or> so = Some (s\<lparr>ss_local_closed := True\<rparr>)))"
  shows "link_ok sid (k\<lparr>lk_closing := False, lk_stream := so\<rparr>)"
  using assms by (auto simp: link_ok_def handle_ok_def writable_def split: option.splits)

lemma close_if_asked_fine:
  assumes inv: "driver_inv d lg fs" and "pending_of d sid = []" and eq: "close_if_asked sid d = (ok, d')"
  shows "fine lg (ok, d') \<and> dv_commands d' = dv_commands d \<and> dv_running d' = dv_running d"
proof (cases "sid \<in> set (dv_closing d)")
  case False
  with eq inv show ?thesis by (auto simp: close_if_asked_def intro: fineI)
next
  case True
  obtain r a where cw: "close_write (dv_acceptor d) sid = (r, a)" by fastforce
  let ?d1 = "d\<lparr>dv_closing := removeAll sid (dv_closing d), dv_acceptor := a\<rparr>"
  have ac: "high_water a = high_water (dv_acceptor d)" "k \<noteq> sid \<Longrightarrow> ac_get a k = ac_get (dv_acceptor d) k"
    "ac_get a sid = ac_get (dv_acceptor d) sid \<or> (\<exists>s. ac_get (dv_acceptor d) sid = Some s
      \<and> (ac_get a sid = None \<or> ac_get a sid = Some (s\<lparr>ss_local_closed := True\<rparr>)))" for k
    using cw by (auto simp: close_write_def Let_def split: option.splits if_splits)
  have inv1: "driver_inv ?d1 lg fs"
  proof (rule driver_invI)
    show "state_ok (dv_acceptor ?d1)"
      using step_preserves [OF acceptor_step.close [OF cw]] driver_invD(1) [OF inv] by simp
    fix k
    have "link_ok sid ((stream_link d lg fs sid)\<lparr>lk_closing := False, lk_stream := ac_get a sid\<rparr>)"
      by (rule link_ok_close [OF driver_invD(4) [OF inv]]) (use assms(2) True ac(3) in \<open>simp_all add: stream_link_def\<close>)
    then show "link_ok k (stream_link ?d1 lg fs k)"
      using driver_invD(4) [OF inv, of k] ac(1,2) by (cases "k = sid") (simp_all add: stream_link_def)
  qed (use driver_invD [OF inv] in simp_all)
  show ?thesis
  proof (cases r)
    case (Inl e)
    then have "e = Closed" "d' = ?d1" "ok"
      using cw eq True by (auto simp: close_if_asked_def close_write_def Let_def split: option.splits if_splits)
    with inv1 show ?thesis by (simp add: fineI)
  next
    case (Inr out)
    have "silent out"
      using cw Inr by (auto simp: close_write_def Let_def silent_def mux_output_default_def flag_defs split: option.splits if_splits)
    moreover have "deliver_output out ?d1 = (ok, d')" using cw eq True Inr by (simp add: close_if_asked_def)
    ultimately have "fine lg (ok, d') \<and> same_core d' ?d1" using deliver_silent [OF _ inv1] by blast
    then show ?thesis by (simp add: same_core_def)
  qed
qed

lemma try_send_writable:
  assumes "writable (ac_get a sid)" and "length bs \<le> RECOMMENDED_CHUNK"
  obtains s where "ac_get a sid = Some s" "\<not> ss_local_closed s" "ss_send_credit s < length bs" "try_send_data a sid bs = (Inr None, a)"
  | s where "ac_get a sid = Some s" "\<not> ss_local_closed s" "try_send_data a sid bs
      = (Inr (Some (put_frame mux_output_default (frame_new sid FLAG_DATA bs))),
         ac_put a sid (s\<lparr>ss_send_credit := ss_send_credit s - length bs\<rparr>))"
proof -
  from assms(1) obtain s where "ac_get a sid = Some s" "\<not> ss_local_closed s"
    by (auto simp: writable_def split: option.splits)
  with assms(2) that show thesis
    by (cases "ss_send_credit s < length bs") (simp_all add: try_send_data_def usize_checked_sub_def)
qed

text \<open>A chunk of pending bytes moves to the wire.\<close>

lemma link_ok_sent:
  assumes "link_ok sid k" and "lk_stream k = Some s" and "same_books t s" and "lk_handle k = Some h"
    and "hm_state h = STREAM_LIVE" and "lk_pending k = bs @ rest"
  shows "link_ok sid (k\<lparr>lk_stream := Some t, lk_pending := rest, lk_sent := lk_sent k @ bs, lk_handle := Some (release (length bs) h)\<rparr>)"
    and "prefix (lk_sent k @ bs) (lk_accepted k)"
proof -
  have acc: "lk_accepted k = lk_sent k @ bs @ rest @ lk_queued k"
    using assms by (simp add: link_ok_def handle_ok_def)
  then show "prefix (lk_sent k @ bs) (lk_accepted k)" by simp
  with assms acc show "link_ok sid (k\<lparr>lk_stream := Some t, lk_pending := rest, lk_sent := lk_sent k @ bs,
      lk_handle := Some (release (length bs) h)\<rparr>)"
    by (auto simp: link_ok_def handle_ok_def writable_def same_books_def)
qed

lemma driver_inv_cong:
  assumes "dv_acceptor d' = dv_acceptor d" and "dv_wire d' = dv_wire d" and "dv_commands d' = dv_commands d"
    and "dv_get d' = dv_get d" and "pending_of d' = pending_of d" and "dv_closing d' = dv_closing d"
  shows "driver_inv d' lg fs = driver_inv d lg fs"
  using assms by (simp add: driver_inv_def stream_link_def)

lemma drop_empty_pending:
  "pending_of d sid = [] \<Longrightarrow> driver_inv (d\<lparr>dv_pending := table_del (dv_pending d) sid\<rparr>) lg fs = driver_inv d lg fs"
  by (rule driver_inv_cong) (auto simp: fun_eq_iff)

definition chunk_sent :: "u32 \<Rightarrow> bytes \<Rightarrow> bytes \<Rightarrow> mux_acceptor \<Rightarrow> carrier_driver \<Rightarrow> carrier_driver" where
  "chunk_sent sid bs rest a d = d\<lparr>dv_pending := table_put (dv_pending d) sid rest, dv_acceptor := a\<rparr>"

lemma send_chunk_fine:
  assumes inv: "driver_inv d lg fs" and "pending_of d sid = bs @ rest" and "bs \<noteq> []"
    and h: "dv_get d sid = Some h" "hm_state h = STREAM_LIVE" and s: "ac_get (dv_acceptor d) sid = Some s"
    and send: "try_send_data (dv_acceptor d) sid bs = (Inr (Some (put_frame mux_output_default (frame_new sid FLAG_DATA bs))), a)"
      "a = ac_put (dv_acceptor d) sid t" "same_books t s"
    and del: "deliver_output (put_frame mux_output_default (frame_new sid FLAG_DATA bs)) (chunk_sent sid bs rest a d) = (ok, d2)"
  shows "fine lg (ok, on_stream sid (release (length bs)) d2)
    \<and> dv_commands d2 = dv_commands d \<and> dv_running d2 = dv_running d \<and> pending_of d2 = (pending_of d)(sid := rest)"
proof -
  let ?f = "frame_new sid FLAG_DATA bs" and ?k = "stream_link d lg fs sid"
  have out: "mo_frames (put_frame mux_output_default ?f) = [?f]" "mo_events (put_frame mux_output_default ?f) = []"
    by (simp_all add: mux_output_default_def)
  have "on_wire fs (dv_wire (chunk_sent sid bs rest a d))" using driver_invD(2) [OF inv] by (simp add: chunk_sent_def)
  from deliver_output_effect [OF del this, unfolded out] obtain hs where hs: "prefix hs [?f]" "ok \<longrightarrow> hs = [?f]"
    "on_wire (fs @ hs) (dv_wire d2)" "same_core d2 (chunk_sent sid bs rest a d)"
    and "\<forall>k. ok \<longrightarrow> dv_get d2 k = fold (handle_event k) [] (dv_get (chunk_sent sid bs rest a d) k)"
    by blast
  then have get: "dv_get d2 k = dv_get d k" if ok for k using that by (simp add: chunk_sent_def)
  have core: "dv_acceptor d2 = a" "dv_commands d2 = dv_commands d" "dv_closing d2 = dv_closing d" "dv_running d2 = dv_running d"
    "pending_of d2 = (pending_of d)(sid := rest)"
    using hs(4) by (auto simp: same_core_def chunk_sent_def pending_of_def fun_eq_iff)
  have link: "link_ok sid (?k\<lparr>lk_stream := Some t, lk_pending := rest, lk_sent := sent_data sid fs @ bs, lk_handle := Some (release (length bs) h)\<rparr>)"
    "prefix (sent_data sid fs @ bs) (lg_accepted lg sid)"
    using link_ok_sent [OF driver_invD(4) [OF inv, of sid], of s t h bs rest] assms(2) h s send(3)
    by (simp_all add: stream_link_def)
  have data: "sent_data k hs = (if ok \<and> k = sid then bs else sent_data k hs)" "sent_data k hs = [] \<or> k = sid \<and> sent_data k hs = bs" for k
    using hs(1,2) by (auto simp: prefix_Cons split: if_splits)
  have "driver_inv (on_stream sid (release (length bs)) d2) lg (fs @ hs)" if ok
  proof (rule driver_invI)
    show "state_ok (dv_acceptor (on_stream sid (release (length bs)) d2))"
      using step_preserves [OF acceptor_step.send [OF send(1)]] driver_invD(1) [OF inv] by (simp add: core)
    fix k
    show "link_ok k (stream_link (on_stream sid (release (length bs)) d2) lg (fs @ hs) k)"
      using link(1) driver_invD(4) [OF inv, of k] data [of k] that h get
      by (cases "k = sid") (auto simp: stream_link_def core send(2))
  qed (use driver_invD [OF inv] hs(3) core in simp_all)
  moreover have "logs_ok (on_stream sid (release (length bs)) d2) lg (fs @ hs)"
    unfolding logs_ok_def
  proof (intro conjI allI)
    fix k
    have "prefix (sent_data k fs) (lg_accepted lg k) \<and> prefix (lg_read lg k) (lg_received lg k)"
      using link_ok_prefixes [OF driver_invD(4) [OF inv, of k]] by (simp add: stream_link_def)
    with data(2) [of k] link(2) show "prefix (sent_data k (fs @ hs)) (lg_accepted lg k)" "prefix (lg_read lg k) (lg_received lg k)"
      by auto
  qed (use hs(3) in simp)
  ultimately show ?thesis using core by (auto simp: fine_def)
qed

lemma chunk_positive [simp]: "min (length q) RECOMMENDED_CHUNK = 0 \<longleftrightarrow> q = []" "0 < RECOMMENDED_CHUNK"
  by (auto simp: RECOMMENDED_CHUNK_def min_def)

definition kept :: "run_log \<Rightarrow> carrier_driver \<Rightarrow> bool \<Rightarrow> carrier_driver \<Rightarrow> bool" where
  "kept lg d ok d' \<longleftrightarrow> fine lg (ok, d') \<and> dv_commands d' = dv_commands d \<and> dv_running d' = dv_running d"

lemma flush_pending_fine:
  assumes inv: "driver_inv d lg fs" and q: "table_get (dv_pending d) sid = Some queue" "queue \<noteq> []"
    and live: "\<not> (case dv_get d sid of Some h \<Rightarrow> hm_state h \<noteq> STREAM_LIVE | None \<Rightarrow> False)"
    and eq: "flush_stream sid d = ((ok, sent), d')"
  shows "kept lg d ok d'"
proof -
  let ?n = "min (length queue) RECOMMENDED_CHUNK"
  let ?bs = "take ?n queue" and ?rest = "drop ?n queue"
  have pend: "pending_of d sid = ?bs @ ?rest" "?bs \<noteq> []" using q by (simp_all add: pending_of_def)
  note link = driver_invD(4) [OF inv, of sid]
  from link q obtain h where h: "dv_get d sid = Some h"
    by (cases "dv_get d sid") (auto simp: link_ok_def stream_link_def pending_of_def)
  with live have st: "hm_state h = STREAM_LIVE" by simp
  have "writable (ac_get (dv_acceptor d) sid)"
    using link h st q by (auto simp: link_ok_def handle_ok_def stream_link_def pending_of_def)
  moreover have "length ?bs \<le> RECOMMENDED_CHUNK" by simp
  ultimately show ?thesis
  proof (cases rule: try_send_writable)
    case (1 s)
    let ?d = "d\<lparr>dv_pending := table_put (dv_pending d) sid queue\<rparr>"
    have "driver_inv ?d lg fs = driver_inv d lg fs"
      by (rule driver_inv_cong) (use pend in \<open>auto simp: fun_eq_iff\<close>)
    moreover have "ok \<and> d' = ?d" using eq live q 1(4) by (auto simp: flush_stream_def Let_def)
    ultimately show ?thesis using inv by (simp add: kept_def fineI)
  next
    case (2 s)
    define a where "a = ac_put (dv_acceptor d) sid (s\<lparr>ss_send_credit := ss_send_credit s - length ?bs\<rparr>)"
    obtain b d2 where del: "deliver_output (put_frame mux_output_default (frame_new sid FLAG_DATA ?bs))
        (chunk_sent sid ?bs ?rest a d) = (b, d2)" by fastforce
    let ?d3 = "on_stream sid (release (length ?bs)) d2"
    have sent: "fine lg (b, ?d3) \<and> dv_commands d2 = dv_commands d \<and> dv_running d2 = dv_running d
        \<and> pending_of d2 = (pending_of d)(sid := ?rest)"
      by (rule send_chunk_fine [OF inv pend h st 2(1) 2(3) [folded a_def] a_def _ del]) (simp add: same_books_def)
    have del': "deliver_output (put_frame mux_output_default (frame_new sid FLAG_DATA ?bs))
        (d\<lparr>dv_pending := table_put (dv_pending d) sid ?rest, dv_acceptor := a\<rparr>) = (b, d2)"
      using del by (simp add: chunk_sent_def)
    show ?thesis
    proof (cases b)
      case False
      with eq live q 2(3) del' have "\<not> ok \<and> d' = d2" by (auto simp: flush_stream_def Let_def a_def)
      with sent False show ?thesis by (simp add: kept_def fine_def logs_ok_def)
    next
      case True
      with sent obtain gs where inv3: "driver_inv ?d3 lg gs" by (auto simp: fine_def)
      show ?thesis
      proof (cases "?rest = []")
        case False
        with eq live q 2(3) del' True have "ok \<and> d' = ?d3\<lparr>dv_ready := dv_ready ?d3 @ [sid]\<rparr>"
          by (auto simp: flush_stream_def Let_def a_def)
        with inv3 sent show ?thesis by (auto simp: kept_def intro: fineI)
      next
        case all: True
        define d3 where "d3 = ?d3"
        let ?d4 = "d3\<lparr>dv_pending := table_del (dv_pending d3) sid\<rparr>"
        have d3: "pending_of d3 sid = []" "dv_commands d3 = dv_commands d" "dv_running d3 = dv_running d"
          using sent all by (simp_all add: d3_def)
        then have d4: "driver_inv ?d4 lg gs" "pending_of ?d4 sid = []"
          using inv3 [folded d3_def] by (simp_all add: drop_empty_pending)
        have "close_if_asked sid ?d4 = (ok, d')"
          using eq live q 2(3) del' True all by (auto simp: flush_stream_def Let_def a_def d3_def split: prod.splits)
        from close_if_asked_fine [OF d4 this] d3 show ?thesis by (simp add: kept_def)
      qed
    qed
  qed
qed

lemma flush_stream_fine:
  assumes inv: "driver_inv d lg fs" and eq: "flush_stream sid d = ((ok, sent), d')"
  shows "kept lg d ok d'"
proof (cases "case dv_get d sid of Some h \<Rightarrow> hm_state h \<noteq> STREAM_LIVE | None \<Rightarrow> False")
  case True
  with eq have "ok \<and> d' = discard_pending_stream sid d" by (auto simp: flush_stream_def)
  moreover have "driver_inv (discard_pending_stream sid d) lg fs"
    by (rule discard_inv [OF inv]) (use True in simp)
  ultimately show ?thesis by (simp add: kept_def fineI)
next
  case live: False
  show ?thesis
  proof (cases "table_get (dv_pending d) sid")
    case None
    with live eq have "close_if_asked sid d = (ok, d')" by (auto simp: flush_stream_def split: prod.splits)
    moreover have "pending_of d sid = []" using None by (simp add: pending_of_def)
    ultimately show ?thesis using close_if_asked_fine [OF inv] by (simp add: kept_def)
  next
    case (Some queue)
    show ?thesis
    proof (cases "queue = []")
      case True
      let ?d = "d\<lparr>dv_pending := table_del (dv_pending d) sid\<rparr>"
      have "pending_of d sid = []" using Some True by (simp add: pending_of_def)
      then have d: "driver_inv ?d lg fs" "pending_of ?d sid = []" using inv by (simp_all add: drop_empty_pending)
      have "close_if_asked sid ?d = (ok, d')"
        using eq live Some True by (auto simp: flush_stream_def Let_def split: prod.splits)
      from close_if_asked_fine [OF d this] show ?thesis by (simp add: kept_def)
    next
      case False
      with inv Some live eq show ?thesis by (intro flush_pending_fine)
    qed
  qed
qed

subsection \<open>The driver loop\<close>

lemma flush_rounds_fine:
  assumes "driver_inv d lg fs" and "flush_rounds n p d = ((ok, q), d')"
  shows "kept lg d ok d'"
  using assms
proof (induction n arbitrary: p d fs)
  case 0
  then show ?case by (simp add: kept_def fineI)
next
  case (Suc n)
  show ?case
  proof (cases "dv_ready d")
    case Nil
    with Suc.prems show ?thesis by (simp add: kept_def fineI)
  next
    case (Cons sid rest)
    obtain b sent d1 where fl: "flush_stream sid (d\<lparr>dv_ready := rest\<rparr>) = ((b, sent), d1)" by (metis prod.exhaust)
    have k: "kept lg (d\<lparr>dv_ready := rest\<rparr>) b d1" by (rule flush_stream_fine [OF _ fl]) (use Suc.prems in simp)
    show ?thesis
    proof (cases b)
      case False
      with Suc.prems(2) Cons fl k show ?thesis by (simp add: kept_def)
    next
      case True
      with k obtain gs where "driver_inv d1 lg gs" by (auto simp: kept_def fine_def)
      moreover have "flush_rounds n (p \<or> sent) d1 = ((ok, q), d')" using Suc.prems(2) Cons fl True by simp
      ultimately have "kept lg d1 ok d'" by (rule Suc.IH)
      with k show ?thesis by (simp add: kept_def)
    qed
  qed
qed

lemma driver_inv_wake: "driver_inv (d\<lparr>dv_commands := dv_commands d @ [CmdWake]\<rparr>) lg fs = driver_inv d lg fs"
  by (simp add: driver_inv_def stream_link_def)

lemma flush_ready_fine:
  assumes "driver_inv d lg fs" and "flush_ready d = (ok, d')"
  shows "fine lg (ok, d') \<and> dv_running d' = dv_running d"
proof -
  obtain b p d1 where fl: "flush_rounds (length (dv_ready d)) False d = ((b, p), d1)" by (metis prod.exhaust)
  with flush_rounds_fine [OF assms(1)] have k: "kept lg d b d1" by blast
  from assms(2) fl have "ok = b \<and> (d' = d1 \<or> b \<and> d' = d1\<lparr>dv_commands := dv_commands d1 @ [CmdWake]\<rparr>)"
    by (cases b) (auto simp: flush_ready_def split: if_splits)
  moreover have "fine lg (b, d1)" "dv_running d1 = dv_running d" using k by (simp_all add: kept_def)
  ultimately show ?thesis by (auto simp: fine_def driver_inv_wake)
qed

text \<open>An arm of the loop: unless it breaks, the invariant holds.\<close>

definition arm_fine :: "run_log \<Rightarrow> carrier_driver \<Rightarrow> flow \<times> carrier_driver \<Rightarrow> bool" where
  "arm_fine lg d p \<longleftrightarrow> (case p of (w, d') \<Rightarrow> fine lg (w \<noteq> Break, d') \<and> dv_running d' = dv_running d)"

lemma deliver_or_break_fine:
  assumes "\<And>ok d'. deliver_output out d = (ok, d') \<Longrightarrow> fine lg (ok, d') \<and> dv_running d' = dv_running d"
  shows "arm_fine lg d (deliver_or_break out d)"
proof -
  obtain ok d' where eq: "deliver_output out d = (ok, d')" by fastforce
  from assms [OF eq] show ?thesis
    by (cases ok) (auto simp: deliver_or_break_def eq arm_fine_def fine_def close_carrier_def logs_ok_def)
qed

lemma mark_writable_streams_ready: "\<exists>r. mark_writable_streams out d = d\<lparr>dv_ready := r\<rparr>"
proof -
  have "\<exists>r. fold mark_writable xs d = d\<lparr>dv_ready := r\<rparr>" for xs
  proof (induction xs arbitrary: d)
    case Nil
    show ?case by (intro exI [of _ "dv_ready d"]) simp
  next
    case (Cons x xs)
    have "mark_writable x d = d \<or> mark_writable x d = d\<lparr>dv_ready := dv_ready d @ [x]\<rparr>"
      by (simp add: mark_writable_def)
    with Cons [of "mark_writable x d"] show ?case by auto
  qed
  then show ?thesis by (simp add: mark_writable_streams_def)
qed

text \<open>The bytes that a call hands to the driver for a stream.\<close>

definition input_data :: "driver_input \<Rightarrow> carrier_driver \<Rightarrow> u32 \<Rightarrow> bytes" where
  "input_data i d sid =
     (case i of
        ReadBytes bs \<Rightarrow>
          (if bs = [] then []
           else (case acceptor_feed (dv_acceptor d) bs of (Inr out, _) \<Rightarrow> event_data sid (mo_events out) | _ \<Rightarrow> []))
      | _ \<Rightarrow> [])"

abbreviation receive :: "(u32 \<Rightarrow> bytes) \<Rightarrow> run_log \<Rightarrow> run_log" where
  "receive r lg \<equiv> lg\<lparr>lg_received := \<lambda>sid. lg_received lg sid @ r sid\<rparr>"

lemma on_read_fine:
  assumes inv: "driver_inv d lg fs"
  shows "arm_fine (receive (input_data (ReadBytes bs) d) lg) d (on_read bs d)"
proof (cases "bs = []")
  case True
  obtain out a where eof: "acceptor_finish_eof (dv_acceptor d) = (out, a)" by fastforce
  have out: "mo_frames out = []" using eof by (auto simp: acceptor_finish_eof_def mux_output_default_def)
  define d1 where "d1 = mark_writable_streams out (close_carrier (PeerEof (list_ex (\<lambda>e. e = PeerGone True) (mo_events out)))
      (d\<lparr>dv_acceptor := a\<rparr>))"
  obtain r where "d1 = (close_carrier (PeerEof (list_ex (\<lambda>e. e = PeerGone True) (mo_events out))) (d\<lparr>dv_acceptor := a\<rparr>))\<lparr>dv_ready := r\<rparr>"
    using mark_writable_streams_ready d1_def by metis
  then have d1: "dv_wire d1 = dv_wire d" "dv_running d1 = dv_running d" by (simp_all add: close_carrier_def)
  obtain ok d' where del: "deliver_output out d1 = (ok, d')" by fastforce
  have "on_wire fs (dv_wire d1)" using driver_invD(2) [OF inv] d1 by simp
  from deliver_output_effect [OF del this] have "on_wire fs (dv_wire d')" "dv_running d' = dv_running d"
    using out d1 by (auto simp: same_core_def)
  moreover have "on_read bs d = (Break, d')" using True eof del by (simp add: on_read_def Let_def d1_def)
  moreover have "receive (input_data (ReadBytes bs) d) lg = lg" using True by (simp add: input_data_def)
  ultimately show ?thesis using driver_inv_logs [OF inv] by (auto simp: arm_fine_def fine_def logs_ok_def)
next
  case False
  obtain r a where feed: "acceptor_feed (dv_acceptor d) bs = (r, a)" by fastforce
  show ?thesis
  proof (cases r)
    case (Inl e)
    with False feed driver_inv_logs [OF inv] show ?thesis
      by (auto simp: on_read_def input_data_def arm_fine_def fine_def logs_ok_def close_carrier_def)
  next
    case (Inr out)
    obtain r where mark: "mark_writable_streams out (d\<lparr>dv_acceptor := a\<rparr>) = d\<lparr>dv_acceptor := a, dv_ready := r\<rparr>"
      using mark_writable_streams_ready by metis
    let ?d = "d\<lparr>dv_ready := r\<rparr>" and ?lg = "receive (\<lambda>sid. event_data sid (mo_events out)) lg"
    have feed': "acceptor_feed (dv_acceptor ?d) bs = (Inr out, a)" using feed Inr by simp
    have "arm_fine ?lg (?d\<lparr>dv_acceptor := a\<rparr>) (deliver_or_break out (?d\<lparr>dv_acceptor := a\<rparr>))"
      using inv deliver_fed [OF _ _ feed', of _ _ lg fs] by (intro deliver_or_break_fine) (simp add: same_core_def)
    moreover have "?d\<lparr>dv_acceptor := a\<rparr> = d\<lparr>dv_acceptor := a, dv_ready := r\<rparr>" by simp
    moreover have "input_data (ReadBytes bs) d = (\<lambda>sid. event_data sid (mo_events out))"
      using False feed Inr by (simp add: input_data_def fun_eq_iff)
    ultimately show ?thesis using False feed Inr mark by (simp add: on_read_def arm_fine_def)
  qed
qed

lemma push_ready_effect: "\<exists>r. push_ready sid d = d\<lparr>dv_ready := r\<rparr>"
  unfolding push_ready_def by (cases "sid \<in> set (dv_ready d)") (auto intro: exI [of _ "dv_ready d"])

lemma link_ok_move:
  "link_ok sid k \<Longrightarrow> lk_queued k = bs @ q \<Longrightarrow> link_ok sid (k\<lparr>lk_pending := lk_pending k @ bs, lk_queued := q\<rparr>)"
  by (auto simp: link_ok_def handle_ok_def split: option.splits)

lemma link_ok_told: "link_ok sid k \<Longrightarrow> n \<le> lk_told k \<Longrightarrow> link_ok sid (k\<lparr>lk_told := n\<rparr>)"
  by (fastforce simp: link_ok_def handle_ok_def split: option.splits)

lemma link_ok_consumed:
  "link_ok sid k \<Longrightarrow> lk_stream k = Some s \<Longrightarrow> lk_told k = n + m \<Longrightarrow> ss_local_closed t = ss_local_closed s \<Longrightarrow>
   ss_debited_not_consumed t = ss_debited_not_consumed s - n \<Longrightarrow> link_ok sid (k\<lparr>lk_told := m, lk_stream := Some t\<rparr>)"
  by (auto simp: link_ok_def handle_ok_def writable_def split: option.splits)

lemma link_ok_end:
  "link_ok sid k \<Longrightarrow> (lk_ends k \<Longrightarrow> lk_queued k = []) \<Longrightarrow> e \<longrightarrow> lk_ends k \<Longrightarrow> c \<longrightarrow> lk_ends k \<or> lk_closing k \<Longrightarrow>
   link_ok sid (k\<lparr>lk_ends := e, lk_closing := c\<rparr>)"
  by (auto simp: link_ok_def handle_ok_def split: option.splits)

lemma on_write_fine:
  assumes inv: "driver_inv d lg fs" and cs: "dv_commands d = CmdWrite sid bs # cs"
  shows "arm_fine lg d (on_command (CmdWrite sid bs) (d\<lparr>dv_commands := cs\<rparr>))"
proof -
  let ?d1 = "d\<lparr>dv_commands := cs\<rparr>"
  let ?d = "?d1\<lparr>dv_pending := table_put (dv_pending ?d1) sid (pending_of ?d1 sid @ bs)\<rparr>"
  obtain r where r: "push_ready sid ?d = ?d\<lparr>dv_ready := r\<rparr>" using push_ready_effect by blast
  have "driver_inv ?d lg fs"
  proof (rule driver_invI)
    fix k
    show "orderly (dv_commands ?d) k" using driver_invD(3) [OF inv, of k] cs by simp
    have "link_ok sid ((stream_link d lg fs sid)\<lparr>lk_pending := pending_of d sid @ bs, lk_queued := queued cs sid\<rparr>)"
      using link_ok_move [OF driver_invD(4) [OF inv, of sid], of bs "queued cs sid"] cs by (simp add: stream_link_def)
    then show "link_ok k (stream_link ?d lg fs k)"
      using driver_invD(4) [OF inv, of k] cs pending_of_fields(12) [of ?d1] by (cases "k = sid") (simp_all add: stream_link_def)
  qed (use driver_invD [OF inv] in simp_all)
  then show ?thesis using r by (simp add: on_command_def arm_fine_def fineI)
qed

lemma on_consumed_fine:
  assumes inv: "driver_inv d lg fs" and cs: "dv_commands d = CmdConsumed sid n # cs"
  shows "arm_fine lg d (on_command (CmdConsumed sid n) (d\<lparr>dv_commands := cs\<rparr>))"
proof (cases "ac_get (dv_acceptor d) sid")
  case None
  have "driver_inv (d\<lparr>dv_commands := cs\<rparr>) lg fs"
  proof (rule driver_invI)
    fix k
    show "orderly (dv_commands (d\<lparr>dv_commands := cs\<rparr>)) k" using driver_invD(3) [OF inv, of k] cs by simp
    show "link_ok k (stream_link (d\<lparr>dv_commands := cs\<rparr>) lg fs k)"
      using link_ok_told [OF driver_invD(4) [OF inv, of k], of "told cs k"] cs by (simp add: stream_link_def)
  qed (use driver_invD [OF inv] in simp_all)
  moreover have "on_command (CmdConsumed sid n) (d\<lparr>dv_commands := cs\<rparr>) = (Continue, d\<lparr>dv_commands := cs\<rparr>)"
    using None by (simp add: on_command_def acceptor_consume_def)
  ultimately show ?thesis by (simp add: arm_fine_def fineI)
next
  case (Some s)
  note link = driver_invD(4) [OF inv, of sid]
  have "n + told cs sid \<le> ss_debited_not_consumed s"
    using link Some cs by (auto simp: link_ok_def handle_ok_def stream_link_def split: option.splits)
  then have n: "n \<le> ss_debited_not_consumed s" by simp
  from consume_outcome [OF driver_invD(1) [OF inv] Some n] obtain g w where
    con: "acceptor_consume (dv_acceptor d) sid n = (Inr (case g of None \<Rightarrow> mux_output_default
          | Some credit \<Rightarrow> put_frame mux_output_default (window_frame sid credit)),
        ac_put (dv_acceptor d) sid (s\<lparr>ss_receive_window := w, ss_debited_not_consumed := ss_debited_not_consumed s - n\<rparr>))"
    by blast
  define out where "out = (case g of None \<Rightarrow> mux_output_default
          | Some credit \<Rightarrow> put_frame mux_output_default (window_frame sid credit))"
  define t where "t = s\<lparr>ss_receive_window := w, ss_debited_not_consumed := ss_debited_not_consumed s - n\<rparr>"
  define a where "a = ac_put (dv_acceptor d) sid t"
  note con = con [folded out_def t_def, folded a_def]
  have "silent out"
    by (auto simp: silent_def out_def mux_output_default_def window_frame_def flag_defs split: option.split)
  obtain r where mark: "mark_writable_streams out (d\<lparr>dv_commands := cs, dv_acceptor := a\<rparr>) = d\<lparr>dv_commands := cs, dv_acceptor := a, dv_ready := r\<rparr>"
    using mark_writable_streams_ready by metis
  let ?d = "d\<lparr>dv_commands := cs, dv_acceptor := a, dv_ready := r\<rparr>"
  have "driver_inv ?d lg fs"
  proof (rule driver_invI)
    show "state_ok (dv_acceptor ?d)"
      using step_preserves [OF acceptor_step.consume [OF con]] driver_invD(1) [OF inv] by simp
    fix k
    show "orderly (dv_commands ?d) k" using driver_invD(3) [OF inv, of k] cs by simp
    have "link_ok sid ((stream_link d lg fs sid)\<lparr>lk_told := told cs sid, lk_stream := Some t\<rparr>)"
      by (rule link_ok_consumed [OF link, of s n]) (use Some cs in \<open>simp_all add: stream_link_def t_def\<close>)
    then show "link_ok k (stream_link ?d lg fs k)"
      using driver_invD(4) [OF inv, of k] cs by (cases "k = sid") (simp_all add: stream_link_def a_def)
  qed (use driver_invD [OF inv] in simp_all)
  then have "arm_fine lg ?d (deliver_or_break out ?d)"
    using deliver_silent [OF _ _ \<open>silent out\<close>] by (intro deliver_or_break_fine) (auto simp: same_core_def)
  then show ?thesis using con mark by (simp add: on_command_def arm_fine_def)
qed

lemma on_close_fine:
  assumes inv: "driver_inv d lg fs" and cs: "dv_commands d = CmdClose sid # cs"
  shows "arm_fine lg d (on_command (CmdClose sid) (d\<lparr>dv_commands := cs\<rparr>))"
proof -
  let ?d = "d\<lparr>dv_commands := cs, dv_closing := List.insert sid (dv_closing d)\<rparr>"
  obtain r where r: "push_ready sid ?d = ?d\<lparr>dv_ready := r\<rparr>" using push_ready_effect by blast
  have "driver_inv ?d lg fs"
  proof (rule driver_invI)
    fix k
    show "orderly (dv_commands ?d) k" using driver_invD(3) [OF inv, of k] cs by simp
    have "link_ok sid ((stream_link d lg fs sid)\<lparr>lk_ends := ends cs sid, lk_closing := True\<rparr>)"
      by (rule link_ok_end [OF driver_invD(4) [OF inv]])
        (use driver_invD(3) [OF inv, of sid] cs in \<open>simp_all add: stream_link_def\<close>)
    then show "link_ok k (stream_link ?d lg fs k)"
      using driver_invD(4) [OF inv, of k] cs by (cases "k = sid") (simp_all add: stream_link_def)
  qed (use driver_invD [OF inv] in simp_all)
  then show ?thesis using r by (simp add: on_command_def arm_fine_def fineI)
qed

lemma reset_locally_fine:
  assumes inv: "driver_inv d lg fs" and cs: "dv_commands d = c # cs" and c: "c = CmdCancel sid \<or> c = CmdReset sid q"
  shows "arm_fine lg d (reset_locally sid reason (d\<lparr>dv_commands := cs\<rparr>))"
proof -
  define e where "e = d\<lparr>dv_commands := cs\<rparr>"
  define d1 where "d1 = discard_pending_stream sid e"
  obtain r a where rs: "acceptor_reset (dv_acceptor d) sid reason = (r, a)" by fastforce
  have a: "ac_get a sid = None" "k \<noteq> sid \<Longrightarrow> ac_get a k = ac_get (dv_acceptor d) k" "high_water a = high_water (dv_acceptor d)" for k
    using rs by (auto simp: acceptor_reset_def split: if_splits)
  have cs': "told (dv_commands d) k = told cs k" "queued (dv_commands d) k = queued cs k"
    "ends (dv_commands d) k \<longleftrightarrow> k = sid \<or> ends cs k" "orderly cs k" "queued cs sid = []" for k
    using driver_invD(3) [OF inv, of k] driver_invD(3) [OF inv, of sid] cs c by auto
  have e: "link_ok k (stream_link e lg fs k)" for k
  proof (cases "k = sid")
    case True
    have "link_ok k ((stream_link d lg fs k)\<lparr>lk_ends := ends cs k, lk_closing := k \<in> set (dv_closing d)\<rparr>)"
      by (rule link_ok_end [OF driver_invD(4) [OF inv]]) (use True cs' in \<open>simp_all add: stream_link_def\<close>)
    then show ?thesis using cs' by (simp add: stream_link_def e_def)
  next
    case False
    with driver_invD(4) [OF inv, of k] cs' show ?thesis by (simp add: stream_link_def e_def)
  qed
  have end_sid: "write_ended h" if "dv_get d sid = Some h" for h
    using driver_invD(4) [OF inv, of sid] that cs' by (simp add: link_ok_def handle_ok_def stream_link_def)
  let ?d = "d1\<lparr>dv_acceptor := a\<rparr>"
  have inv1: "driver_inv ?d lg fs"
  proof (rule driver_invI)
    show "state_ok (dv_acceptor ?d)"
      using step_preserves [OF acceptor_step.reset [OF rs]] driver_invD(1) [OF inv] by simp
    show "on_wire fs (dv_wire ?d)" using driver_invD(2) [OF inv] by (simp add: d1_def e_def)
    fix k
    show "orderly (dv_commands ?d) k" using cs' by (simp add: d1_def e_def)
    have "link_ok k (if k = sid then (stream_link d1 lg fs sid)\<lparr>lk_stream := None\<rparr> else stream_link d1 lg fs k)"
      unfolding d1_def by (rule discard_link_ok [OF e]) (use end_sid cs' in \<open>simp_all add: e_def\<close>)
    moreover have "dv_acceptor d1 = dv_acceptor d" by (simp add: d1_def e_def)
    ultimately show "link_ok k (stream_link ?d lg fs k)"
      using a by (cases "k = sid") (simp_all add: stream_link_def)
  qed
  have run: "dv_running ?d = dv_running d" by (simp add: d1_def e_def)
  show ?thesis
  proof (cases r)
    case (Inl x)
    with rs have "x = Closed" by (auto simp: acceptor_reset_def split: if_splits)
    with Inl rs inv1 run show ?thesis
      by (simp add: reset_locally_def e_def [symmetric] d1_def [symmetric] arm_fine_def fineI Let_def) (simp add: d1_def e_def fineI)
  next
    case (Inr out)
    have "silent out"
      using rs Inr by (auto simp: acceptor_reset_def silent_def mux_output_default_def flag_defs split: if_splits)
    then have "arm_fine lg ?d (deliver_or_break out ?d)"
      using deliver_silent [OF _ inv1] by (intro deliver_or_break_fine) (auto simp: same_core_def)
    then show ?thesis using rs Inr run by (simp add: reset_locally_def Let_def d1_def e_def arm_fine_def)
  qed
qed

lemma on_command_fine:
  assumes inv: "driver_inv d lg fs" and cs: "dv_commands d = c # cs"
  shows "arm_fine lg d (on_command c (d\<lparr>dv_commands := cs\<rparr>))"
proof (cases c)
  case CmdWrite
  with assms on_write_fine show ?thesis by simp
next
  case CmdConsumed
  with assms on_consumed_fine show ?thesis by simp
next
  case CmdClose
  with assms on_close_fine show ?thesis by simp
next
  case (CmdCancel sid)
  with reset_locally_fine [OF inv cs, of sid _ Cancel] show ?thesis by (simp add: on_command_def)
next
  case (CmdReset sid r)
  with reset_locally_fine [OF inv cs, of sid r r] show ?thesis by (simp add: on_command_def)
next
  case CmdWake
  then have "driver_inv (d\<lparr>dv_commands := cs\<rparr>) lg fs" using inv cs by (simp add: driver_inv_def stream_link_def)
  with CmdWake show ?thesis by (simp add: on_command_def arm_fine_def fineI)
next
  case CmdCloseConnection
  with driver_inv_logs [OF inv] show ?thesis
    by (auto simp: on_command_def arm_fine_def fine_def logs_ok_def close_carrier_def)
qed

text \<open>An iteration: the invariant while the driver runs, and the logs and failed handles after it.\<close>

definition run_inv :: "run_log \<Rightarrow> carrier_driver \<Rightarrow> bool" where
  "run_inv lg d \<longleftrightarrow>
     (\<exists>fs. if dv_running d then driver_inv d lg fs else logs_ok d lg fs)
     \<and> (\<not> dv_running d \<longrightarrow> (\<forall>sid h. dv_get d sid = Some h \<longrightarrow> hm_state h = STREAM_RESET \<or> hm_state h = STREAM_GONE))"

lemma driver_end_inv:
  assumes "fine lg (ok, d)"
  shows "run_inv lg (driver_end d)"
proof -
  have "hm_state h = STREAM_GONE" if "dv_get (driver_end d) sid = Some h" for sid h
    using that by (auto simp: dv_get_def driver_end_def table_get_def map_of_map [where f = "\<lambda>h. send_signal SigGone (set_state STREAM_GONE h)", simplified])
  moreover obtain fs where "logs_ok d lg fs"
    using assms by (cases ok) (auto simp: fine_def dest: driver_inv_logs)
  ultimately show ?thesis by (auto simp: run_inv_def driver_end_def logs_ok_def)
qed

lemma select_arm_fine:
  assumes inv: "driver_inv d lg fs"
  shows "arm_fine (receive (input_data i d) lg) d (select_arm i d)"
proof (cases i)
  case ReadFailed
  with driver_inv_logs [OF inv] show ?thesis
    by (auto simp: select_arm_def arm_fine_def fine_def input_data_def logs_ok_def close_carrier_def)
next
  case (ReadBytes bs)
  with on_read_fine [OF inv, of bs] show ?thesis by (simp add: select_arm_def)
next
  case TakeCommand
  then have "receive (input_data i d) lg = lg" by (simp add: input_data_def)
  with on_command_fine [OF inv] TakeCommand inv show ?thesis
    by (cases "dv_commands d") (auto simp: select_arm_def arm_fine_def intro: fineI)
qed

lemma driver_iteration_inv:
  assumes inv: "driver_inv d lg fs" and run: "dv_running d"
  shows "run_inv (receive (input_data i d) lg) (driver_iteration i d)"
proof -
  define d1 where "d1 = d\<lparr>dv_refusals := ac_refusals (dv_acceptor d)\<rparr>"
  define lg' where "lg' = receive (input_data i d) lg"
  obtain w e where arm: "select_arm i d1 = (w, e)" by fastforce
  have d1: "driver_inv d1 lg fs" "dv_running d1" "input_data i d1 = input_data i d"
    using inv run by (simp_all add: d1_def input_data_def fun_eq_iff split: driver_input.split)
  from select_arm_fine [OF d1(1), of i] arm d1 have e: "fine lg' (w \<noteq> Break, e)" "dv_running e"
    by (simp_all add: arm_fine_def lg'_def)
  have it: "driver_iteration i d = (case (w, e) of (Break, d) \<Rightarrow> driver_end d | (Continue, d) \<Rightarrow> d
      | (Flush, d) \<Rightarrow> (case flush_ready d of (True, d) \<Rightarrow> d | (False, d) \<Rightarrow> driver_end (close_carrier WriteFailed d)))"
    unfolding driver_iteration_def d1_def [symmetric] arm ..
  show ?thesis
  proof (cases w)
    case Break
    with e it driver_end_inv show ?thesis by (simp add: lg'_def [symmetric])
  next
    case Continue
    with e it show ?thesis by (auto simp: run_inv_def fine_def lg'_def [symmetric])
  next
    case Flush
    with e(1) obtain gs where gs: "driver_inv e lg' gs" by (auto simp: fine_def)
    obtain ok e' where fl: "flush_ready e = (ok, e')" by fastforce
    from flush_ready_fine [OF gs fl] e(2) have e': "fine lg' (ok, e')" "dv_running e'" by simp_all
    show ?thesis
    proof (cases ok)
      case True
      with e' it Flush fl show ?thesis by (auto simp: run_inv_def fine_def lg'_def [symmetric])
    next
      case False
      then have "fine lg' (False, close_carrier WriteFailed e')" using e'(1) by (simp add: fine_def)
      with driver_end_inv it Flush fl False show ?thesis by (simp add: lg'_def [symmetric])
    qed
  qed
qed

end
