(* ===== verification/Spl_Driver_Run.thy ===== *)
theory Spl_Driver_Run
  imports Spl_Driver_Loop
begin

text \<open>
  Runs of a listener connection: any interleaving of iterations of the driver loop, of calls on the
  stream handles and on the connection, and of failures of the writer. The invariant holds in every
  state they reach.
\<close>

subsection \<open>Calls on handles\<close>

definition read_bytes :: "(io_error + bytes) poll \<Rightarrow> bytes" where
  "read_bytes r = (case r of Ready (Inr bs) \<Rightarrow> bs | _ \<Rightarrow> [])"

definition told_bytes :: "nat option \<Rightarrow> nat" where
  "told_bytes t = (case t of Some k \<Rightarrow> k | None \<Rightarrow> 0)"

lemma read_bytes_simps [simp]:
  "read_bytes (Ready (Inr bs)) = bs" "read_bytes (Ready (Inl e)) = []" "read_bytes Pending = []"
  "told_bytes (Some k) = k" "told_bytes None = 0"
  by (simp_all add: read_bytes_def told_bytes_def)

definition read_kept :: "bool \<Rightarrow> home_stream \<Rightarrow> (io_error + bytes) poll \<times> nat option \<times> home_stream \<Rightarrow> bool" where
  "read_kept running h res \<longleftrightarrow>
     (case res of (r, t, h') \<Rightarrow>
        sx_staged (hm_status h') = sx_staged (hm_status h) \<and> hm_write_shutdown h' = hm_write_shutdown h
        \<and> hm_dropped h' = hm_dropped h \<and> length (held h') + told_bytes t \<le> length (held h)
        \<and> (hm_state h' = hm_state h \<or> hm_state h' = STREAM_RESET \<or> hm_state h' = STREAM_GONE)
        \<and> (read_error h' = None \<and> running \<longrightarrow> read_bytes r @ held h' = held h)
        \<and> (read_bytes r \<noteq> [] \<longrightarrow> running \<and> read_error h' = None \<and> hm_state h' = hm_state h)
        \<and> (t \<noteq> None \<longrightarrow> running))"

lemma set_state_fields [simp]:
  "hm_write_shutdown (set_state v h) = hm_write_shutdown h" "hm_read_eof (set_state v h) = hm_read_eof h"
  by (simp_all add: set_state_def)

lemma read_kept_trans:
  assumes "read_kept running h1 res" and "sx_staged (hm_status h1) = sx_staged (hm_status h)"
    and "hm_write_shutdown h1 = hm_write_shutdown h" and "hm_dropped h1 = hm_dropped h"
    and "held h1 = held h" and "hm_state h1 = hm_state h"
  shows "read_kept running h res"
  using assms by (simp add: read_kept_def)

lemma poll_read_kept:
  "poll_read_loop running n h = Some res \<Longrightarrow> read_kept running h res"
proof (induction "length (hm_signals h)" arbitrary: h rule: less_induct)
  case less
  note eq = less.prems [unfolded poll_read_loop.simps [of running n h]]
  consider (error) e where "read_error h = Some e"
    | (buffered) "read_error h = None" "hm_read_buffer h \<noteq> []"
    | (eof) "read_error h = None" "hm_read_buffer h = []" "hm_read_eof h"
    | (signal) s ss where "read_error h = None" "hm_read_buffer h = []" "\<not> hm_read_eof h" "hm_signals h = s # ss"
    | (empty) "read_error h = None" "hm_read_buffer h = []" "\<not> hm_read_eof h" "hm_signals h = []"
    by (cases "read_error h"; cases "hm_signals h") auto
  then show ?case
  proof cases
    case error
    with eq show ?thesis by (auto simp: read_kept_def held_def)
  next
    case buffered
    with eq show ?thesis by (cases running) (auto simp: read_kept_def held_def Let_def)
  next
    case eof
    with eq show ?thesis by (auto simp: read_kept_def)
  next
    case empty
    with eq show ?thesis by (cases running) (auto simp: read_kept_def poll_read_error held_def)
  next
    case signal
    then have len: "length ss < length (hm_signals h)" by simp
    show ?thesis
    proof (cases s)
      case (SigData bs)
      let ?h = "h\<lparr>hm_signals := ss, hm_read_buffer := bs\<rparr>"
      have "poll_read_loop running n ?h = Some res" using eq signal SigData by simp
      with len have "read_kept running ?h res" by (intro less.hyps) simp_all
      then show ?thesis by (rule read_kept_trans) (use signal SigData in \<open>simp_all add: held_def\<close>)
    next
      case SigReadEof
      let ?h = "h\<lparr>hm_signals := ss, hm_read_eof := True\<rparr>"
      have "poll_read_loop running n ?h = Some res" using eq signal SigReadEof by simp
      with len have "read_kept running ?h res" by (intro less.hyps) simp_all
      then show ?thesis by (rule read_kept_trans) (use signal SigReadEof in \<open>simp_all add: held_def\<close>)
    qed (use eq signal in \<open>auto simp: poll_read_error read_kept_def held_def\<close>)
  qed
qed

lemma known_live:
  "hm_state h \<in> {STREAM_LIVE, STREAM_RESET, STREAM_GONE} \<Longrightarrow> read_error h = None \<longleftrightarrow> hm_state h = STREAM_LIVE"
  "hm_state h \<in> {STREAM_LIVE, STREAM_RESET, STREAM_GONE} \<Longrightarrow> stream_error h = None \<longleftrightarrow> hm_state h = STREAM_LIVE"
  by (auto simp: read_error_def stream_error_def)

lemma link_ok_read:
  assumes "link_ok sid k" and "lk_handle k = Some h" and "\<not> hm_dropped h" and "read_kept True h (r, t, h')"
  shows "link_ok sid (k\<lparr>lk_handle := Some h', lk_told := lk_told k + told_bytes t, lk_read := lk_read k @ read_bytes r\<rparr>)"
proof -
  have ok: "handle_ok sid k h" using assms(1,2) by (simp add: link_ok_def)
  then have states: "hm_state h \<in> {STREAM_LIVE, STREAM_RESET, STREAM_GONE}" by (simp add: handle_ok_def)
  with assms(4) have states': "hm_state h' \<in> {STREAM_LIVE, STREAM_RESET, STREAM_GONE}" by (auto simp: read_kept_def)
  have live: "hm_state h = STREAM_LIVE \<and> read_bytes r @ held h' = held h" if "hm_state h' = STREAM_LIVE"
    using assms(4) that known_live(1) [OF states'] by (auto simp: read_kept_def)
  have "read_bytes r = [] \<or> hm_state h' = STREAM_LIVE"
    using assms(4) known_live(1) [OF states'] by (auto simp: read_kept_def)
  moreover have received: "lk_read k @ held h = lk_received k" if "hm_state h = STREAM_LIVE"
    using ok that assms(3) by (simp add: handle_ok_def)
  ultimately have "read_bytes r = [] \<or> lk_received k = (lk_read k @ read_bytes r) @ held h'" 
    using live by (metis append.assoc)
  moreover have "prefix (lk_read k) (lk_received k)" using ok by (simp add: handle_ok_def)
  ultimately have "prefix (lk_read k @ read_bytes r) (lk_received k)" by (elim disjE) simp_all
  moreover have "lk_read k @ read_bytes r @ held h' = lk_received k" if "hm_state h' = STREAM_LIVE"
    using live [OF that] received by simp
  moreover have "length (held h') + (lk_told k + told_bytes t) \<le> ss_debited_not_consumed s" if "lk_stream k = Some s" for s
    using ok that assms(4) by (fastforce simp: handle_ok_def read_kept_def)
  moreover have "write_ended h' = write_ended h" "sx_staged (hm_status h') = sx_staged (hm_status h)"
    using assms(4) by (simp_all add: read_kept_def write_ended_def)
  ultimately have "handle_ok sid (k\<lparr>lk_handle := Some h', lk_told := lk_told k + told_bytes t, lk_read := lk_read k @ read_bytes r\<rparr>) h'"
    using ok live states' unfolding handle_ok_def by simp
  then show ?thesis by (simp add: link_ok_def)
qed

text \<open>A call on the handle of one stream, which may send one command about it.\<close>

lemma driver_inv_call:
  assumes inv: "driver_inv d lg fs"
    and d': "dv_acceptor d' = dv_acceptor d" "dv_wire d' = dv_wire d" "dv_closing d' = dv_closing d"
      "pending_of d' = pending_of d" "dv_get d' = (dv_get d)(sid \<mapsto> h')" "dv_commands d' = dv_commands d @ cs"
    and cs: "length cs \<le> 1" "\<And>k. k \<noteq> sid \<Longrightarrow> told cs k = 0 \<and> queued cs k = [] \<and> \<not> ends cs k"
      "queued cs sid \<noteq> [] \<Longrightarrow> \<not> ends (dv_commands d) sid"
    and lg': "lg_received lg' = lg_received lg"
      "\<And>k. k \<noteq> sid \<Longrightarrow> lg_accepted lg' k = lg_accepted lg k \<and> lg_read lg' k = lg_read lg k"
    and link: "link_ok sid ((stream_link d lg fs sid)\<lparr>lk_handle := Some h', lk_told := told (dv_commands d) sid + told cs sid,
      lk_queued := queued (dv_commands d) sid @ queued cs sid, lk_ends := (ends (dv_commands d) sid \<or> ends cs sid),
      lk_accepted := lg_accepted lg' sid, lk_read := lg_read lg' sid\<rparr>)"
  shows "driver_inv d' lg' fs"
proof (rule driver_invI)
  fix k
  have "orderly cs k" using cs(1) by (cases cs) simp_all
  then show "orderly (dv_commands d') k" using driver_invD(3) [OF inv, of k] d'(6) cs(2,3) by (cases "k = sid") auto
  show "link_ok k (stream_link d' lg' fs k)"
    using link driver_invD(4) [OF inv, of k] d' cs(2) lg' by (cases "k = sid") (simp_all add: stream_link_def)
qed (use driver_invD [OF inv] d' in simp_all)

definition failed :: "home_stream \<Rightarrow> bool" where
  "failed h \<longleftrightarrow> hm_state h = STREAM_RESET \<or> hm_state h = STREAM_GONE"

lemma run_invD:
  assumes "run_inv lg d"
  obtains (running) fs where "dv_running d" "driver_inv d lg fs"
  | (stopped) fs where "\<not> dv_running d" "logs_ok d lg fs" "\<And>sid h. dv_get d sid = Some h \<Longrightarrow> failed h"
  using assms by (auto simp: run_inv_def failed_def split: if_splits)

lemma run_inv_running: "dv_running d \<Longrightarrow> driver_inv d lg fs \<Longrightarrow> run_inv lg d"
  by (auto simp: run_inv_def)

lemma run_inv_stopped:
  assumes "\<not> dv_running d" and "logs_ok d lg fs" and "\<And>sid h. dv_get d sid = Some h \<Longrightarrow> failed h"
    and "dv_running d' = dv_running d" and "dv_wire d' = dv_wire d"
    and "\<And>k h. dv_get d' k = Some h \<Longrightarrow> (\<exists>h0. dv_get d k = Some h0 \<and> hm_state h = hm_state h0)"
  shows "run_inv lg d'"
  using assms by (fastforce simp: run_inv_def logs_ok_def failed_def)

lemma handle_okD:
  assumes "driver_inv d lg fs" and "dv_get d sid = Some h"
  shows "handle_ok sid (stream_link d lg fs sid) h"
  using driver_invD(4) [OF assms(1), of sid] assms(2) by (simp add: link_ok_def stream_link_def)

lemma failed_errors: "failed h \<Longrightarrow> read_error h \<noteq> None \<and> stream_error h \<noteq> None"
  by (auto simp: failed_def read_error_def stream_error_def)

lemma put_stream_fields [simp]:
  "dv_acceptor (put_stream k h d) = dv_acceptor d" "dv_wire (put_stream k h d) = dv_wire d"
  "dv_closing (put_stream k h d) = dv_closing d" "dv_commands (put_stream k h d) = dv_commands d"
  "dv_running (put_stream k h d) = dv_running d" "dv_accepts (put_stream k h d) = dv_accepts d"
  by (simp_all add: put_stream_def)

lemma run_inv_read:
  assumes run: "run_inv lg d" and h: "dv_get d sid = Some h" "\<not> hm_dropped h"
    and eq: "stream_poll_read sid n h d = Some (r, d')"
  shows "run_inv (lg\<lparr>lg_read := (lg_read lg)(sid := lg_read lg sid @ read_bytes r)\<rparr>) d'"
proof -
  from eq obtain t h' where pr: "poll_read_loop (dv_running d) n h = Some (r, t, h')"
    and d': "d' = (case t of Some k \<Rightarrow> snd (send_command (CmdConsumed sid k) (put_stream sid h' d)) | None \<Rightarrow> put_stream sid h' d)"
    by (auto simp: stream_poll_read_def)
  note kept = poll_read_kept [OF pr]
  from run show ?thesis
  proof (cases rule: run_invD)
    case (running fs)
    define cs where "cs = (case t of Some k \<Rightarrow> [CmdConsumed sid k] | None \<Rightarrow> [])"
    have d'': "d' = put_stream sid h' d\<lparr>dv_commands := dv_commands d @ cs\<rparr>"
      using d' running(1) by (cases t) (simp_all add: cs_def send_command_def put_stream_def)
    have "link_ok sid ((stream_link d lg fs sid)\<lparr>lk_handle := Some h', lk_told := told (dv_commands d) sid + told_bytes t,
        lk_read := lg_read lg sid @ read_bytes r\<rparr>)"
      using link_ok_read [OF driver_invD(4) [OF running(2), of sid], of h r t h'] h kept running(1) by (simp add: stream_link_def)
    then have "driver_inv d' (lg\<lparr>lg_read := (lg_read lg)(sid := lg_read lg sid @ read_bytes r)\<rparr>) fs"
      by (intro driver_inv_call [OF running(2), where cs = cs and sid = sid and h' = h'])
        (auto simp: d'' cs_def stream_link_def split: option.split)
    with running(1) d'' show ?thesis by (simp add: run_inv_running)
  next
    case (stopped fs)
    have e: "read_error h \<noteq> None" using stopped(3) [OF h(1)] failed_errors by blast
    then have "read_bytes r = []" "t = None" "h' = h\<lparr>hm_read_buffer := []\<rparr>"
      using pr by (auto simp: poll_read_error)
    moreover from this have "run_inv lg d'"
      by (intro run_inv_stopped [OF stopped]) (use d' in \<open>auto simp: h split: if_splits\<close>)
    ultimately show ?thesis by simp
  qed
qed

definition accepted_bytes :: "bytes \<Rightarrow> (io_error + nat) poll \<Rightarrow> bytes" where
  "accepted_bytes bs r = (case r of Ready (Inr n) \<Rightarrow> take n bs | _ \<Rightarrow> [])"

lemma accepted_bytes_simps [simp]:
  "accepted_bytes bs (Ready (Inr n)) = take n bs" "accepted_bytes bs (Ready (Inl e)) = []" "accepted_bytes bs Pending = []"
  by (simp_all add: accepted_bytes_def)

lemma reserve_staging_cases:
  assumes "reserve_staging x n = (g, y)" and "0 < n"
  shows "g \<le> n" "sx_staged y = sx_staged x + g" "sx_state y = sx_state x"
    "sx_staged x \<le> MAX_STAGED_WRITE_BYTES_PER_STREAM \<Longrightarrow> sx_staged y \<le> MAX_STAGED_WRITE_BYTES_PER_STREAM"
    "g = 0 \<longleftrightarrow> MAX_STAGED_WRITE_BYTES_PER_STREAM \<le> sx_staged x"
  using assms by (auto simp: reserve_staging_def Let_def split: if_splits)

lemma link_ok_write:
  assumes "link_ok sid k" and "lk_handle k = Some h" and "hm_state h = STREAM_LIVE" and "\<not> write_ended h"
    and "sx_staged x = sx_staged (hm_status h) + length ws" and "sx_state x = STREAM_LIVE"
    and "sx_staged x \<le> MAX_STAGED_WRITE_BYTES_PER_STREAM"
  shows "link_ok sid (k\<lparr>lk_handle := Some (h\<lparr>hm_status := x\<rparr>), lk_queued := lk_queued k @ ws, lk_accepted := lk_accepted k @ ws\<rparr>)"
proof -
  have "held (h\<lparr>hm_status := x\<rparr>) = held h" "write_ended (h\<lparr>hm_status := x\<rparr>) = write_ended h" "hm_state (h\<lparr>hm_status := x\<rparr>) = STREAM_LIVE"
    using assms(6) by (simp_all add: held_def write_ended_def hm_state_def)
  moreover have "handle_ok sid k h" using assms(1,2) by (simp add: link_ok_def)
  ultimately show ?thesis using assms(3-7) by (simp add: link_ok_def handle_ok_def writable_def split: option.splits)
qed

lemma run_inv_write:
  assumes run: "run_inv lg d" and h: "dv_get d sid = Some h" "\<not> hm_dropped h"
    and eq: "stream_poll_write sid bs h d = (r, d')"
  shows "run_inv (lg\<lparr>lg_accepted := (lg_accepted lg)(sid := lg_accepted lg sid @ accepted_bytes bs r)\<rparr>) d'"
proof (cases "d' = d \<and> accepted_bytes bs r = []")
  case True
  with run show ?thesis by simp
next
  case False
  have open': "stream_error h = None" "\<not> hm_write_shutdown h" "bs \<noteq> []"
    using False eq by (auto simp: stream_poll_write_def split: option.splits if_splits)
  from run show ?thesis
  proof (cases rule: run_invD)
    case (stopped fs)
    with h open' failed_errors show ?thesis by blast
  next
    case (running fs)
    obtain g x where res: "reserve_staging (hm_status h) (length bs) = (g, x)" by fastforce
    note ok = handle_okD [OF running(2) h(1)]
    then have live: "hm_state h = STREAM_LIVE" using open'(1) known_live(2) [of h] by (simp add: handle_ok_def)
    have ended: "\<not> write_ended h" using open' h(2) by (simp add: write_ended_def)
    have x: "g \<le> length bs" "sx_staged x = sx_staged (hm_status h) + g" "sx_state x = STREAM_LIVE"
      "sx_staged x \<le> MAX_STAGED_WRITE_BYTES_PER_STREAM"
      using reserve_staging_cases [OF res] open'(3) ok live by (simp_all add: handle_ok_def hm_state_def)
    define cs where "cs = (if g = 0 then [] else [CmdWrite sid (take g bs)])"
    have d': "d' = put_stream sid (h\<lparr>hm_status := x\<rparr>) d\<lparr>dv_commands := dv_commands d @ cs\<rparr>"
      and r: "accepted_bytes bs r = take g bs"
      using eq open' res running(1) by (auto simp: stream_poll_write_def Let_def cs_def send_command_def put_stream_def split: if_splits)
    have "link_ok sid ((stream_link d lg fs sid)\<lparr>lk_handle := Some (h\<lparr>hm_status := x\<rparr>),
        lk_queued := queued (dv_commands d) sid @ take g bs, lk_accepted := lg_accepted lg sid @ take g bs\<rparr>)"
      using link_ok_write [OF driver_invD(4) [OF running(2), of sid], of h x "take g bs"] h live ended x
      by (simp add: stream_link_def)
    then have "driver_inv d' (lg\<lparr>lg_accepted := (lg_accepted lg)(sid := lg_accepted lg sid @ take g bs)\<rparr>) fs"
      by (intro driver_inv_call [OF running(2), where cs = cs and sid = sid and h' = "h\<lparr>hm_status := x\<rparr>"])
        (use ok ended in \<open>auto simp: d' cs_def stream_link_def handle_ok_def\<close>)
    with running(1) d' r show ?thesis by (simp add: run_inv_running)
  qed
qed

text \<open>Ending a stream from the local side: shutdown, reset and drop.\<close>

lemma link_ok_ended:
  assumes "link_ok sid k" and "lk_handle k = Some h" and "write_ended h'" and "hm_status h' = hm_status h"
    and "held h' = held h \<or> hm_dropped h' \<and> length (held h') \<le> length (held h)" and "hm_dropped h \<longrightarrow> hm_dropped h'"
  shows "link_ok sid (k\<lparr>lk_handle := Some h', lk_ends := e\<rparr>)"
proof -
  have "hm_state h' = hm_state h" using assms(4) by (simp add: hm_state_def)
  moreover have "length (held h') \<le> length (held h)" "\<not> hm_dropped h' \<Longrightarrow> held h' = held h \<and> \<not> hm_dropped h"
    using assms(5,6) by auto
  moreover have "handle_ok sid k h" using assms(1,2) by (simp add: link_ok_def)
  ultimately have "handle_ok sid (k\<lparr>lk_handle := Some h', lk_ends := e\<rparr>) h'"
    using assms(3,4) unfolding handle_ok_def by (simp del: insert_iff) (meson add_le_mono1 le_trans)
  then show ?thesis by (simp add: link_ok_def)
qed

lemma run_inv_end:
  assumes run: "run_inv lg d" and h: "dv_get d sid = Some h"
    and h': "write_ended h'" "hm_status h' = hm_status h" "hm_dropped h \<longrightarrow> hm_dropped h'"
      "held h' = held h \<or> hm_dropped h' \<and> length (held h') \<le> length (held h)"
    and d': "dv_acceptor d' = dv_acceptor d" "dv_wire d' = dv_wire d" "dv_closing d' = dv_closing d"
      "pending_of d' = pending_of d" "dv_get d' = (dv_get d)(sid \<mapsto> h')" "dv_running d' = dv_running d"
    and cs: "dv_commands d' = dv_commands d \<or> (\<exists>c. is_end sid c \<and> dv_commands d' = dv_commands d @ [c])"
  shows "run_inv lg d'"
  using run
proof (cases rule: run_invD)
  case (running fs)
  from cs obtain cs' where cs': "dv_commands d' = dv_commands d @ cs'" "cs' = [] \<or> (\<exists>c. cs' = [c] \<and> is_end sid c)" by auto
  have one: "told cs' k = 0" "queued cs' k = []" "k \<noteq> sid \<Longrightarrow> \<not> ends cs' k" "length cs' \<le> 1" for k
    using cs'(2) by (auto elim: is_end.elims)
  have "link_ok sid ((stream_link d lg fs sid)\<lparr>lk_handle := Some h', lk_ends := (ends (dv_commands d) sid \<or> ends cs' sid)\<rparr>)"
    using h h' by (intro link_ok_ended [OF driver_invD(4) [OF running(2)]]) (simp_all add: stream_link_def)
  then have "driver_inv d' lg fs"
    by (intro driver_inv_call [OF running(2) d'(1-5) cs'(1)]) (use one in \<open>simp_all add: stream_link_def\<close>)
  with running(1) d' show ?thesis by (simp add: run_inv_running)
next
  case (stopped fs)
  show ?thesis
    by (rule run_inv_stopped [OF stopped]) (use d' h h' in \<open>auto simp: hm_state_def split: if_splits\<close>)
qed

lemma run_inv_shutdown:
  assumes "run_inv lg d" and "dv_get d sid = Some h" and "stream_poll_shutdown sid h d = (r, d')"
  shows "run_inv lg d'"
proof (cases "d' = d")
  case False
  then have d': "d' = put_stream sid (h\<lparr>hm_write_shutdown := True\<rparr>) (d\<lparr>dv_commands := dv_commands d @ [CmdClose sid]\<rparr>)"
    using assms(3) by (auto simp: stream_poll_shutdown_def send_command_def split: option.splits if_splits)
  show ?thesis
    by (rule run_inv_end [OF assms(1,2), where h' = "h\<lparr>hm_write_shutdown := True\<rparr>"])
      (auto simp: d' write_ended_def held_def)
qed (use assms in simp)

lemma run_inv_reset:
  assumes "run_inv lg d" and "dv_get d sid = Some h" and "stream_reset sid reason h d = (r, d')"
  shows "run_inv lg d'"
proof (cases "d' = d")
  case False
  then have d': "d' = put_stream sid (h\<lparr>hm_write_shutdown := True\<rparr>) (d\<lparr>dv_commands := dv_commands d @ [CmdReset sid reason]\<rparr>)"
    using assms(3) by (auto simp: stream_reset_def send_command_def split: option.splits if_splits)
  show ?thesis
    by (rule run_inv_end [OF assms(1,2), where h' = "h\<lparr>hm_write_shutdown := True\<rparr>"])
      (auto simp: d' write_ended_def held_def)
qed (use assms in simp)

lemma run_inv_drop:
  assumes "run_inv lg d" and "dv_get d sid = Some h"
  shows "run_inv lg (stream_drop sid h d)"
  by (rule run_inv_end [OF assms, where h' = "h\<lparr>hm_dropped := True, hm_signals := []\<rparr>"])
    (auto simp: stream_drop_def Let_def send_command_def write_ended_def held_def)

lemma logs_ok_fields [simp]:
  "logs_ok (d\<lparr>dv_owner := b\<rparr>) = logs_ok d" "logs_ok (d\<lparr>dv_accepts := r\<rparr>) = logs_ok d"
  "logs_ok (d\<lparr>dv_writer := w\<rparr>) = logs_ok d" "logs_ok (d\<lparr>dv_clock := t\<rparr>) = logs_ok d"
  by (simp_all add: logs_ok_def fun_eq_iff)

lemma run_inv_fields [simp]:
  "run_inv lg (d\<lparr>dv_owner := b\<rparr>) = run_inv lg d" "run_inv lg (d\<lparr>dv_accepts := r\<rparr>) = run_inv lg d"
  "run_inv lg (d\<lparr>dv_writer := w\<rparr>) = run_inv lg d" "run_inv lg (d\<lparr>dv_clock := t\<rparr>) = run_inv lg d"
  unfolding run_inv_def by (simp_all cong: if_cong)

lemma run_inv_connection_drop:
  assumes "run_inv lg d"
  shows "run_inv lg (connection_drop d)"
proof -
  let ?f = "\<lambda>sid d. case dv_get d sid of None \<Rightarrow> d | Some h \<Rightarrow> stream_drop sid h d"
  have "run_inv lg d \<Longrightarrow> run_inv lg (fold ?f sids d)" for sids d
    by (induction sids arbitrary: d) (auto intro: run_inv_drop split: option.split)
  moreover have "run_inv lg (d\<lparr>dv_owner := False, dv_accepts := []\<rparr>)"
    using assms by simp
  ultimately show ?thesis by (simp add: connection_drop_def)
qed

subsection \<open>Runs\<close>

definition empty_log :: run_log where
  "empty_log = \<lparr>lg_accepted = \<lambda>_. [], lg_received = \<lambda>_. [], lg_read = \<lambda>_. []\<rparr>"

text \<open>A handle can be used once it was taken from the connection, and until it is dropped.\<close>

definition usable :: "carrier_driver \<Rightarrow> u32 \<Rightarrow> home_stream \<Rightarrow> bool" where
  "usable d sid h \<longleftrightarrow> dv_get d sid = Some h \<and> \<not> hm_dropped h \<and> sid \<notin> set (dv_accepts d)"

inductive driver_step :: "carrier_driver \<Rightarrow> run_log \<Rightarrow> carrier_driver \<Rightarrow> run_log \<Rightarrow> bool" where
  iterate: "dv_running d \<Longrightarrow> driver_step d lg (driver_iteration i d) (receive (input_data i d) lg)"
| surroundings: "driver_step d lg (d\<lparr>dv_writer := w, dv_clock := t\<rparr>) lg"
| accept: "connection_accept_stream d = (r, d') \<Longrightarrow> driver_step d lg d' lg"
| close: "connection_close d = (q, d') \<Longrightarrow> driver_step d lg d' lg"
| disconnect: "dv_owner d \<Longrightarrow> driver_step d lg (connection_drop d) lg"
| reads: "usable d sid h \<Longrightarrow> stream_poll_read sid n h d = Some (b, d') \<Longrightarrow>
    driver_step d lg d' (lg\<lparr>lg_read := (lg_read lg)(sid := lg_read lg sid @ read_bytes b)\<rparr>)"
| writes: "usable d sid h \<Longrightarrow> stream_poll_write sid bs h d = (c, d') \<Longrightarrow>
    driver_step d lg d' (lg\<lparr>lg_accepted := (lg_accepted lg)(sid := lg_accepted lg sid @ accepted_bytes bs c)\<rparr>)"
| shutdown: "usable d sid h \<Longrightarrow> stream_poll_shutdown sid h d = (u, d') \<Longrightarrow> driver_step d lg d' lg"
| reset: "usable d sid h \<Longrightarrow> stream_reset sid reason h d = (q, d') \<Longrightarrow> driver_step d lg d' lg"
| drop: "usable d sid h \<Longrightarrow> driver_step d lg (stream_drop sid h d) lg"

inductive driver_run :: "mux_limits \<Rightarrow> carrier_driver \<Rightarrow> run_log \<Rightarrow> bool" for l where
  new: "acceptor_new l = Inr a \<Longrightarrow> driver_run l (driver_new a) empty_log"
| step: "driver_run l d lg \<Longrightarrow> driver_step d lg d' lg' \<Longrightarrow> driver_run l d' lg'"

lemma driver_new_inv:
  assumes "acceptor_new l = Inr a"
  shows "driver_inv (driver_new a) empty_log []"
proof (rule driver_invI)
  show "state_ok (dv_acceptor (driver_new a))" using new_ok [OF assms] by (simp add: driver_new_def)
  fix sid
  show "link_ok sid (stream_link (driver_new a) empty_log [] sid)"
    using new_ok [OF assms]
    by (simp add: link_ok_def stream_link_def driver_new_def dv_get_def ac_get_def pending_of_def empty_log_def)
qed (simp_all add: driver_new_def)

lemma step_inv: "driver_step d lg d' lg' \<Longrightarrow> run_inv lg d \<Longrightarrow> run_inv lg' d'"
proof (induction rule: driver_step.induct)
  case (iterate d lg i)
  then show ?case by (auto elim!: run_invD intro: driver_iteration_inv)
next
  case (surroundings d lg w t)
  then show ?case by simp
next
  case (accept d r d' lg)
  then have "d' = d \<or> (\<exists>r. d' = d\<lparr>dv_accepts := r\<rparr>)" by (auto simp: connection_accept_stream_def split: list.splits)
  with accept.prems show ?case by auto
next
  case (close d q d' lg)
  then have "d' = d \<or> dv_running d \<and> d' = d\<lparr>dv_commands := dv_commands d @ [CmdCloseConnection]\<rparr>"
    by (auto simp: connection_close_def send_command_def split: if_splits)
  moreover have "driver_inv (d\<lparr>dv_commands := dv_commands d @ [CmdCloseConnection]\<rparr>) lg fs = driver_inv d lg fs" for fs
    by (simp add: driver_inv_def stream_link_def)
  ultimately show ?case using close.prems by (auto simp: run_inv_def)
qed (auto simp: usable_def intro: run_inv_connection_drop run_inv_read run_inv_write run_inv_shutdown run_inv_reset run_inv_drop)

lemma reachable_inv: "driver_run l d lg \<Longrightarrow> run_inv lg d"
proof (induction rule: driver_run.induct)
  case (new a)
  then show ?case using driver_new_inv by (intro run_inv_running) (auto simp: driver_new_def)
qed (rule step_inv)

end
