(* ===== verification/Spl_Driver_Props.thy ===== *)
theory Spl_Driver_Props
  imports Spl_Driver_Run
begin

text \<open>
  Properties of a listener connection as a whole: order of the bytes in both directions, the books
  of every stream, the reason a connection ends with, and two shortcomings of the driver.
\<close>

subsection \<open>Why a connection ends\<close>

abbreviation closed_as :: "carrier_driver \<Rightarrow> u8" where
  "closed_as d \<equiv> ct_close (dv_carrier d)"

lemma record_answers_close [simp]: "ct_close (record_answers now n t) = ct_close t"
  by (simp add: record_answers_def Let_def)

lemma close_carrier_code: "closed_as (close_carrier c d) = (if closed_as d = 0 then close_code c else closed_as d)"
  by (simp add: close_carrier_def tally_close_def)

lemma on_stream_carrier [simp]: "dv_carrier (on_stream k g d) = dv_carrier d" "dv_owner (on_stream k g d) = dv_owner d"
  by (auto simp: on_stream_def split: option.split)

lemma deliver_events_close:
  "deliver_events es d = (ok, d') \<Longrightarrow>
     dv_owner d' = dv_owner d \<and>
     (closed_as d' = closed_as d \<or> \<not> ok \<and> es \<noteq> [] \<and> \<not> dv_owner d \<and> closed_as d = 0 \<and> closed_as d' = close_code OwnerGone)"
proof (induction es arbitrary: d)
  case (Cons e es)
  obtain b d1 where e: "deliver_event e d = (b, d1)" by fastforce
  have d1: "dv_owner d1 = dv_owner d" "b \<Longrightarrow> closed_as d1 = closed_as d"
    "\<not> b \<Longrightarrow> \<not> dv_owner d \<and> closed_as d1 = (if closed_as d = 0 then close_code OwnerGone else closed_as d)"
    using e by (auto simp: deliver_event_def Let_def close_carrier_code split: mux_event.splits if_splits)
      (simp_all add: close_carrier_def)
  show ?case
  proof (cases b)
    case True
    with Cons.prems e have "deliver_events es d1 = (ok, d')" by simp
    from Cons.IH [OF this] d1 True show ?thesis by auto
  next
    case False
    with Cons.prems e d1 show ?thesis by (auto split: if_splits)
  qed
qed simp

lemma writer_op_close: "writer_op bs d = (ok, d') \<Longrightarrow> dv_carrier d' = dv_carrier d \<and> dv_owner d' = dv_owner d"
  by (auto simp: writer_op_def split: option.splits nat.splits)

lemma write_frames_close:
  "write_frames fs n d = ((ok, m), d') \<Longrightarrow> dv_carrier d' = dv_carrier d \<and> dv_owner d' = dv_owner d"
proof (induction fs arbitrary: n d)
  case (Cons f fs)
  show ?case
  proof (cases "encode f")
    case (Inl e)
    with Cons.prems show ?thesis by simp
  next
    case (Inr bs)
    obtain b d1 where w: "writer_op bs d = (b, d1)" by fastforce
    show ?thesis
    proof (cases b)
      case True
      with Cons.prems Inr w have "write_frames fs (if stream_id f = 0 \<and> flags f = FLAG_PONG then n + 1 else n) d1 = ((ok, m), d')"
        by simp
      from Cons.IH [OF this] writer_op_close [OF w] show ?thesis by simp
    next
      case False
      with Cons.prems Inr w writer_op_close [OF w] show ?thesis by simp
    qed
  qed
qed simp

lemma deliver_output_close:
  assumes "deliver_output out d = (ok, d')"
  shows "dv_owner d' = dv_owner d \<and>
    (closed_as d' = closed_as d
     \<or> \<not> ok \<and> mo_events out \<noteq> [] \<and> \<not> dv_owner d \<and> closed_as d = 0 \<and> closed_as d' = close_code OwnerGone)"
proof -
  obtain b m d1 where wf: "write_frames (mo_frames out) 0 d = ((b, m), d1)" by (metis prod.exhaust)
  note d1 = write_frames_close [OF wf]
  obtain c d2 where fl: "(if mo_frames out \<noteq> [] then writer_op [] d1 else (True, d1)) = (c, d2)" by fastforce
  have d2: "dv_carrier d2 = dv_carrier d1 \<and> dv_owner d2 = dv_owner d1"
    using fl writer_op_close [of "[]" d1 c d2] by (auto split: if_splits)
  show ?thesis
  proof (cases "b \<and> c")
    case True
    let ?d3 = "d2\<lparr>dv_carrier := record_answers (dv_clock d2) m (dv_carrier d2)\<rparr>"
    have "deliver_events (mo_events out) ?d3 = (ok, d')"
      using assms True wf fl by (simp add: deliver_output_def)
    from deliver_events_close [OF this] d1 d2 show ?thesis by auto
  next
    case False
    with assms wf fl have "\<not> ok \<and> (d' = d1 \<or> d' = d2)" by (cases b) (auto simp: deliver_output_def)
    with d1 d2 show ?thesis by auto
  qed
qed

lemma silent_close: "deliver_output out d = (ok, d') \<Longrightarrow> mo_events out = [] \<Longrightarrow> closed_as d' = closed_as d"
  using deliver_output_close [of out d ok d'] by auto

lemma events_of_calls:
  "close_write a sid = (Inr out, a') \<Longrightarrow> mo_events out = []"
  "try_send_data a sid bs = (Inr (Some out), a') \<Longrightarrow> mo_events out = []"
  "acceptor_reset a sid r = (Inr out, a') \<Longrightarrow> mo_events out = []"
  "acceptor_consume a sid n = (Inr out, a') \<Longrightarrow> mo_events out = []"
  by (auto simp: close_write_def try_send_data_def acceptor_reset_def acceptor_consume_def mux_output_default_def Let_def
      split: option.splits if_splits sum.splits)

lemma close_if_asked_close:
  assumes "close_if_asked sid d = (ok, d')"
  shows "closed_as d' = closed_as d"
proof -
  obtain r a where cw: "close_write (dv_acceptor d) sid = (r, a)" by fastforce
  show ?thesis
  proof (cases "sid \<in> set (dv_closing d) \<and> (\<exists>out. r = Inr out)")
    case True
    then obtain out where out: "r = Inr out" by blast
    with True assms cw have "deliver_output out (d\<lparr>dv_closing := removeAll sid (dv_closing d), dv_acceptor := a\<rparr>) = (ok, d')"
      by (simp add: close_if_asked_def)
    from silent_close [OF this] events_of_calls(1) [OF cw [unfolded out]] show ?thesis by simp
  next
    case False
    with assms cw show ?thesis by (cases r) (auto simp: close_if_asked_def split: if_splits)
  qed
qed

lemma discard_close [simp]: "dv_carrier (discard_pending_stream sid d) = dv_carrier d"
  by (auto simp: discard_pending_stream_def Let_def split: option.split)

lemma flush_stream_close:
  assumes "flush_stream sid d = ((ok, s), d')"
  shows "closed_as d' = closed_as d"
proof (cases "(case dv_get d sid of Some h \<Rightarrow> hm_state h \<noteq> STREAM_LIVE | None \<Rightarrow> False)
    \<or> table_get (dv_pending d) sid = None \<or> table_get (dv_pending d) sid = Some []")
  case True
  then show ?thesis
    using assms close_if_asked_close [of sid d ok d']
      close_if_asked_close [of sid "d\<lparr>dv_pending := table_del (dv_pending d) sid\<rparr>" ok d']
    by (auto simp: flush_stream_def split: if_splits prod.splits)
next
  case False
  then obtain q where q: "table_get (dv_pending d) sid = Some q" "q \<noteq> []"
    and live: "\<not> (case dv_get d sid of Some h \<Rightarrow> hm_state h \<noteq> STREAM_LIVE | None \<Rightarrow> False)" by auto
  let ?n = "min (length q) RECOMMENDED_CHUNK"
  obtain r a where send: "try_send_data (dv_acceptor d) sid (take ?n q) = (r, a)" by fastforce
  show ?thesis
  proof (cases "\<exists>out. r = Inr (Some out)")
    case False
    then show ?thesis using assms q live send
      by (cases r) (auto simp: flush_stream_def Let_def split: option.splits if_splits)
  next
    case True
    then obtain out where out: "r = Inr (Some out)" by blast
    obtain b d2 where del: "deliver_output out (d\<lparr>dv_pending := table_put (dv_pending d) sid (drop ?n q), dv_acceptor := a\<rparr>) = (b, d2)"
      by fastforce
    have d2: "closed_as d2 = closed_as d" using silent_close [OF del] send out events_of_calls(2) by auto
    let ?d3 = "on_stream sid (release (length (take ?n q))) d2"
    show ?thesis
      using assms q live send out del d2
        close_if_asked_close [of sid "?d3\<lparr>dv_pending := table_del (dv_pending ?d3) sid\<rparr>" ok d']
      by (cases b) (auto simp: flush_stream_def Let_def split: if_splits prod.splits)
  qed
qed

lemma flush_rounds_close: "flush_rounds n p d = ((ok, q), d') \<Longrightarrow> closed_as d' = closed_as d"
proof (induction n arbitrary: p d)
  case (Suc n)
  show ?case
  proof (cases "dv_ready d")
    case (Cons sid rest)
    obtain b sent d1 where fl: "flush_stream sid (d\<lparr>dv_ready := rest\<rparr>) = ((b, sent), d1)" by (metis prod.exhaust)
    from Suc.prems Cons fl Suc.IH [of "p \<or> sent" d1] flush_stream_close [OF fl] show ?thesis by (cases b) simp_all
  qed (use Suc.prems in simp)
qed simp

lemma flush_ready_close: "flush_ready d = (ok, d') \<Longrightarrow> closed_as d' = closed_as d"
proof -
  assume eq: "flush_ready d = (ok, d')"
  obtain b p d1 where fl: "flush_rounds (length (dv_ready d)) False d = ((b, p), d1)" by (metis prod.exhaust)
  from eq fl flush_rounds_close [OF fl] show ?thesis by (cases b) (auto simp: flush_ready_def split: if_splits)
qed

lemma driver_end_close [simp]: "closed_as (driver_end d) = closed_as d" "\<not> dv_running (driver_end d)"
  by (simp_all add: driver_end_def)

lemma deliver_or_break_close:
  assumes "deliver_or_break out d = (w, d')" and "closed_as d = 0"
  shows "(w \<noteq> Break \<longrightarrow> closed_as d' = 0)
    \<and> (w = Break \<longrightarrow> closed_as d' = close_code WriteFailed
         \<or> mo_events out \<noteq> [] \<and> \<not> dv_owner d \<and> closed_as d' = close_code OwnerGone)"
proof -
  obtain ok e where del: "deliver_output out d = (ok, e)" by fastforce
  from deliver_output_close [OF del] assms del show ?thesis
    by (cases ok) (auto simp: deliver_or_break_def close_carrier_code)
qed

text \<open>The reasons for which a local command can end the loop.\<close>

lemma on_command_close:
  assumes inv: "driver_inv d lg fs" and cs: "dv_commands d = c # cs" and open': "closed_as d = 0"
    and eq: "on_command c (d\<lparr>dv_commands := cs\<rparr>) = (w, d')"
  shows "(w \<noteq> Break \<longrightarrow> closed_as d' = 0)
    \<and> (w = Break \<longrightarrow> closed_as d' = close_code WriteFailed \<or> c = CmdCloseConnection \<and> closed_as d' = close_code LocalClose)"
proof -
  have reset: "(w \<noteq> Break \<longrightarrow> closed_as d' = 0) \<and> (w = Break \<longrightarrow> closed_as d' = close_code WriteFailed)"
    if "reset_locally sid r (d\<lparr>dv_commands := cs\<rparr>) = (w, d')" for sid r
  proof -
    obtain q a where rs: "acceptor_reset (dv_acceptor d) sid r = (q, a)" by fastforce
    show ?thesis
    proof (cases q)
      case (Inl e)
      with rs have "e = Closed" by (auto simp: acceptor_reset_def split: if_splits)
      with that rs Inl open' show ?thesis by (auto simp: reset_locally_def Let_def)
    next
      case (Inr out)
      let ?d = "discard_pending_stream sid (d\<lparr>dv_commands := cs\<rparr>)\<lparr>dv_acceptor := a\<rparr>"
      have "deliver_or_break out ?d = (w, d')" using that rs Inr by (simp add: reset_locally_def Let_def)
      from deliver_or_break_close [OF this] open' events_of_calls(3) [OF rs [unfolded Inr]] show ?thesis by simp
    qed
  qed
  show ?thesis
  proof (cases c)
    case (CmdWrite sid bs)
    with eq open' show ?thesis by (auto simp: on_command_def push_ready_def)
  next
    case (CmdClose sid)
    with eq open' show ?thesis by (auto simp: on_command_def push_ready_def)
  next
    case (CmdConsumed sid n)
    show ?thesis
    proof (cases "ac_get (dv_acceptor d) sid")
      case None
      with CmdConsumed eq open' show ?thesis by (auto simp: on_command_def acceptor_consume_def)
    next
      case (Some s)
      have "n \<le> ss_debited_not_consumed s"
        using driver_invD(4) [OF inv, of sid] Some cs CmdConsumed
        by (auto simp: link_ok_def handle_ok_def stream_link_def split: option.splits)
      from consume_outcome [OF driver_invD(1) [OF inv] Some this] obtain out a where
        con: "acceptor_consume (dv_acceptor d) sid n = (Inr out, a)" by blast
      obtain r where mark: "mark_writable_streams out (d\<lparr>dv_commands := cs, dv_acceptor := a\<rparr>) = d\<lparr>dv_commands := cs, dv_acceptor := a, dv_ready := r\<rparr>"
        using mark_writable_streams_ready by metis
      have "deliver_or_break out (d\<lparr>dv_commands := cs, dv_acceptor := a, dv_ready := r\<rparr>) = (w, d')"
        using CmdConsumed eq con mark by (simp add: on_command_def)
      from deliver_or_break_close [OF this] open' events_of_calls(4) [OF con] show ?thesis by simp
    qed
  next
    case (CmdCancel sid)
    with eq have "reset_locally sid Cancel (d\<lparr>dv_commands := cs\<rparr>) = (w, d')" by (simp add: on_command_def)
    from reset [OF this] show ?thesis by blast
  next
    case (CmdReset sid r)
    with eq have "reset_locally sid r (d\<lparr>dv_commands := cs\<rparr>) = (w, d')" by (simp add: on_command_def)
    from reset [OF this] show ?thesis by blast
  next
    case CmdWake
    with eq open' show ?thesis by (auto simp: on_command_def)
  next
    case CmdCloseConnection
    with eq open' show ?thesis by (auto simp: on_command_def close_carrier_code)
  qed
qed

lemma on_read_close:
  assumes open': "closed_as d = 0" and eq: "on_read bs d = (w, d')"
  shows "(w \<noteq> Break \<longrightarrow> closed_as d' = 0)
    \<and> (w = Break \<longrightarrow>
         (if bs = [] then closed_as d' = close_code (PeerEof (ac_decoder_buffered_bytes (dv_acceptor d) \<noteq> 0))
          else case acceptor_feed (dv_acceptor d) bs of
                 (Inl _, _) \<Rightarrow> closed_as d' = close_code AcceptorRefused
               | (Inr out, _) \<Rightarrow> closed_as d' = close_code WriteFailed \<or> \<not> dv_owner d \<and> closed_as d' = close_code OwnerGone))"
proof (cases "bs = []")
  case True
  obtain out a where eof: "acceptor_finish_eof (dv_acceptor d) = (out, a)" by fastforce
  define t where "t = list_ex (\<lambda>e. e = PeerGone True) (mo_events out)"
  obtain r where mark: "mark_writable_streams out (close_carrier (PeerEof t) (d\<lparr>dv_acceptor := a\<rparr>))
      = close_carrier (PeerEof t) (d\<lparr>dv_acceptor := a\<rparr>)\<lparr>dv_ready := r\<rparr>"
    using mark_writable_streams_ready by metis
  obtain ok e where del: "deliver_output out (close_carrier (PeerEof t) (d\<lparr>dv_acceptor := a\<rparr>)\<lparr>dv_ready := r\<rparr>) = (ok, e)" by fastforce
  have "w = Break \<and> d' = e" using eq True eof mark del by (simp add: on_read_def Let_def t_def)
  moreover have "closed_as e = close_code (PeerEof t)"
    using deliver_output_close [OF del] open' by (simp add: close_carrier_code split: if_splits)
  moreover have "t = (ac_decoder_buffered_bytes (dv_acceptor d) \<noteq> 0)"
    using eof by (auto simp: t_def acceptor_finish_eof_def mux_output_default_def)
  ultimately show ?thesis using True by (simp del: close_code.simps)
next
  case False
  obtain q a where feed: "acceptor_feed (dv_acceptor d) bs = (q, a)" by fastforce
  show ?thesis
  proof (cases q)
    case (Inl e)
    with False feed eq open' have "w = Break \<and> closed_as d' = close_code AcceptorRefused"
      by (auto simp: on_read_def close_carrier_code)
    with False feed Inl show ?thesis by simp
  next
    case (Inr out)
    obtain r where mark: "mark_writable_streams out (d\<lparr>dv_acceptor := a\<rparr>) = d\<lparr>dv_acceptor := a, dv_ready := r\<rparr>"
      using mark_writable_streams_ready by metis
    have "deliver_or_break out (d\<lparr>dv_acceptor := a, dv_ready := r\<rparr>) = (w, d')"
      using False feed Inr eq mark by (simp add: on_read_def)
    from deliver_or_break_close [OF this] open' have "(w \<noteq> Break \<longrightarrow> closed_as d' = 0)
        \<and> (w = Break \<longrightarrow> closed_as d' = close_code WriteFailed \<or> \<not> dv_owner d \<and> closed_as d' = close_code OwnerGone)"
      by (simp del: close_code.simps) blast
    with False feed Inr show ?thesis by (simp del: close_code.simps)
  qed
qed

lemma close_code_inverse [simp]: "close_from_code (close_code c) = c"
  by (cases c) (auto simp: close_from_code_def)

lemma close_code_open [simp]: "close_code c = 0 \<longleftrightarrow> c = CarrierOpen"
  by (cases c) auto

definition stop_reason :: "driver_input \<Rightarrow> carrier_driver \<Rightarrow> carrier_close \<Rightarrow> bool" where
  "stop_reason i d c \<longleftrightarrow>
     (case i of
        ReadFailed \<Rightarrow> c = PeerReadFailed
      | ReadBytes bs \<Rightarrow>
          if bs = [] then c = PeerEof (ac_decoder_buffered_bytes (dv_acceptor d) \<noteq> 0)
          else (case acceptor_feed (dv_acceptor d) bs of
                  (Inl e, _) \<Rightarrow> c = AcceptorRefused
                | (Inr out, _) \<Rightarrow> c = WriteFailed \<or> \<not> dv_owner d \<and> c = OwnerGone)
      | TakeCommand \<Rightarrow> c = WriteFailed \<or> c = LocalClose \<and> (\<exists>cs. dv_commands d = CmdCloseConnection # cs))"

lemma select_arm_close:
  assumes inv: "driver_inv d lg fs" and open': "closed_as d = 0" and arm: "select_arm i d = (w, e)"
  shows "(w \<noteq> Break \<longrightarrow> closed_as e = 0) \<and> (w = Break \<longrightarrow> stop_reason i d (close_from_code (closed_as e)))
    \<and> (w = Flush \<longrightarrow> stop_reason i d WriteFailed)"
proof (cases i)
  case ReadFailed
  with arm open' show ?thesis
    by (auto simp: select_arm_def stop_reason_def close_carrier_code simp del: close_code.simps)
next
  case (ReadBytes bs)
  have "w = Flush \<longrightarrow> stop_reason i d WriteFailed"
    using arm ReadBytes
    by (auto simp: select_arm_def stop_reason_def on_read_def Let_def split: sum.splits prod.splits if_splits)
  with arm on_read_close [OF open', of bs w e] ReadBytes show ?thesis
    by (auto simp: select_arm_def stop_reason_def simp del: close_code.simps split: sum.splits prod.splits if_splits)
next
  case TakeCommand
  show ?thesis
  proof (cases "dv_commands d")
    case Nil
    with TakeCommand arm open' show ?thesis by (auto simp: select_arm_def stop_reason_def)
  next
    case (Cons c cs)
    with TakeCommand arm have "on_command c (d\<lparr>dv_commands := cs\<rparr>) = (w, e)" by (simp add: select_arm_def)
    from on_command_close [OF inv Cons open' this] TakeCommand Cons show ?thesis
      by (auto simp: stop_reason_def simp del: close_code.simps)
  qed
qed

lemma iteration_close:
  assumes inv: "driver_inv d lg fs" and run: "dv_running d" and open': "closed_as d = 0"
  shows "if dv_running (driver_iteration i d) then closed_as (driver_iteration i d) = 0
    else stop_reason i d (close_from_code (closed_as (driver_iteration i d)))"
proof -
  define d1 where "d1 = d\<lparr>dv_refusals := ac_refusals (dv_acceptor d)\<rparr>"
  obtain w e where arm: "select_arm i d1 = (w, e)" by fastforce
  have d1: "driver_inv d1 lg fs" "dv_running d1" "closed_as d1 = 0" "stop_reason i d1 = stop_reason i d"
    using inv run open' by (simp_all add: d1_def stop_reason_def fun_eq_iff split: driver_input.split prod.split sum.split)
  note close = select_arm_close [OF d1(1,3) arm, unfolded d1(4)]
  have it: "driver_iteration i d = (case (w, e) of (Break, d) \<Rightarrow> driver_end d | (Continue, d) \<Rightarrow> d
      | (Flush, d) \<Rightarrow> (case flush_ready d of (True, d) \<Rightarrow> d | (False, d) \<Rightarrow> driver_end (close_carrier WriteFailed d)))"
    unfolding driver_iteration_def d1_def [symmetric] arm ..
  have e: "fine (receive (input_data i d1) lg) (w \<noteq> Break, e)" "dv_running e"
    using select_arm_fine [OF d1(1), of i] arm d1(2) by (simp_all add: arm_fine_def)
  show ?thesis
  proof (cases "w = Flush")
    case True
    then obtain gs where gs: "driver_inv e (receive (input_data i d1) lg) gs" using e(1) by (auto simp: fine_def)
    obtain ok e' where fl: "flush_ready e = (ok, e')" by fastforce
    have "closed_as e' = 0" "dv_running e'"
      using flush_ready_close [OF fl] flush_ready_fine [OF gs fl] close True e(2) by simp_all
    with it fl True close show ?thesis
      by (cases ok) (simp_all add: close_carrier_code del: close_code.simps)
  next
    case False
    with it close e(2) show ?thesis by (cases w) simp_all
  qed
qed

lemma run_open:
  assumes "driver_run l d lg"
  shows "dv_running d \<longrightarrow> closed_as d = 0"
  using assms
proof (induction rule: driver_run.induct)
  case (new a)
  then show ?case by (simp add: driver_new_def tally_new_def)
next
  case (step d lg d' lg')
  from step(2) show ?case
  proof cases
    case (iterate i)
    with reachable_inv [OF step(1)] obtain fs where "driver_inv d lg fs" by (auto elim: run_invD)
    with iteration_close [OF this, of i] step.IH iterate show ?thesis by (auto split: if_splits)
  next
    case (reads sid h n b)
    with step.IH show ?thesis
      by (auto simp: stream_poll_read_def send_command_def put_stream_def split: option.splits if_splits)
  next
    case (disconnect)
    let ?f = "\<lambda>sid d. case dv_get d sid of None \<Rightarrow> d | Some h \<Rightarrow> stream_drop sid h d"
    have "dv_running (fold ?f sids e) = dv_running e \<and> dv_carrier (fold ?f sids e) = dv_carrier e" for sids e
      by (induction sids arbitrary: e)
        (auto simp: stream_drop_def send_command_def put_stream_def Let_def split: option.split)
    with disconnect step.IH show ?thesis by (simp add: connection_drop_def)
  qed (use step.IH in \<open>auto simp: connection_accept_stream_def connection_close_def stream_poll_write_def
      stream_poll_shutdown_def stream_reset_def stream_drop_def send_command_def put_stream_def Let_def
      split: list.splits option.splits if_splits prod.splits\<close>)
qed

subsection \<open>An example run\<close>

text \<open>
  The carrier of the acceptor's example arrives; the owner takes both streams and writes to the
  second one, twice as much as fits into its staging area.
\<close>

definition example_bytes :: bytes where
  "example_bytes = concat (map item_wire example_items)"

definition example_handle :: home_stream where
  "example_handle = home_stream_new\<lparr>hm_status := status_new\<lparr>sx_state := STREAM_RESET\<rparr>,
     hm_signals := [SigData [7, 8], SigReset]\<rparr>"

definition example_opened :: carrier_driver where
  "example_opened = (driver_new example_acceptor)\<lparr>dv_acceptor := example_after,
     dv_streams := [(1, example_handle), (5, home_stream_new)], dv_accepts := [1, 5],
     dv_wire := wire (reset_frame 3 RESET_STREAM_LIMIT_EXCEEDED) @ wire (reset_frame 1 RESET_PROTOCOL_ERROR)\<rparr>"

definition example_log :: run_log where
  "example_log = receive (input_data (ReadBytes example_bytes) (driver_new example_acceptor)) empty_log"

lemma example_iteration:
  "driver_iteration (ReadBytes example_bytes) (driver_new example_acceptor) = example_opened"
proof -
  have feed: "acceptor_feed example_acceptor example_bytes = (Inr example_output, example_after)"
    using example_feed by (simp add: example_bytes_def)
  have ne: "example_bytes \<noteq> []" by (simp add: example_bytes_def example_items_def wire_def u32_to_be_bytes_def)
  have ref: "ac_refusals example_acceptor = refusal_counts_default" by (simp add: example_acceptor_def)
  have flag: "FLAG_RESET \<noteq> FLAG_PONG" by (simp add: flag_defs)
  show ?thesis
    by (simp add: driver_iteration_def select_arm_def on_read_def ne feed flag ref driver_new_def deliver_or_break_def deliver_output_def
        mark_writable_streams_def example_output_def writer_op_def deliver_event_def Let_def flush_ready_def
        dv_get_def table_get_def table_put_def on_stream_def example_opened_def example_handle_def send_signal_def
        set_state_def home_stream_new_def status_new_def record_answers_def tally_new_def)
qed

lemma example_opened_run: "driver_run example_limits example_opened example_log"
proof -
  have "dv_running (driver_new example_acceptor)" by (simp add: driver_new_def)
  from driver_run.step [OF driver_run.new [OF example_new] driver_step.iterate [OF this]] show ?thesis
    by (simp only: example_iteration [symmetric] example_log_def)
qed

definition example_taken :: carrier_driver where
  "example_taken = example_opened\<lparr>dv_accepts := []\<rparr>"

lemma example_taken_run: "driver_run example_limits example_taken example_log"
proof -
  have "connection_accept_stream example_opened = (Ready (Inr 1), example_opened\<lparr>dv_accepts := [5]\<rparr>)"
    "connection_accept_stream (example_opened\<lparr>dv_accepts := [5]\<rparr>) = (Ready (Inr 5), example_taken)"
    by (simp_all add: connection_accept_stream_def example_opened_def example_taken_def)
  then show ?thesis using example_opened_run by (blast intro: driver_run.step driver_step.accept)
qed

text \<open>The second stream after a write that fills its staging area, and after one more.\<close>

definition full_handle :: home_stream where
  "full_handle = home_stream_new\<lparr>hm_status := status_new\<lparr>sx_staged := MAX_STAGED_WRITE_BYTES_PER_STREAM\<rparr>\<rparr>"

definition example_full :: carrier_driver where
  "example_full = put_stream 5 full_handle example_taken\<lparr>dv_commands := [CmdWrite 5 (replicate MAX_STAGED_WRITE_BYTES_PER_STREAM 0)]\<rparr>"

definition parked_handle :: home_stream where
  "parked_handle = full_handle\<lparr>hm_status := (hm_status full_handle)\<lparr>sx_waker := True\<rparr>\<rparr>"

definition example_parked :: carrier_driver where
  "example_parked = put_stream 5 parked_handle example_full"

lemma staged_positive: "0 < MAX_STAGED_WRITE_BYTES_PER_STREAM"
  by (simp add: MAX_STAGED_WRITE_BYTES_PER_STREAM_def INITIAL_WINDOW_def)

lemma stream_errors_live:
  "stream_error home_stream_new = None" "stream_error full_handle = None"
  by (simp_all add: stream_error_def full_handle_def home_stream_new_def status_new_def hm_state_def)

lemma example_write_full:
  "stream_poll_write 5 (replicate MAX_STAGED_WRITE_BYTES_PER_STREAM 0) home_stream_new example_taken
     = (Ready (Inr MAX_STAGED_WRITE_BYTES_PER_STREAM), example_full)"
proof -
  have "\<not> hm_write_shutdown home_stream_new" "reserve_staging (hm_status home_stream_new) MAX_STAGED_WRITE_BYTES_PER_STREAM
      = (MAX_STAGED_WRITE_BYTES_PER_STREAM, status_new\<lparr>sx_staged := MAX_STAGED_WRITE_BYTES_PER_STREAM\<rparr>)"
    using staged_positive by (simp_all add: home_stream_new_def status_new_def reserve_staging_def)
  moreover have "dv_running example_taken" "dv_commands example_taken = []"
    by (simp_all add: example_taken_def example_opened_def driver_new_def)
  ultimately show ?thesis
    using staged_positive
    by (simp add: stream_poll_write_def stream_errors_live send_command_def example_full_def full_handle_def put_stream_def)
qed

lemma example_write_parks: "stream_poll_write 5 [0] full_handle example_full = (Pending, example_parked)"
proof -
  have "\<not> hm_write_shutdown full_handle" "reserve_staging (hm_status full_handle) 1 = (0, (hm_status full_handle)\<lparr>sx_waker := True\<rparr>)"
    by (simp_all add: full_handle_def home_stream_new_def reserve_staging_def)
  then show ?thesis by (simp add: stream_poll_write_def stream_errors_live example_parked_def parked_handle_def)
qed

lemma example_usable:
  "usable example_taken 5 home_stream_new" "usable example_full 5 full_handle"
  by (simp_all add: usable_def example_full_def full_handle_def)
    (simp_all add: dv_get_def table_get_def example_taken_def example_opened_def home_stream_new_def)

lemma example_parked_run: "\<exists>lg. driver_run example_limits example_parked lg"
  using example_taken_run driver_step.writes [OF example_usable(1) example_write_full]
    driver_step.writes [OF example_usable(2) example_write_parks] by (blast intro: driver_run.step)

subsection \<open>Writers that are never woken\<close>

lemma dv_get_driver_end:
  "dv_get (driver_end d) sid = map_option (\<lambda>h. send_signal SigGone (set_state STREAM_GONE h)) (dv_get d sid)"
proof -
  have "map_of (map (\<lambda>(k, h). (k, f h)) t) sid = map_option f (map_of t sid)" for f and t :: "home_stream table"
    by (induction t) auto
  then show ?thesis by (simp add: driver_end_def dv_get_def table_get_def)
qed

lemma eof_iteration:
  "\<exists>e. driver_iteration (ReadBytes []) d = driver_end e \<and> dv_get e = dv_get d"
proof -
  obtain out a where eof: "acceptor_finish_eof (dv_acceptor d) = (out, a)" by fastforce
  then have out: "mo_frames out = []" "\<exists>t. mo_events out = [PeerGone t]"
    by (auto simp: acceptor_finish_eof_def mux_output_default_def)
  define d1 where "d1 = close_carrier (PeerEof (list_ex (\<lambda>e. e = PeerGone True) (mo_events out)))
      (d\<lparr>dv_refusals := ac_refusals (dv_acceptor d), dv_acceptor := a\<rparr>)"
  obtain r where mark: "mark_writable_streams out d1 = d1\<lparr>dv_ready := r\<rparr>" using mark_writable_streams_ready by blast
  obtain ok e where del: "deliver_output out (d1\<lparr>dv_ready := r\<rparr>) = (ok, e)" by fastforce
  have "dv_get e = dv_get (d1\<lparr>dv_ready := r\<rparr>)" using del out by (auto simp: deliver_output_def deliver_event_def)
  also have "\<dots> = dv_get d" by (simp add: d1_def)
  finally have "dv_get e = dv_get d" .
  moreover have "driver_iteration (ReadBytes []) d = driver_end e"
    using eof mark del by (simp add: driver_iteration_def select_arm_def on_read_def Let_def d1_def)
  ultimately show ?thesis by blast
qed

definition waits_for_nobody :: "u32 \<Rightarrow> carrier_driver \<Rightarrow> bool" where
  "waits_for_nobody sid d \<longleftrightarrow>
     \<not> dv_running d \<and> (\<exists>h. dv_get d sid = Some h \<and> failed h \<and> sx_waker (hm_status h))"

lemma waits_for_nobody_call:
  assumes "waits_for_nobody sid d" and "dv_running d' = dv_running d" and "dv_get d k = Some h"
    and "dv_get d' = (dv_get d)(k \<mapsto> h')" and "k = sid \<Longrightarrow> hm_status h' = hm_status h"
  shows "waits_for_nobody sid d'"
  using assms by (auto simp: waits_for_nobody_def failed_def hm_state_def)

lemma drop_waits:
  assumes "waits_for_nobody sid d" and "dv_get d k = Some h"
  shows "waits_for_nobody sid (stream_drop k h d)"
  by (rule waits_for_nobody_call [OF assms(1) _ assms(2), where h' = "h\<lparr>hm_dropped := True, hm_signals := []\<rparr>"])
    (auto simp: stream_drop_def Let_def send_command_def)

lemma stopped_step_waits:
  assumes "driver_step d lg d' lg'" and waits: "waits_for_nobody sid d"
  shows "waits_for_nobody sid d'"
proof -
  from waits have stop: "\<not> dv_running d" and err: "\<And>h. dv_get d sid = Some h \<Longrightarrow> failed h"
    by (auto simp: waits_for_nobody_def)
  have id: "waits_for_nobody sid (d\<lparr>dv_accepts := r\<rparr>)" "waits_for_nobody sid (d\<lparr>dv_writer := w, dv_clock := t\<rparr>)"
    "waits_for_nobody sid (d\<lparr>dv_owner := b, dv_accepts := r\<rparr>)" for r w t b
    using waits by (simp_all add: waits_for_nobody_def)
  from assms(1) show ?thesis
  proof cases
    case disconnect
    let ?f = "\<lambda>sid d. case dv_get d sid of None \<Rightarrow> d | Some h \<Rightarrow> stream_drop sid h d"
    have "waits_for_nobody sid e \<Longrightarrow> waits_for_nobody sid (fold ?f ks e)" for ks e
      by (induction ks arbitrary: e) (auto intro: drop_waits split: option.split)
    with disconnect id(3) show ?thesis by (simp add: connection_drop_def)
  next
    case (reads k h n b)
    then obtain r t h' where pr: "poll_read_loop (dv_running d) n h = Some (r, t, h')"
      and d': "dv_get d' = (dv_get d)(k \<mapsto> h')" "dv_running d' = dv_running d"
      using stop by (auto simp: stream_poll_read_def send_command_def usable_def split: option.splits)
    have "hm_status h' = hm_status h" if "k = sid"
      using that err [of h] reads pr failed_errors [of h] by (auto simp: usable_def poll_read_error)
    with waits_for_nobody_call [OF waits d'(2) _ d'(1)] reads show ?thesis by (simp add: usable_def)
  next
    case (writes k h bs c)
    show ?thesis
    proof (cases "d' = d")
      case False
      with writes stop obtain h' where "dv_get d' = (dv_get d)(k \<mapsto> h')" "dv_running d' = dv_running d" "stream_error h = None"
        by (auto simp: stream_poll_write_def send_command_def Let_def split: option.splits if_splits prod.splits)
      with waits_for_nobody_call [OF waits, of d' k h h'] writes err [of h] failed_errors [of h] show ?thesis
        by (auto simp: usable_def)
    qed (use waits in simp)
  next
    case (shutdown k h u)
    with stop waits show ?thesis
      by (auto simp: stream_poll_shutdown_def send_command_def split: option.splits if_splits)
  next
    case (reset k h reason q)
    with stop waits show ?thesis by (auto simp: stream_reset_def send_command_def split: if_splits)
  qed (use stop waits id drop_waits in \<open>auto simp: connection_accept_stream_def connection_close_def send_command_def usable_def
      split: list.splits\<close>)
qed

subsection \<open>Bytes of streams that were reset\<close>

definition inbound_bytes :: "carrier_driver \<Rightarrow> nat" where
  "inbound_bytes d = sum_list (map (\<lambda>(k, h). length (held h)) (dv_streams d))"

definition open_then_reset :: "u32 \<Rightarrow> bytes \<Rightarrow> carrier_item list" where
  "open_then_reset sid p = [Whole (frame_new sid (FLAG_OPEN OR FLAG_DATA) p), Whole (frame_new sid FLAG_RESET [0])]"

definition bare_acceptor :: "u32 option \<Rightarrow> mux_acceptor" where
  "bare_acceptor hw = example_acceptor\<lparr>ac_peer_high_water := hw\<rparr>"

definition opened_then_reset :: "u32 \<Rightarrow> bytes \<Rightarrow> mux_output" where
  "opened_then_reset sid p = mux_output_default\<lparr>mo_events := [Opened sid, Data sid p, Reset sid (from_wire 0)]\<rparr>"

lemma open_then_reset_handled:
  assumes "odd (unat sid)" and "high_water (bare_acceptor hw) < unat sid" and "length p \<le> INITIAL_WINDOW"
  shows "handle_items (open_then_reset sid p) (bare_acceptor hw) mux_output_default
    = (Inr (), bare_acceptor (Some sid), opened_then_reset sid p)"
proof -
  obtain w where w: "debit recv_new (length p) = (Inr (), w)" using assms(3) by (rule fresh_stream_ok)
  let ?a = "bare_acceptor hw" and ?f = "frame_new sid (FLAG_OPEN OR FLAG_DATA) p"
  let ?s = "\<lparr>ss_receive_window = w, ss_debited_not_consumed = length p, ss_send_credit = INITIAL_WINDOW,
    ss_peer_closed = False, ss_local_closed = False\<rparr>"
  have valid: "unat (stream_id ?f) mod 2 = 1
      \<and> (case ac_peer_high_water ?a of None \<Rightarrow> True | Some highest \<Rightarrow> stream_id ?f > highest)"
    using assms(1,2) valid_id_iff [of "stream_id ?f" ?a] by simp
  have sid: "sid \<noteq> 0" using assms(1) by auto
  let ?a1 = "ac_put (bare_acceptor (Some sid)) sid ?s"
  let ?o1 = "mux_output_default\<lparr>mo_events := [Opened sid, Data sid p]\<rparr>"
  have room: "\<not> max_concurrent_streams (ac_limits (bare_acceptor x)) \<le> length (ac_streams (bare_acceptor x))" for x
    by (simp add: bare_acceptor_def example_acceptor_def example_limits_def)
  have nv: "\<not> \<not> (unat (stream_id ?f) mod 2 = 1
      \<and> (case ac_peer_high_water ?a of None \<Rightarrow> True | Some highest \<Rightarrow> stream_id ?f > highest))"
    using valid by blast
  have raise: "?a\<lparr>ac_peer_high_water := Some sid\<rparr> = bare_acceptor (Some sid)" by (simp add: bare_acceptor_def)
  have "handle_open ?f ?a mux_output_default = (?a1, ?o1)"
    unfolding handle_open_def Let_def if_not_P [OF nv] using room assms(3) w
    by (simp add: raise flag_defs put_event_def mux_output_default_def)
  then have first: "handle_frame ?f ?a mux_output_default = (Inr (), ?a1, ?o1)"
    using sid by (simp add: handle_frame_def flag_defs flags_valid_def)
  have "handle_reset (frame_new sid FLAG_RESET [0]) ?a1 ?o1 = (bare_acceptor (Some sid), opened_then_reset sid p)"
    by (simp add: handle_reset_def opened_then_reset_def put_event_def)
      (simp add: ac_remove_stream_def bare_acceptor_def example_acceptor_def table_del_def)
  then have "handle_frame (frame_new sid FLAG_RESET [0]) ?a1 ?o1 = (Inr (), bare_acceptor (Some sid), opened_then_reset sid p)"
    using sid by (simp add: handle_frame_def flag_defs flags_valid_def)
  with first show ?thesis by (simp add: open_then_reset_def)
qed

lemma bare_feed:
  assumes "odd (unat sid)" and "high_water (bare_acceptor hw) < unat sid" and "length p \<le> INITIAL_WINDOW"
  shows "acceptor_feed (bare_acceptor hw) (concat (map item_wire (open_then_reset sid p)))
    = (Inr (opened_then_reset sid p), bare_acceptor (Some sid))"
proof -
  have "idle (bare_acceptor hw)" using example_idle by (simp add: idle_def bare_acceptor_def)
  moreover have "acceptor_ok (bare_acceptor hw)"
    by (rule acceptor_okI) (simp_all add: bare_acceptor_def example_acceptor_def example_limits_def ac_get_def limits_validate_def
        HEADER_LEN_def MAX_PAYLOAD_def)
  moreover have "list_all item_ok (open_then_reset sid p)"
    using assms(3) by (simp add: open_then_reset_def MAX_PAYLOAD_def INITIAL_WINDOW_def)
  ultimately show ?thesis
    using feed_bytes_items [OF _ run_ok_start] open_then_reset_handled [OF assms] by (simp add: acceptor_feed_def)
qed

definition kept_handle :: "bytes \<Rightarrow> home_stream" where
  "kept_handle p = send_signal SigReset (set_state STREAM_RESET (send_signal (SigData p) home_stream_new))"

lemma keep_iteration:
  assumes "odd (unat sid)" and "high_water (bare_acceptor hw) < unat sid" and "length p \<le> INITIAL_WINDOW"
    and d: "dv_acceptor d = bare_acceptor hw" "dv_ready d = []" "dv_owner d"
  shows "let d' = driver_iteration (ReadBytes (concat (map item_wire (open_then_reset sid p)))) d
    in dv_running d' = dv_running d \<and> dv_acceptor d' = bare_acceptor (Some sid) \<and> dv_ready d' = [] \<and> dv_owner d'
       \<and> dv_streams d' = table_put (dv_streams d) sid (kept_handle p)"
proof -
  have ne: "concat (map item_wire (open_then_reset sid p)) \<noteq> []"
    by (simp add: open_then_reset_def wire_def u32_to_be_bytes_def)
  define bs where "bs = concat (map item_wire (open_then_reset sid p))"
  note bs = ne [folded bs_def] bare_feed [OF assms(1-3), folded bs_def]
  show ?thesis
    unfolding bs_def [symmetric] using d
    by (simp add: driver_iteration_def select_arm_def on_read_def bs deliver_or_break_def
        deliver_output_def mark_writable_streams_def opened_then_reset_def mux_output_default_def deliver_event_def
        Let_def flush_ready_def on_stream_def dv_get_def kept_handle_def)
qed

lemma table_put_fresh: "table_get t k = None \<Longrightarrow> table_put t k v = t @ [(k, v)]"
  unfolding table_get_def table_put_def by (induction t) (auto split: if_splits)

lemma keep_run:
  fixes p :: bytes
  assumes "n < 2 ^ 31" and "length p \<le> INITIAL_WINDOW"
  shows "\<exists>d lg hw. driver_run example_limits d lg \<and> dv_running d \<and> dv_acceptor d = bare_acceptor hw
    \<and> high_water (bare_acceptor hw) < 2 * n + 1 \<and> dv_ready d = [] \<and> dv_owner d
    \<and> (\<forall>k. 2 * n < unat k \<longrightarrow> dv_get d k = None) \<and> inbound_bytes d = n * length p"
  using assms(1)
proof (induction n)
  case 0
  have "example_acceptor = bare_acceptor None" "high_water (bare_acceptor None) = 0"
    by (simp_all add: bare_acceptor_def example_acceptor_def high_water_def)
  then show ?case using driver_run.new [OF example_new]
    by (intro exI [of _ "driver_new example_acceptor"] exI [of _ empty_log] exI [of _ None])
      (simp add: driver_new_def dv_get_def inbound_bytes_def)
next
  case (Suc n)
  then obtain d lg hw where d: "driver_run example_limits d lg" "dv_running d" "dv_acceptor d = bare_acceptor hw"
    "high_water (bare_acceptor hw) < 2 * n + 1" "dv_ready d = []" "dv_owner d"
    "\<And>k. 2 * n < unat k \<Longrightarrow> dv_get d k = None" "inbound_bytes d = n * length p" by auto
  define sid :: u32 where "sid = of_nat (2 * n + 1)"
  have sid: "unat sid = 2 * n + 1" using Suc.prems unfolding sid_def by (simp add: unat_of_nat take_bit_nat_eq_self del: of_nat_add of_nat_Suc of_nat_mult)
  let ?bs = "concat (map item_wire (open_then_reset sid p))"
  define d' where "d' = driver_iteration (ReadBytes ?bs) d"
  have new: "dv_running d' = dv_running d \<and> dv_acceptor d' = bare_acceptor (Some sid) \<and> dv_ready d' = [] \<and> dv_owner d'
      \<and> dv_streams d' = table_put (dv_streams d) sid (kept_handle p)"
    using keep_iteration [OF _ _ assms(2) d(3,5,6), of sid] sid d(4) by (simp add: d'_def Let_def)
  have fresh: "table_get (dv_streams d) sid = None" using d(7) [of sid] sid by (simp add: dv_get_def)
  have "length (held (kept_handle p)) = length p" by (simp add: kept_handle_def)
  then have "inbound_bytes d' = Suc n * length p"
    using new d(8) table_put_fresh [OF fresh] by (simp add: inbound_bytes_def)
  moreover have "dv_get d' k = None" if "2 * Suc n < unat k" for k
    using that d(7) [of k] new sid by (auto simp: dv_get_def)
  moreover have "driver_run example_limits d' (receive (input_data (ReadBytes ?bs) d) lg)"
    unfolding d'_def using d(1,2) by (blast intro: driver_run.step driver_step.iterate)
  moreover have "high_water (bare_acceptor (Some sid)) < 2 * Suc n + 1" using sid by (simp add: high_water_def bare_acceptor_def)
  ultimately show ?case using new d(2) by blast
qed

subsection \<open>Properties of a connection\<close>

lemma run_logs:
  assumes "driver_run l d lg"
  obtains fs where "logs_ok d lg fs"
  using reachable_inv [OF assms] by (auto elim!: run_invD dest: driver_inv_logs)

lemma logs_decode:
  assumes "logs_ok d lg fs"
  shows "drain (decoder_feed decoder_new (dv_wire d)) = (Inr fs, decoder_new)"
proof -
  from assms obtain bss where "list_all2 (\<lambda>f bs. encode f = Inr bs) fs bss" "dv_wire d = concat bss"
    by (auto simp: logs_ok_def on_wire_def)
  with drain_encode_all [of fs bss "[]"] drain_new show ?thesis by (simp add: decoder_feed_def decoder_new_def)
qed



text \<open>
  C7. The books of every stream of a running connection agree. The staging counter that holds back
  the writer is exactly what it wrote and the driver still has to send, and at most one window. The
  bytes a handle holds, plus those it has reported as consumed and the driver has not yet handled, are
  bytes the acceptor still counts as delivered and not consumed, at most one window; so handling a
  report of consumed bytes never fails and never panics. While a stream is live, what was sent, what waits in the
  driver and what waits in the channel make up exactly what was accepted.
\<close>

theorem connection_books:
  assumes "driver_run l d lg" and "dv_running d" and "dv_get d sid = Some h"
  shows "sx_staged (hm_status h) = length (pending_of d sid) + length (queued (dv_commands d) sid)
    \<and> sx_staged (hm_status h) \<le> MAX_STAGED_WRITE_BYTES_PER_STREAM
    \<and> (\<forall>s. ac_get (dv_acceptor d) sid = Some s \<longrightarrow>
         length (held h) + told (dv_commands d) sid \<le> ss_debited_not_consumed s \<and> ss_debited_not_consumed s \<le> INITIAL_WINDOW)
    \<and> (\<exists>fs. drain (decoder_feed decoder_new (dv_wire d)) = (Inr fs, decoder_new)
         \<and> (hm_state h = STREAM_LIVE \<and> ac_get (dv_acceptor d) sid \<noteq> None \<longrightarrow>
              sent_data sid fs @ pending_of d sid @ queued (dv_commands d) sid = lg_accepted lg sid))"
proof -
  from reachable_inv [OF assms(1)] assms(2) obtain fs where inv: "driver_inv d lg fs" by (auto elim: run_invD)
  have "ss_debited_not_consumed s \<le> INITIAL_WINDOW" if "ac_get (dv_acceptor d) sid = Some s" for s
    using state_okD [OF driver_invD(1) [OF inv] that] rw.bounded [of "ss_receive_window s"] by (simp add: stream_state_ok_def)
  with handle_okD [OF inv assms(3)] logs_decode [OF driver_inv_logs [OF inv]] show ?thesis
    by (simp add: handle_ok_def stream_link_def)
qed

theorem connection_books_witness:
  "sx_staged (hm_status full_handle) = length (pending_of example_full 5) + length (queued (dv_commands example_full) 5)
    \<and> sx_staged (hm_status full_handle) = MAX_STAGED_WRITE_BYTES_PER_STREAM"
proof -
  have full: "dv_running example_full" "dv_get example_full 5 = Some full_handle"
    by (simp_all add: example_full_def) (simp add: example_taken_def example_opened_def driver_new_def)
  obtain lg where "driver_run example_limits example_full lg"
    using example_taken_run driver_step.writes [OF example_usable(1) example_write_full] by (blast intro: driver_run.step)
  from connection_books [OF this full] show ?thesis by (simp add: full_handle_def)
qed



definition later :: "carrier_driver \<times> run_log \<Rightarrow> carrier_driver \<times> run_log \<Rightarrow> bool" where
  "later = rtranclp (\<lambda>(d, lg) (d', lg'). driver_step d lg d' lg')"

definition stranded :: "u32 \<Rightarrow> carrier_driver \<Rightarrow> run_log \<Rightarrow> bool" where
  "stranded sid d lg \<longleftrightarrow> (\<forall>d' lg'. later (d, lg) (d', lg') \<longrightarrow> waits_for_nobody sid d')"

lemma waits_stranded: "waits_for_nobody sid d \<Longrightarrow> stranded sid d lg"
proof -
  assume start: "waits_for_nobody sid d"
  have "later p q \<Longrightarrow> waits_for_nobody sid (fst p) \<Longrightarrow> waits_for_nobody sid (fst q)" for p q
    unfolding later_def by (induction rule: rtranclp_induct) (auto intro: stopped_step_waits)
  with start show ?thesis by (auto simp: stranded_def)
qed

text \<open>
  C33. A writer can wait for ever. A task whose \<open>poll_write\<close> found the staging area full is parked
  until staged bytes are released. When the driver ends it marks the stream as gone and signals the reader,
  but it releases nothing and does not wake the writer: a reachable connection has ended with such a
  task, and nothing that happens later wakes it.
\<close>

theorem writer_stranded: "\<exists>d lg. driver_run example_limits d lg \<and> stranded 5 d lg"
proof -
  obtain lg where lg: "driver_run example_limits example_parked lg" using example_parked_run by blast
  have run: "dv_running example_parked"
    by (simp add: example_parked_def example_full_def) (simp add: example_taken_def example_opened_def driver_new_def)
  define d where "d = driver_iteration (ReadBytes []) example_parked"
  obtain e where e: "d = driver_end e" "dv_get e = dv_get example_parked" using eof_iteration d_def by blast
  have "sx_waker (hm_status (send_signal SigGone (set_state STREAM_GONE parked_handle)))"
    by (simp add: send_signal_def set_state_def parked_handle_def)
  moreover have "dv_get d 5 = Some (send_signal SigGone (set_state STREAM_GONE parked_handle))"
    by (simp add: e dv_get_driver_end) (simp add: example_parked_def)
  ultimately have "waits_for_nobody 5 d" by (simp add: waits_for_nobody_def failed_def e(1))
  moreover have "driver_run example_limits d (receive (input_data (ReadBytes []) example_parked) lg)"
    unfolding d_def using lg run by (blast intro: driver_run.step driver_step.iterate)
  ultimately show ?thesis using waits_stranded by blast
qed



end
