(* ===== verification/Spec2Isabelle.thy ===== *)
theory Spec2Isabelle
  imports Spl_Upload Spl_Response Spl_Carrier_Demux Spl_Mark Spl_Bridge Spl_Pair_Window Spl_Driver_Props
begin

text \<open>
  A verification library for spl-rust, the SPL (solstone private link) stack.

  \<^bold>\<open>The program.\<close> A journal (the \<^emph>\<open>home\<close>) and its paired devices (the \<^emph>\<open>dialers\<close>) talk over one
  byte carrier, direct TLS or a relayed tunnel. Over it runs a mux of numbered streams with
  credit-based flow control, and over each stream one HTTP exchange. A device is paired by
  scanning a pair link, which pins the authority of the home. The crate \<open>spl-core\<close> holds the wire
  protocol without I/O, \<open>spl-home\<close> the listener side of the mux and its driver, \<open>spl-transport\<close> the
  sockets of the dialer, and \<open>spl-bridge\<close> a public relay that routes by server name.

  \<^bold>\<open>How the code is read.\<close> \<open>u8\<close>, \<open>u16\<close>, \<open>u32\<close> are words of their width; \<open>usize\<close>, \<open>u64\<close> and \<open>u128\<close>
  are natural numbers with the checked, saturating or panicking operation of the source written
  out; \<open>i64\<close> is \<^typ>\<open>int\<close> with its limits. Byte strings and \<open>str\<close> are byte lists. A method on
  \<open>&mut self\<close> takes the state and returns it; \<open>Result\<close> is a sum with the error on the left; a panic
  is a value of its own (\<open>Panic\<close>, a string on the left, or \<open>None\<close>, as each theory says). Hash maps
  with a fixed order of iteration nowhere observed are association lists. Code of other crates
  (SHA-256, HKDF, P-256, Argon2id, JSON, base64, RFC 3339, TLS) is a parameter; what is relied on
  of it is a hypothesis of the theorem that relies on it.

  \<^bold>\<open>Theories.\<close>
  \<^item> \<open>Spl_Prelude\<close>, \<open>Spl_Std\<close>: types, result binding, checked arithmetic, and what is used of Rust's
    standard library on strings (search, split, UTF-8, trimming, case, numbers).
  \<^item> \<open>Spl_Decoder\<close>: the interface \<open>incremental_decoder\<close> of a decoder that is fed pieces of its input
    and may be drained at any time, with the result that piece boundaries do not matter.
    Interpreted for mux frames and for chunked bodies.
  \<^item> \<open>Spl_Frame\<close> (\<open>spl-core/src/frame.rs\<close>): frames, \<open>encode\<close>, \<open>next_frame\<close>, \<open>drain\<close>, identifiers of
    the dialer. Decoding is exact and inverts encoding; errors are sticky.
  \<^item> \<open>Spl_Http\<close> (\<open>http.rs\<close>): requests, responses, one-shot and incremental chunked decoding, which
    agree with each other and with a grammar.
  \<^item> \<open>Spl_Recv_Window\<close>, \<open>Spl_Upload\<close>, \<open>Spl_Response\<close>, \<open>Spl_Http_Stream\<close>, \<open>Spl_Carrier_Demux\<close>
    (\<open>spl-core/src/mux.rs\<close>): \<open>RecvWindow\<close> with the interface \<open>flow_window\<close>, \<open>WindowedUpload\<close>,
    \<open>ResponseAssembler\<close>, \<open>HttpStreamAssembler\<close>, \<open>CarrierDemux\<close>. Credit is accounted exactly, no
    peer input makes them panic, and the demultiplexer refines independent streams.
  \<^item> \<open>Spl_Stream_Table\<close>, \<open>Spl_Mux_Acceptor\<close>, \<open>Spl_Acceptor_Inv\<close>, \<open>Spl_Acceptor_Input\<close>,
    \<open>Spl_Acceptor_Run\<close> (\<open>spl-home/src/mux.rs\<close>, \<open>error.rs\<close>, \<open>config.rs\<close>): the interface
    \<open>stream_table\<close>, \<open>MuxAcceptor\<close> with all frame handlers, its invariant, its byte-wise input and
    its histories (\<open>acceptor_step\<close>). The byte-wise input refines frame handling; limits and credit
    hold in every reachable state.
  \<^item> \<open>Spl_Crockford\<close>, \<open>Spl_Pair_Link\<close> (\<open>crockford.rs\<close>, \<open>pairlink.rs\<close>): the text and the binary forms of
    pair links, with round trips and well-formedness.
  \<^item> \<open>Spl_Ca\<close> (\<open>ca.rs\<close>): the DER reader and certificate pinning.
  \<^item> \<open>Spl_Relay\<close> (\<open>relay.rs\<close>, \<open>jwt.rs\<close>, \<open>relay_access.rs\<close>, \<open>relay_window.rs\<close>): relay URLs and controls,
    token lifetimes, instance capabilities, the keys of a pair window and journal identifiers.
  \<^item> \<open>Spl_Mark\<close> (\<open>mark.rs\<close>): the mark of a journal identifier.
  \<^item> \<open>Spl_Bridge\<close> (\<open>bridge.rs\<close>): the local journal bridge: request framing, authorization, header and
    cookie rewriting, redirects and bootstrap tokens.
  \<^item> \<open>Spl_Pair_Window\<close> (\<open>pair_window.rs\<close>, parts of \<open>config.rs\<close> and \<open>connection.rs\<close> of \<open>spl-home\<close>): opening a
    pairing window and admitting connections to it, at most one of them, before it expires and with its key.
  \<^item> \<open>Spl_Home_Driver\<close> (\<open>spl-home/src/connection.rs\<close>): the task that drives a listener connection and the
    handles of its streams; one record holds both sides of their channels. Reads return.
  \<^item> \<open>Spl_Acceptor_Books\<close>, \<open>Spl_Driver_Inv\<close>, \<open>Spl_Driver_Loop\<close>, \<open>Spl_Driver_Run\<close>, \<open>Spl_Driver_Props\<close>: what a client
    of the acceptor can rely on, the invariant that ties acceptor, driver, channels and handles together, its
    preservation by the loop and by every call on a handle, and all runs (\<open>driver_step\<close>, \<open>driver_run\<close>). Bytes keep
    their order in both directions, flow control never fails on the local side, and the reason of the end is
    exact. A writer may be stranded when the driver ends, and reset streams keep their bytes.

  \<^bold>\<open>Bounds.\<close> No fuel is used: every loop is structural or has a termination proof by a measure
  (remaining input, length of a queue), except the loop of \<open>poll_read\<close>, a partial function that is
  proved to return. A theorem about arbitrary peer input has no bound on its
  length beyond what the code itself imposes.

  \<^bold>\<open>Not modelled.\<close> Sockets, TLS, timers and the asynchronous runtime, hence the I/O loops of
  \<open>spl-transport\<close> (\<open>client.rs\<close>, \<open>connection.rs\<close>, \<open>relay.rs\<close>, \<open>journal_bridge.rs\<close>,
  \<open>journal_bridge_carrier.rs\<close>, \<open>home_relay.rs\<close>, \<open>pairing.rs\<close> and their helpers) and the server of
  \<open>spl-bridge\<close>; formatting of errors and of \<open>Debug\<close> output; tests, build scripts and binaries.
\<close>

end
